(* ===== verification/Prelude.thy ===== *)
theory Prelude
  imports Main "HOL-Library.Word" "HOL-Library.Monad_Syntax"
begin

text \<open>
  What every other theory of the development shares: the machine words of an AVR, the
  predicate \<open>returns\<close> for code that may fail to return, and singly linked lists as the
  kernel walks them. The kernel never holds "the previous element" of a list: it holds the
  address of the cell that points to the element (\<open>OsTask **list\<close>), starting with the
  head of the list and moving on to the link member of the element it looks at. The
  predicate \<open>chain\<close> and the loop \<open>walk\<close> speak of such cells, and the locale
  \<open>linked_cells\<close> states once what the tasks' lists, the list of timeouts, the mutexes
  owned by a task and the software timers have in common.
\<close>

unbundle bit_operations_syntax

section \<open>Machine words\<close>

type_synonym u8 = "8 word"
type_synonym u16 = "16 word"
type_synonym addr = "16 word"

named_theorems views \<open>what an update of the kernel state leaves alone\<close>
named_theorems specs \<open>total correctness of the operations of the kernel\<close>

lemma u16_succ_sub: "(x :: u16) + 1 - y = x - y + 1"
  by simp

lemma u8_le_trans: "(a :: u8) \<le> b \<Longrightarrow> b \<le> c \<Longrightarrow> a \<le> c"
  by (rule order_trans)

lemma u8_bound: "unat (x :: u8) \<le> 255"
proof -
  have "unat x < 2 ^ LENGTH(8)" by (rule unsigned_less)
  then show ?thesis by simp
qed

section \<open>Code that may fail to return\<close>

text \<open>
  A definition of type \<open>\<dots> option\<close> is \<open>None\<close> where the code dereferences a null
  pointer, loops forever or stops the processor. \<open>returns m P\<close>: the code returns, and
  what it returns satisfies \<open>P\<close>.
\<close>

definition returns :: "'a option \<Rightarrow> ('a \<Rightarrow> bool) \<Rightarrow> bool" where
  "returns m P \<longleftrightarrow> (case m of None \<Rightarrow> False | Some x \<Rightarrow> P x)"

lemma returns_Some [simp]: "returns (Some x) P \<longleftrightarrow> P x"
  by (simp add: returns_def)

lemma returns_None [simp]: "\<not> returns None P"
  by (simp add: returns_def)

lemma returns_bind [simp]: "returns (Option.bind m f) P \<longleftrightarrow> returns m (\<lambda>x. returns (f x) P)"
  by (cases m) auto

lemma returns_mono: "returns m P \<Longrightarrow> (\<And>x. P x \<Longrightarrow> Q x) \<Longrightarrow> returns m Q"
  by (cases m) auto

lemma returns_conj: "returns m P \<Longrightarrow> returns m Q \<Longrightarrow> returns m (\<lambda>x. P x \<and> Q x)"
  by (cases m) auto

lemma returnsE: "returns m P \<Longrightarrow> (\<And>x. m = Some x \<Longrightarrow> P x \<Longrightarrow> thesis) \<Longrightarrow> thesis"
  by (cases m) auto

lemma returns_iff: "returns m P \<longleftrightarrow> (\<exists>x. m = Some x \<and> P x)"
  by (cases m) auto

lemma returns_if [simp]:
  "returns (if b then m else n) P \<longleftrightarrow> (if b then returns m P else returns n P)"
  by simp

section \<open>Linked lists\<close>

subsection \<open>The walk along the cells of a list\<close>

text \<open>The loop \<^verbatim>\<open>while((it = *list) != NULL && stay(it)) list = &it->next;\<close>\<close>

partial_function (option) walk ::
  "('c \<Rightarrow> 'a option) \<Rightarrow> ('a \<Rightarrow> 'c) \<Rightarrow> ('a \<Rightarrow> bool) \<Rightarrow> 'c \<Rightarrow> ('c \<times> 'a option) option" where
  "walk rd nx stay c =
     (case rd c of
        None \<Rightarrow> Some (c, None)
      | Some it \<Rightarrow> if stay it then walk rd nx stay (nx it) else Some (c, Some it))"

fun chain :: "('c \<Rightarrow> 'a option) \<Rightarrow> ('a \<Rightarrow> 'c) \<Rightarrow> 'c \<Rightarrow> 'a list \<Rightarrow> bool" where
  "chain rd nx c [] \<longleftrightarrow> rd c = None"
| "chain rd nx c (x # xs) \<longleftrightarrow> rd c = Some x \<and> chain rd nx (nx x) xs"

definition first :: "'a list \<Rightarrow> 'a option" where
  "first xs = (case xs of [] \<Rightarrow> None | x # _ \<Rightarrow> Some x)"

definition cell_after :: "('a \<Rightarrow> 'c) \<Rightarrow> 'c \<Rightarrow> 'a list \<Rightarrow> 'c" where
  "cell_after nx c pre = (if pre = [] then c else nx (last pre))"

lemma first_simps [simp]: "first [] = None" "first (x # xs) = Some x"
  by (simp_all add: first_def)

lemma first_eq_None [simp]: "first xs = None \<longleftrightarrow> xs = []"
  by (cases xs) simp_all

lemma first_eq_Some: "first xs = Some x \<longleftrightarrow> (\<exists>ys. xs = x # ys)"
  by (cases xs) auto

lemma cell_after_simps [simp]:
  "cell_after nx c [] = c" "cell_after nx c (x # xs) = cell_after nx (nx x) xs"
  by (simp_all add: cell_after_def)

lemma chain_first: "chain rd nx c xs \<Longrightarrow> rd c = first xs"
  by (cases xs) auto

lemma chain_unique: "chain rd nx c xs \<Longrightarrow> chain rd nx c ys \<Longrightarrow> xs = ys"
proof (induction xs arbitrary: c ys)
  case Nil
  then show ?case by (cases ys) auto
next
  case (Cons x xs)
  then show ?case by (cases ys) auto
qed

lemma chain_suffix: "chain rd nx c (xs @ y # ys) \<Longrightarrow> chain rd nx (nx y) ys"
  by (induction xs arbitrary: c) auto

lemma chain_distinct: "chain rd nx c xs \<Longrightarrow> distinct xs"
proof (induction xs arbitrary: c)
  case Nil
  then show ?case by simp
next
  case (Cons x xs)
  have "x \<notin> set xs"
  proof
    assume "x \<in> set xs"
    then obtain as bs where xs: "xs = as @ x # bs" by (auto simp: in_set_conv_decomp)
    with Cons.prems have "chain rd nx (nx x) bs" by (auto dest: chain_suffix)
    moreover from Cons.prems have "chain rd nx (nx x) xs" by simp
    ultimately have "bs = xs" by (rule chain_unique)
    with xs show False by simp
  qed
  with Cons show ?case by auto
qed

text \<open>On a list the walk comes to an end, and it ends where the condition fails first.\<close>

lemma walk_chain:
  "chain rd nx c xs \<Longrightarrow>
   walk rd nx stay c = Some (cell_after nx c (takeWhile stay xs), first (dropWhile stay xs))"
proof (induction xs arbitrary: c)
  case Nil
  then show ?case by (subst walk.simps) simp
next
  case (Cons x xs)
  then show ?case by (subst walk.simps) simp
qed

lemma chain_upd_other:
  "chain rd nx c xs \<Longrightarrow> d \<noteq> c \<Longrightarrow> d \<notin> nx ` set xs \<Longrightarrow> chain (rd(d := v)) nx c xs"
  by (induction xs arbitrary: c) auto

lemma chain_cong:
  "chain rd nx c xs \<Longrightarrow> rd' c = rd c \<Longrightarrow> (\<And>x. x \<in> set xs \<Longrightarrow> rd' (nx x) = rd (nx x)) \<Longrightarrow>
   chain rd' nx c xs"
  by (induction xs arbitrary: c) auto

subsection \<open>Lists behind an interface of reads and writes\<close>

locale linked_cells =
  fixes rd :: "'s \<Rightarrow> 'c \<Rightarrow> 'a option"
    and wr :: "'c \<Rightarrow> 'a option \<Rightarrow> 's \<Rightarrow> 's"
    and nx :: "'a \<Rightarrow> 'c"
  assumes rd_wr: "rd (wr c v s) = (rd s)(c := v)"
    and nx_inj: "nx x = nx y \<Longrightarrow> x = y"
begin

lemma splice_in:
  assumes "chain (rd s) nx c (pre @ post)" and "x \<notin> set (pre @ post)" and "c \<notin> range nx"
  shows "chain (rd (wr (cell_after nx c pre) (Some x) (wr (nx x) (first post) s))) nx c
           (pre @ x # post)"
  using assms
proof -
  have gen: "chain r nx c (pre @ post) \<Longrightarrow> x \<notin> set (pre @ post) \<Longrightarrow> c \<noteq> nx x \<Longrightarrow>
      c \<notin> nx ` set (pre @ post) \<Longrightarrow> distinct (pre @ post) \<Longrightarrow>
      chain (r(nx x := first post, cell_after nx c pre := Some x)) nx c (pre @ x # post)" for r c
  proof (induction pre arbitrary: c)
    case Nil
    then have "chain (r(nx x := first post, c := Some x)) nx (nx x) post"
      by (cases post) (auto simp del: fun_upd_apply simp add: fun_upd_same fun_upd_other
          intro!: chain_upd_other dest: nx_inj)
    with Nil show ?case by (simp del: fun_upd_apply add: fun_upd_same)
  next
    case (Cons y pre)
    let ?r = "r(nx x := first post, cell_after nx (nx y) pre := Some x)"
    have c: "c \<noteq> cell_after nx (nx y) pre"
      using Cons.prems(4) by (auto simp: cell_after_def)
    have "chain ?r nx (nx y) (pre @ x # post)"
      using Cons.prems by (intro Cons.IH) (auto dest: nx_inj)
    with Cons.prems c show ?case
      by (auto simp del: fun_upd_apply simp add: fun_upd_other)
  qed
  show ?thesis
    using gen [OF assms(1,2)] assms(3) chain_distinct [OF assms(1)] by (auto simp: rd_wr)
qed

lemma splice_out:
  assumes "chain (rd s) nx c (pre @ x # post)" and "c \<notin> range nx"
  shows "chain (rd (wr (cell_after nx c pre) (rd s (nx x)) s)) nx c (pre @ post)"
proof -
  have gen: "chain r nx c (pre @ x # post) \<Longrightarrow> c \<notin> nx ` set (pre @ x # post) \<Longrightarrow>
      distinct (pre @ x # post) \<Longrightarrow>
      chain (r(cell_after nx c pre := r (nx x))) nx c (pre @ post)" for r c
  proof (induction pre arbitrary: c)
    case Nil
    then have "r (nx x) = first post" by (auto dest: chain_first)
    with Nil show ?case
      by (cases post) (auto simp del: fun_upd_apply simp add: fun_upd_same fun_upd_other
          intro!: chain_upd_other dest: nx_inj)
  next
    case (Cons y pre)
    have c: "c \<noteq> cell_after nx (nx y) pre"
      using Cons.prems(2) by (auto simp: cell_after_def)
    have "chain (r(cell_after nx (nx y) pre := r (nx x))) nx (nx y) (pre @ post)"
      using Cons.prems by (intro Cons.IH) (auto dest: nx_inj)
    with Cons.prems c show ?case
      by (auto simp del: fun_upd_apply simp add: fun_upd_other)
  qed
  show ?thesis
    using gen [OF assms(1)] assms(2) chain_distinct [OF assms(1)] by (auto simp: rd_wr)
qed

lemma other_list:
  assumes "chain (rd s) nx d ys" and "c \<noteq> d" and "d \<notin> range nx" and "c \<notin> nx ` set ys"
  shows "chain (rd (wr c v s)) nx d ys"
  using assms by (auto simp: rd_wr intro: chain_upd_other)

lemma cell_after_other:
  assumes "c \<notin> range nx" and "set pre \<inter> set ys = {}"
  shows "cell_after nx c pre \<notin> nx ` set ys"
  using assms by (auto simp: cell_after_def dest!: nx_inj) (metis disjoint_iff last_in_set)

end

end
