(* ===== verification/Kernel_State.thy ===== *)
theory Kernel_State
  imports Prelude
begin

text \<open>
  The data of the kernel: the configuration of \<^verbatim>\<open>config.h\<close> with its default values, the
  structures of \<^verbatim>\<open>tasks.h\<close>, \<^verbatim>\<open>mutex.h\<close>, \<^verbatim>\<open>semaphore.h\<close>, \<^verbatim>\<open>queue.h\<close>, \<^verbatim>\<open>event.h\<close>,
  \<^verbatim>\<open>timer.h\<close> and \<^verbatim>\<open>memory.h\<close>, and one record with every variable of the kernel.

  Objects live in one store per structure, addressed by 16 bit words; a pointer is an
  \<open>addr option\<close> whose \<open>None\<close> is \<open>NULL\<close>. The link members of the tasks are kept
  in the tasks, as in C, so two lists that share a task would corrupt each other.
  Everything the kernel reads and writes as plain bytes (stacks, buffers of queues, blocks
  of pools) is in \<open>ram\<close>.
\<close>

section \<open>Configuration\<close>

abbreviation (input) OS_CFG_TICK_HZ :: nat where "OS_CFG_TICK_HZ \<equiv> 1000"
abbreviation (input) OS_CFG_TICK_START :: u16 where "OS_CFG_TICK_START \<equiv> 0"
abbreviation (input) OS_CFG_ROUND_ROBIN :: u8 where "OS_CFG_ROUND_ROBIN \<equiv> 1"
abbreviation (input) OS_CFG_AGING_TICKS :: u8 where "OS_CFG_AGING_TICKS \<equiv> 10"
abbreviation (input) OS_CFG_AGING_LIMIT :: u8 where "OS_CFG_AGING_LIMIT \<equiv> 254"
abbreviation (input) OS_CFG_MAIN_STACK_SIZE :: u16 where "OS_CFG_MAIN_STACK_SIZE \<equiv> 256"

section \<open>Constants\<close>

abbreviation (input) OS_PRIORITY_MIN :: u8 where "OS_PRIORITY_MIN \<equiv> 1"
abbreviation (input) OS_PRIORITY_MAX :: u8 where "OS_PRIORITY_MAX \<equiv> 254"

abbreviation (input) OS_TASK_RUNNING :: u8 where "OS_TASK_RUNNING \<equiv> 0x00"
abbreviation (input) OS_TASK_READY :: u8 where "OS_TASK_READY \<equiv> 0x01"
abbreviation (input) OS_TASK_BLOCKED :: u8 where "OS_TASK_BLOCKED \<equiv> 0x02"
abbreviation (input) OS_TASK_SUSPENDED :: u8 where "OS_TASK_SUSPENDED \<equiv> 0x03"
abbreviation (input) OS_TASK_DEAD :: u8 where "OS_TASK_DEAD \<equiv> 0x04"
abbreviation (input) OS_TASK_STATE :: u8 where "OS_TASK_STATE \<equiv> 0x0f"
abbreviation (input) OS_TASK_TIMED :: u8 where "OS_TASK_TIMED \<equiv> 0x10"
abbreviation (input) OS_TASK_MUTEX :: u8 where "OS_TASK_MUTEX \<equiv> 0x20"

abbreviation (input) OS_NO_WAIT :: u16 where "OS_NO_WAIT \<equiv> 0"
abbreviation (input) OS_WAIT_FOREVER :: u16 where "OS_WAIT_FOREVER \<equiv> - 1"

abbreviation (input) OS_STACK_FILL :: u8 where "OS_STACK_FILL \<equiv> 0xa5"

abbreviation (input) OS_EVENT_ALL :: u8 where "OS_EVENT_ALL \<equiv> 0x01"
abbreviation (input) OS_EVENT_KEEP :: u8 where "OS_EVENT_KEEP \<equiv> 0x02"

section \<open>Structures\<close>

text \<open>
  The heads of the lists of tasks. \<open>OsTask **waitList\<close> of a task always points to the
  first member of the object the task waits for, never into a list.
\<close>

datatype head = ReadyHead | MutexHead addr | SemHead addr | QueueHead addr | EventHead addr | DeadHead

text \<open>What an \<open>OsTask **list\<close> points to while the kernel walks along a list.\<close>

datatype cell = Head head | Next addr

record OsTask =
  sp :: addr
  result :: u8
  tnext :: "addr option"
  waitList :: "head option"
  timerNext :: "addr option"
  wake :: u16
  wait :: u16
  state :: u8
  priority :: u8
  basePriority :: u8
  tmutexes :: "addr option"
  stack :: addr
  dynamic :: u8

record OsMutex =
  m_waiters :: "addr option"
  owner :: "addr option"
  nextOwned :: "addr option"

record OsSemaphore =
  s_waiters :: "addr option"
  s_count :: u8
  s_limit :: u8

record OsQueue =
  q_waiters :: "addr option"
  buffer :: addr
  itemSize :: u8
  q_length :: u8
  q_count :: u8
  q_head :: u8

record OsEvent =
  e_waiters :: "addr option"
  e_flags :: u8

record OsTimer =
  tm_next :: "addr option"
  tm_when :: u16
  tm_period :: u16
  tm_function :: u16
  tm_param :: u16

text \<open>
  The union \<open>wait\<close> of a task is two bytes: a pointer to a message, or the flags (first
  byte) and the options (second byte) of a wait for an event.
\<close>

definition wait_flags :: "u16 \<Rightarrow> u8" where
  "wait_flags w = ucast w"

definition wait_options :: "u16 \<Rightarrow> u8" where
  "wait_options w = ucast (drop_bit 8 w)"

definition wait_bytes :: "u8 \<Rightarrow> u8 \<Rightarrow> u16" where
  "wait_bytes f p = push_bit 8 (ucast p) OR ucast f"

definition set_wait_flags :: "u8 \<Rightarrow> u16 \<Rightarrow> u16" where
  "set_wait_flags f w = wait_bytes f (wait_options w)"

definition set_wait_options :: "u8 \<Rightarrow> u16 \<Rightarrow> u16" where
  "set_wait_options p w = wait_bytes (wait_flags w) p"

lemma wait_bytes_simps [simp]:
  "wait_flags (wait_bytes f p) = f"
  "wait_options (wait_bytes f p) = p"
  by (rule bit_word_eqI, force simp: wait_flags_def wait_options_def wait_bytes_def bit_simps
      dest: bit_imp_le_length)+

lemma wait_union [simp]:
  "wait_flags (set_wait_flags f w) = f"
  "wait_options (set_wait_options p w) = p"
  "wait_options (set_wait_flags f w) = wait_options w"
  "wait_flags (set_wait_options p w) = wait_flags w"
  by (simp_all add: set_wait_flags_def set_wait_options_def)

section \<open>The state of the kernel\<close>

text \<open>
  What a task that does not run has still to do inside the kernel once it gets the
  processor back: the part of its stack between \<open>osPortSwitch\<close> and its own code.
  \<open>KReturn v\<close> is a call that has nothing left to do but to return \<open>v\<close>; \<open>KResult\<close> and
  \<open>KDelay\<close> return what the task has been woken up with (\<open>osDelay\<close> drops it); the others
  are the rest of the function of that name, and \<open>KStart\<close> is a task that has not run yet.
\<close>

datatype val = VVoid | VBool bool | VByte u8 | VTask "addr option"

datatype kont =
    KReturn val
  | KResult
  | KDelay
  | KMutexTryLock addr
  | KQueue
  | KEventWait
  | KDelete
  | KStart u16 u16

record kernel =
  tasks :: "addr \<Rightarrow> OsTask"
  mutexes :: "addr \<Rightarrow> OsMutex"
  semaphores :: "addr \<Rightarrow> OsSemaphore"
  queues :: "addr \<Rightarrow> OsQueue"
  events :: "addr \<Rightarrow> OsEvent"
  timers :: "addr \<Rightarrow> OsTimer"
  pools :: "addr \<Rightarrow> addr option"
  ram :: "addr \<Rightarrow> u8"
  osIdleTask :: addr
  osCurrentTask :: addr
  osReadyList :: "addr option"
  osTimerList :: "addr option"
  osTicks :: u16
  osAging :: u8
  osTimers :: "addr option"
  osDeadList :: "addr option"
  osTaskReaper :: bool
  heap :: "addr \<rightharpoonup> u16"
  cont :: "addr \<Rightarrow> kont option"

text \<open>
  What a function of the kernel that may switch to another task does: it returns to its
  caller, or the processor is given to the task that is \<open>osCurrentTask\<close> afterwards.
\<close>

datatype outcome = Returned val | Switched

type_synonym res = "(outcome \<times> kernel) option"

subsection \<open>Assignments\<close>

definition task_upd :: "addr \<Rightarrow> (OsTask \<Rightarrow> OsTask) \<Rightarrow> kernel \<Rightarrow> kernel" where
  "task_upd t f s = s\<lparr>tasks := (tasks s)(t := f (tasks s t))\<rparr>"

definition mutex_upd :: "addr \<Rightarrow> (OsMutex \<Rightarrow> OsMutex) \<Rightarrow> kernel \<Rightarrow> kernel" where
  "mutex_upd m f s = s\<lparr>mutexes := (mutexes s)(m := f (mutexes s m))\<rparr>"

definition sem_upd :: "addr \<Rightarrow> (OsSemaphore \<Rightarrow> OsSemaphore) \<Rightarrow> kernel \<Rightarrow> kernel" where
  "sem_upd m f s = s\<lparr>semaphores := (semaphores s)(m := f (semaphores s m))\<rparr>"

definition queue_upd :: "addr \<Rightarrow> (OsQueue \<Rightarrow> OsQueue) \<Rightarrow> kernel \<Rightarrow> kernel" where
  "queue_upd q f s = s\<lparr>queues := (queues s)(q := f (queues s q))\<rparr>"

definition event_upd :: "addr \<Rightarrow> (OsEvent \<Rightarrow> OsEvent) \<Rightarrow> kernel \<Rightarrow> kernel" where
  "event_upd e f s = s\<lparr>events := (events s)(e := f (events s e))\<rparr>"

definition timer_upd :: "addr \<Rightarrow> (OsTimer \<Rightarrow> OsTimer) \<Rightarrow> kernel \<Rightarrow> kernel" where
  "timer_upd t f s = s\<lparr>timers := (timers s)(t := f (timers s t))\<rparr>"

text \<open>The task leaves its kernel call at this point, to go on with \<open>k\<close> later.\<close>

definition save :: "addr \<Rightarrow> kont \<Rightarrow> kernel \<Rightarrow> kernel" where
  "save t k s = s\<lparr>cont := (cont s)(t := Some k)\<rparr>"

abbreviation set_result :: "addr \<Rightarrow> u8 \<Rightarrow> kernel \<Rightarrow> kernel" where
  "set_result t v \<equiv> task_upd t (result_update (\<lambda>_. v))"

abbreviation set_tnext :: "addr \<Rightarrow> addr option \<Rightarrow> kernel \<Rightarrow> kernel" where
  "set_tnext t v \<equiv> task_upd t (tnext_update (\<lambda>_. v))"

abbreviation set_waitList :: "addr \<Rightarrow> head option \<Rightarrow> kernel \<Rightarrow> kernel" where
  "set_waitList t v \<equiv> task_upd t (waitList_update (\<lambda>_. v))"

abbreviation set_timerNext :: "addr \<Rightarrow> addr option \<Rightarrow> kernel \<Rightarrow> kernel" where
  "set_timerNext t v \<equiv> task_upd t (timerNext_update (\<lambda>_. v))"

abbreviation set_wake :: "addr \<Rightarrow> u16 \<Rightarrow> kernel \<Rightarrow> kernel" where
  "set_wake t v \<equiv> task_upd t (wake_update (\<lambda>_. v))"

abbreviation set_wait :: "addr \<Rightarrow> u16 \<Rightarrow> kernel \<Rightarrow> kernel" where
  "set_wait t v \<equiv> task_upd t (wait_update (\<lambda>_. v))"

abbreviation set_state :: "addr \<Rightarrow> u8 \<Rightarrow> kernel \<Rightarrow> kernel" where
  "set_state t v \<equiv> task_upd t (state_update (\<lambda>_. v))"

abbreviation set_priority :: "addr \<Rightarrow> u8 \<Rightarrow> kernel \<Rightarrow> kernel" where
  "set_priority t v \<equiv> task_upd t (priority_update (\<lambda>_. v))"

abbreviation set_basePriority :: "addr \<Rightarrow> u8 \<Rightarrow> kernel \<Rightarrow> kernel" where
  "set_basePriority t v \<equiv> task_upd t (basePriority_update (\<lambda>_. v))"

abbreviation set_tmutexes :: "addr \<Rightarrow> addr option \<Rightarrow> kernel \<Rightarrow> kernel" where
  "set_tmutexes t v \<equiv> task_upd t (tmutexes_update (\<lambda>_. v))"

abbreviation set_owner :: "addr \<Rightarrow> addr option \<Rightarrow> kernel \<Rightarrow> kernel" where
  "set_owner m v \<equiv> mutex_upd m (owner_update (\<lambda>_. v))"

abbreviation set_nextOwned :: "addr \<Rightarrow> addr option \<Rightarrow> kernel \<Rightarrow> kernel" where
  "set_nextOwned m v \<equiv> mutex_upd m (nextOwned_update (\<lambda>_. v))"

lemma task_upd_simps [simp]:
  "tasks (task_upd t f s) = (tasks s)(t := f (tasks s t))"
  "mutexes (task_upd t f s) = mutexes s"
  "semaphores (task_upd t f s) = semaphores s"
  "queues (task_upd t f s) = queues s"
  "events (task_upd t f s) = events s"
  "timers (task_upd t f s) = timers s"
  "pools (task_upd t f s) = pools s"
  "ram (task_upd t f s) = ram s"
  "osIdleTask (task_upd t f s) = osIdleTask s"
  "osCurrentTask (task_upd t f s) = osCurrentTask s"
  "osReadyList (task_upd t f s) = osReadyList s"
  "osTimerList (task_upd t f s) = osTimerList s"
  "osTicks (task_upd t f s) = osTicks s"
  "osAging (task_upd t f s) = osAging s"
  "osTimers (task_upd t f s) = osTimers s"
  "osDeadList (task_upd t f s) = osDeadList s"
  "osTaskReaper (task_upd t f s) = osTaskReaper s"
  "heap (task_upd t f s) = heap s"
  "cont (task_upd t f s) = cont s"
  by (simp_all add: task_upd_def)

lemma mutex_upd_simps [simp]:
  "tasks (mutex_upd t f s) = tasks s"
  "mutexes (mutex_upd t f s) = (mutexes s)(t := f (mutexes s t))"
  "semaphores (mutex_upd t f s) = semaphores s"
  "queues (mutex_upd t f s) = queues s"
  "events (mutex_upd t f s) = events s"
  "timers (mutex_upd t f s) = timers s"
  "pools (mutex_upd t f s) = pools s"
  "ram (mutex_upd t f s) = ram s"
  "osIdleTask (mutex_upd t f s) = osIdleTask s"
  "osCurrentTask (mutex_upd t f s) = osCurrentTask s"
  "osReadyList (mutex_upd t f s) = osReadyList s"
  "osTimerList (mutex_upd t f s) = osTimerList s"
  "osTicks (mutex_upd t f s) = osTicks s"
  "osAging (mutex_upd t f s) = osAging s"
  "osTimers (mutex_upd t f s) = osTimers s"
  "osDeadList (mutex_upd t f s) = osDeadList s"
  "osTaskReaper (mutex_upd t f s) = osTaskReaper s"
  "heap (mutex_upd t f s) = heap s"
  "cont (mutex_upd t f s) = cont s"
  by (simp_all add: mutex_upd_def)

lemma sem_upd_simps [simp]:
  "tasks (sem_upd t f s) = tasks s"
  "mutexes (sem_upd t f s) = mutexes s"
  "semaphores (sem_upd t f s) = (semaphores s)(t := f (semaphores s t))"
  "queues (sem_upd t f s) = queues s"
  "events (sem_upd t f s) = events s"
  "timers (sem_upd t f s) = timers s"
  "pools (sem_upd t f s) = pools s"
  "ram (sem_upd t f s) = ram s"
  "osIdleTask (sem_upd t f s) = osIdleTask s"
  "osCurrentTask (sem_upd t f s) = osCurrentTask s"
  "osReadyList (sem_upd t f s) = osReadyList s"
  "osTimerList (sem_upd t f s) = osTimerList s"
  "osTicks (sem_upd t f s) = osTicks s"
  "osAging (sem_upd t f s) = osAging s"
  "osTimers (sem_upd t f s) = osTimers s"
  "osDeadList (sem_upd t f s) = osDeadList s"
  "osTaskReaper (sem_upd t f s) = osTaskReaper s"
  "heap (sem_upd t f s) = heap s"
  "cont (sem_upd t f s) = cont s"
  by (simp_all add: sem_upd_def)

lemma queue_upd_simps [simp]:
  "tasks (queue_upd t f s) = tasks s"
  "mutexes (queue_upd t f s) = mutexes s"
  "semaphores (queue_upd t f s) = semaphores s"
  "queues (queue_upd t f s) = (queues s)(t := f (queues s t))"
  "events (queue_upd t f s) = events s"
  "timers (queue_upd t f s) = timers s"
  "pools (queue_upd t f s) = pools s"
  "ram (queue_upd t f s) = ram s"
  "osIdleTask (queue_upd t f s) = osIdleTask s"
  "osCurrentTask (queue_upd t f s) = osCurrentTask s"
  "osReadyList (queue_upd t f s) = osReadyList s"
  "osTimerList (queue_upd t f s) = osTimerList s"
  "osTicks (queue_upd t f s) = osTicks s"
  "osAging (queue_upd t f s) = osAging s"
  "osTimers (queue_upd t f s) = osTimers s"
  "osDeadList (queue_upd t f s) = osDeadList s"
  "osTaskReaper (queue_upd t f s) = osTaskReaper s"
  "heap (queue_upd t f s) = heap s"
  "cont (queue_upd t f s) = cont s"
  by (simp_all add: queue_upd_def)

lemma event_upd_simps [simp]:
  "tasks (event_upd t f s) = tasks s"
  "mutexes (event_upd t f s) = mutexes s"
  "semaphores (event_upd t f s) = semaphores s"
  "queues (event_upd t f s) = queues s"
  "events (event_upd t f s) = (events s)(t := f (events s t))"
  "timers (event_upd t f s) = timers s"
  "pools (event_upd t f s) = pools s"
  "ram (event_upd t f s) = ram s"
  "osIdleTask (event_upd t f s) = osIdleTask s"
  "osCurrentTask (event_upd t f s) = osCurrentTask s"
  "osReadyList (event_upd t f s) = osReadyList s"
  "osTimerList (event_upd t f s) = osTimerList s"
  "osTicks (event_upd t f s) = osTicks s"
  "osAging (event_upd t f s) = osAging s"
  "osTimers (event_upd t f s) = osTimers s"
  "osDeadList (event_upd t f s) = osDeadList s"
  "osTaskReaper (event_upd t f s) = osTaskReaper s"
  "heap (event_upd t f s) = heap s"
  "cont (event_upd t f s) = cont s"
  by (simp_all add: event_upd_def)

lemma timer_upd_simps [simp]:
  "tasks (timer_upd t f s) = tasks s"
  "mutexes (timer_upd t f s) = mutexes s"
  "semaphores (timer_upd t f s) = semaphores s"
  "queues (timer_upd t f s) = queues s"
  "events (timer_upd t f s) = events s"
  "timers (timer_upd t f s) = (timers s)(t := f (timers s t))"
  "pools (timer_upd t f s) = pools s"
  "ram (timer_upd t f s) = ram s"
  "osIdleTask (timer_upd t f s) = osIdleTask s"
  "osCurrentTask (timer_upd t f s) = osCurrentTask s"
  "osReadyList (timer_upd t f s) = osReadyList s"
  "osTimerList (timer_upd t f s) = osTimerList s"
  "osTicks (timer_upd t f s) = osTicks s"
  "osAging (timer_upd t f s) = osAging s"
  "osTimers (timer_upd t f s) = osTimers s"
  "osDeadList (timer_upd t f s) = osDeadList s"
  "osTaskReaper (timer_upd t f s) = osTaskReaper s"
  "heap (timer_upd t f s) = heap s"
  "cont (timer_upd t f s) = cont s"
  by (simp_all add: timer_upd_def)

lemma save_simps [simp]:
  "tasks (save t k s) = tasks s"
  "mutexes (save t k s) = mutexes s"
  "semaphores (save t k s) = semaphores s"
  "queues (save t k s) = queues s"
  "events (save t k s) = events s"
  "timers (save t k s) = timers s"
  "pools (save t k s) = pools s"
  "ram (save t k s) = ram s"
  "osIdleTask (save t k s) = osIdleTask s"
  "osCurrentTask (save t k s) = osCurrentTask s"
  "osReadyList (save t k s) = osReadyList s"
  "osTimerList (save t k s) = osTimerList s"
  "osTicks (save t k s) = osTicks s"
  "osAging (save t k s) = osAging s"
  "osTimers (save t k s) = osTimers s"
  "osDeadList (save t k s) = osDeadList s"
  "osTaskReaper (save t k s) = osTaskReaper s"
  "heap (save t k s) = heap s"
  "cont (save t k s) = (cont s)(t := Some k)"
  by (simp_all add: save_def)

lemma same_assignment [simp]:
  "priority (tasks s t) = v \<Longrightarrow> set_priority t v s = s"
  "waitList (tasks s t) = w \<Longrightarrow> set_waitList t w s = s"
  "state (tasks s t) = x \<Longrightarrow> set_state t x s = s"
  by (auto simp: task_upd_def)

end
