(* ===== verification/Task_Lists.thy ===== *)
theory Task_Lists
  imports Kernel_State
begin

text \<open>
  The lists of tasks of \<^verbatim>\<open>system/scheduler.c\<close>: the lists ordered by priority (the ready
  list and the list of tasks waiting for an object), which are linked by \<open>next\<close>, and the
  list of tasks with a timeout, which is ordered by the time left and linked by
  \<open>timerNext\<close>. Both are walked along and changed in place, through pointers to pointers.
  The lemmas say what the operations do to the list of tasks the pointers represent
  (\<open>lists\<close>, \<open>timer_list\<close>) and that they touch nothing but the links.
\<close>

section \<open>Cells\<close>

fun rd :: "kernel \<Rightarrow> cell \<Rightarrow> addr option" where
  "rd s (Head ReadyHead) = osReadyList s"
| "rd s (Head (MutexHead m)) = m_waiters (mutexes s m)"
| "rd s (Head (SemHead m)) = s_waiters (semaphores s m)"
| "rd s (Head (QueueHead q)) = q_waiters (queues s q)"
| "rd s (Head (EventHead e)) = e_waiters (events s e)"
| "rd s (Head DeadHead) = osDeadList s"
| "rd s (Next t) = tnext (tasks s t)"

fun wr :: "cell \<Rightarrow> addr option \<Rightarrow> kernel \<Rightarrow> kernel" where
  "wr (Head ReadyHead) v s = s\<lparr>osReadyList := v\<rparr>"
| "wr (Head (MutexHead m)) v s = mutex_upd m (m_waiters_update (\<lambda>_. v)) s"
| "wr (Head (SemHead m)) v s = sem_upd m (s_waiters_update (\<lambda>_. v)) s"
| "wr (Head (QueueHead q)) v s = queue_upd q (q_waiters_update (\<lambda>_. v)) s"
| "wr (Head (EventHead e)) v s = event_upd e (e_waiters_update (\<lambda>_. v)) s"
| "wr (Head DeadHead) v s = s\<lparr>osDeadList := v\<rparr>"
| "wr (Next t) v s = set_tnext t v s"

datatype tcell = TimerHead | TimerNext addr

fun trd :: "kernel \<Rightarrow> tcell \<Rightarrow> addr option" where
  "trd s TimerHead = osTimerList s"
| "trd s (TimerNext t) = timerNext (tasks s t)"

fun twr :: "tcell \<Rightarrow> addr option \<Rightarrow> kernel \<Rightarrow> kernel" where
  "twr TimerHead v s = s\<lparr>osTimerList := v\<rparr>"
| "twr (TimerNext t) v s = set_timerNext t v s"

lemma rd_wr: "rd (wr c v s) = (rd s)(c := v)"
proof
  fix d
  show "rd (wr c v s) d = ((rd s)(c := v)) d"
    by (cases "(s, c)" rule: rd.cases; cases "(s, d)" rule: rd.cases) auto
qed

lemma trd_twr: "trd (twr c v s) = (trd s)(c := v)"
proof
  fix d
  show "trd (twr c v s) d = ((trd s)(c := v)) d"
    by (cases c; cases d) auto
qed

interpretation tl: linked_cells rd wr Next
  by unfold_locales (simp_all add: rd_wr)

interpretation timers: linked_cells trd twr TimerNext
  by unfold_locales (simp_all add: trd_twr)

text \<open>
  The mutexes owned by a task make a list as well, from \<open>mutexes\<close> of the task along
  \<open>nextOwned\<close> of the mutexes.
\<close>

datatype ocell = OwnedBy addr | NextOwned addr

fun ord :: "kernel \<Rightarrow> ocell \<Rightarrow> addr option" where
  "ord s (OwnedBy t) = tmutexes (tasks s t)"
| "ord s (NextOwned m) = nextOwned (mutexes s m)"

fun owr :: "ocell \<Rightarrow> addr option \<Rightarrow> kernel \<Rightarrow> kernel" where
  "owr (OwnedBy t) v s = set_tmutexes t v s"
| "owr (NextOwned m) v s = set_nextOwned m v s"

lemma ord_owr: "ord (owr c v s) = (ord s)(c := v)"
proof
  fix d
  show "ord (owr c v s) d = ((ord s)(c := v)) d"
    by (cases c; cases d) auto
qed

interpretation owned: linked_cells ord owr NextOwned
  by unfold_locales (simp_all add: ord_owr)

section \<open>Operations\<close>

definition osListInsert :: "head \<Rightarrow> addr \<Rightarrow> u8 \<Rightarrow> kernel \<Rightarrow> kernel option" where
  "osListInsert list task key s = do {
     (list, it) \<leftarrow> walk (rd s) Next (\<lambda>it. key \<le> priority (tasks s it)) (Head list);
     let s = set_tnext task it s;
     Some (wr list (Some task) s)
   }"

definition osListRemove :: "head \<Rightarrow> addr \<Rightarrow> kernel \<Rightarrow> kernel option" where
  "osListRemove list task s = do {
     (list, it) \<leftarrow> walk (rd s) Next (\<lambda>it. it \<noteq> task) (Head list);
     case it of
       None \<Rightarrow> Some s
     | Some _ \<Rightarrow> Some (wr list (tnext (tasks s task)) s)
   }"

definition osTimerListInsert :: "addr \<Rightarrow> u16 \<Rightarrow> kernel \<Rightarrow> kernel option" where
  "osTimerListInsert task timeout s = do {
     (list, it) \<leftarrow> walk (trd s) TimerNext (\<lambda>it. wake (tasks s it) - osTicks s \<le> timeout) TimerHead;
     let s = set_wake task (osTicks s + timeout) s;
     let s = set_timerNext task it s;
     let s = set_state task (state (tasks s task) OR OS_TASK_TIMED) s;
     Some (twr list (Some task) s)
   }"

definition osTimerListRemove :: "addr \<Rightarrow> kernel \<Rightarrow> kernel option" where
  "osTimerListRemove task s = do {
     (list, it) \<leftarrow> walk (trd s) TimerNext (\<lambda>it. it \<noteq> task) TimerHead;
     case it of
       None \<Rightarrow> Some s
     | Some _ \<Rightarrow> Some (twr list (timerNext (tasks s task)) s)
   }"

section \<open>The lists the pointers represent\<close>

definition lists :: "(head \<Rightarrow> addr list) \<Rightarrow> kernel \<Rightarrow> bool" where
  "lists L s \<longleftrightarrow>
     (\<forall>h. chain (rd s) Next (Head h) (L h)) \<and>
     (\<forall>h h' t. t \<in> set (L h) \<longrightarrow> t \<in> set (L h') \<longrightarrow> h = h')"

definition timer_list :: "addr list \<Rightarrow> kernel \<Rightarrow> bool" where
  "timer_list TL s \<longleftrightarrow> chain (trd s) TimerNext TimerHead TL"

text \<open>Where \<open>osListInsert\<close> puts a task: behind the last one whose priority is not lower.\<close>

definition ins :: "(addr \<Rightarrow> u8) \<Rightarrow> u8 \<Rightarrow> addr \<Rightarrow> addr list \<Rightarrow> addr list" where
  "ins p key t xs = takeWhile (\<lambda>x. key \<le> p x) xs @ t # dropWhile (\<lambda>x. key \<le> p x) xs"

definition tins :: "(addr \<Rightarrow> u16) \<Rightarrow> u16 \<Rightarrow> addr \<Rightarrow> addr list \<Rightarrow> addr list" where
  "tins l timeout t xs = takeWhile (\<lambda>x. l x \<le> timeout) xs @ t # dropWhile (\<lambda>x. l x \<le> timeout) xs"

text \<open>Nothing has changed but the links (and the heads) of the lists of tasks.\<close>

definition relinked :: "kernel \<Rightarrow> kernel \<Rightarrow> bool" where
  "relinked s s' \<longleftrightarrow>
     (\<forall>t. sp (tasks s' t) = sp (tasks s t) \<and>
       result (tasks s' t) = result (tasks s t) \<and>
       waitList (tasks s' t) = waitList (tasks s t) \<and>
       timerNext (tasks s' t) = timerNext (tasks s t) \<and>
       wake (tasks s' t) = wake (tasks s t) \<and>
       wait (tasks s' t) = wait (tasks s t) \<and>
       state (tasks s' t) = state (tasks s t) \<and>
       priority (tasks s' t) = priority (tasks s t) \<and>
       basePriority (tasks s' t) = basePriority (tasks s t) \<and>
       tmutexes (tasks s' t) = tmutexes (tasks s t) \<and>
       stack (tasks s' t) = stack (tasks s t) \<and>
       dynamic (tasks s' t) = dynamic (tasks s t) \<and>
       owner (mutexes s' t) = owner (mutexes s t) \<and>
       nextOwned (mutexes s' t) = nextOwned (mutexes s t) \<and>
       s_count (semaphores s' t) = s_count (semaphores s t) \<and>
       s_limit (semaphores s' t) = s_limit (semaphores s t) \<and>
       buffer (queues s' t) = buffer (queues s t) \<and>
       itemSize (queues s' t) = itemSize (queues s t) \<and>
       q_length (queues s' t) = q_length (queues s t) \<and>
       q_count (queues s' t) = q_count (queues s t) \<and>
       q_head (queues s' t) = q_head (queues s t) \<and>
       e_flags (events s' t) = e_flags (events s t)) \<and>
     timers s' = timers s \<and> pools s' = pools s \<and> ram s' = ram s \<and> osIdleTask s' = osIdleTask s \<and>
     osCurrentTask s' = osCurrentTask s \<and> osTimerList s' = osTimerList s \<and> osTicks s' = osTicks s \<and> osAging s' = osAging s \<and>
     osTimers s' = osTimers s \<and> osTaskReaper s' = osTaskReaper s \<and> heap s' = heap s \<and> cont s' = cont s"

lemma relinkedD:
  assumes "relinked s s'"
  shows
    "sp (tasks s' t) = sp (tasks s t)"
    and "result (tasks s' t) = result (tasks s t)"
    and "waitList (tasks s' t) = waitList (tasks s t)"
    and "timerNext (tasks s' t) = timerNext (tasks s t)"
    and "wake (tasks s' t) = wake (tasks s t)"
    and "wait (tasks s' t) = wait (tasks s t)"
    and "state (tasks s' t) = state (tasks s t)"
    and "priority (tasks s' t) = priority (tasks s t)"
    and "basePriority (tasks s' t) = basePriority (tasks s t)"
    and "tmutexes (tasks s' t) = tmutexes (tasks s t)"
    and "stack (tasks s' t) = stack (tasks s t)"
    and "dynamic (tasks s' t) = dynamic (tasks s t)"
    and "owner (mutexes s' t) = owner (mutexes s t)"
    and "nextOwned (mutexes s' t) = nextOwned (mutexes s t)"
    and "s_count (semaphores s' t) = s_count (semaphores s t)"
    and "s_limit (semaphores s' t) = s_limit (semaphores s t)"
    and "buffer (queues s' t) = buffer (queues s t)"
    and "itemSize (queues s' t) = itemSize (queues s t)"
    and "q_length (queues s' t) = q_length (queues s t)"
    and "q_count (queues s' t) = q_count (queues s t)"
    and "q_head (queues s' t) = q_head (queues s t)"
    and "e_flags (events s' t) = e_flags (events s t)"
    and "timers s' = timers s"
    and "pools s' = pools s"
    and "ram s' = ram s"
    and "osIdleTask s' = osIdleTask s"
    and "osCurrentTask s' = osCurrentTask s"
    and "osTimerList s' = osTimerList s"
    and "osTicks s' = osTicks s"
    and "osAging s' = osAging s"
    and "osTimers s' = osTimers s"
    and "osTaskReaper s' = osTaskReaper s"
    and "heap s' = heap s"
    and "cont s' = cont s"
  using assms by (auto simp: relinked_def)

text \<open>Nothing has changed but the links (and the head) of the list of timeouts.\<close>

definition timer_relinked :: "kernel \<Rightarrow> kernel \<Rightarrow> bool" where
  "timer_relinked s s' \<longleftrightarrow>
     (\<forall>t. sp (tasks s' t) = sp (tasks s t) \<and>
       result (tasks s' t) = result (tasks s t) \<and>
       tnext (tasks s' t) = tnext (tasks s t) \<and>
       waitList (tasks s' t) = waitList (tasks s t) \<and>
       wake (tasks s' t) = wake (tasks s t) \<and>
       wait (tasks s' t) = wait (tasks s t) \<and>
       state (tasks s' t) = state (tasks s t) \<and>
       priority (tasks s' t) = priority (tasks s t) \<and>
       basePriority (tasks s' t) = basePriority (tasks s t) \<and>
       tmutexes (tasks s' t) = tmutexes (tasks s t) \<and>
       stack (tasks s' t) = stack (tasks s t) \<and>
       dynamic (tasks s' t) = dynamic (tasks s t)) \<and>
     mutexes s' = mutexes s \<and> semaphores s' = semaphores s \<and> queues s' = queues s \<and> events s' = events s \<and>
     timers s' = timers s \<and> pools s' = pools s \<and> ram s' = ram s \<and> osIdleTask s' = osIdleTask s \<and>
     osCurrentTask s' = osCurrentTask s \<and> osReadyList s' = osReadyList s \<and> osTicks s' = osTicks s \<and> osAging s' = osAging s \<and>
     osTimers s' = osTimers s \<and> osDeadList s' = osDeadList s \<and> osTaskReaper s' = osTaskReaper s \<and> heap s' = heap s \<and> cont s' = cont s"

lemma timer_relinkedD:
  assumes "timer_relinked s s'"
  shows
    "sp (tasks s' t) = sp (tasks s t)"
    and "result (tasks s' t) = result (tasks s t)"
    and "tnext (tasks s' t) = tnext (tasks s t)"
    and "waitList (tasks s' t) = waitList (tasks s t)"
    and "wake (tasks s' t) = wake (tasks s t)"
    and "wait (tasks s' t) = wait (tasks s t)"
    and "state (tasks s' t) = state (tasks s t)"
    and "priority (tasks s' t) = priority (tasks s t)"
    and "basePriority (tasks s' t) = basePriority (tasks s t)"
    and "tmutexes (tasks s' t) = tmutexes (tasks s t)"
    and "stack (tasks s' t) = stack (tasks s t)"
    and "dynamic (tasks s' t) = dynamic (tasks s t)"
    and "mutexes s' = mutexes s"
    and "semaphores s' = semaphores s"
    and "queues s' = queues s"
    and "events s' = events s"
    and "timers s' = timers s"
    and "pools s' = pools s"
    and "ram s' = ram s"
    and "osIdleTask s' = osIdleTask s"
    and "osCurrentTask s' = osCurrentTask s"
    and "osReadyList s' = osReadyList s"
    and "osTicks s' = osTicks s"
    and "osAging s' = osAging s"
    and "osTimers s' = osTimers s"
    and "osDeadList s' = osDeadList s"
    and "osTaskReaper s' = osTaskReaper s"
    and "heap s' = heap s"
    and "cont s' = cont s"
  using assms by (auto simp: timer_relinked_def)

lemma relinked_refl [simp]: "relinked s s"
  by (simp add: relinked_def)

lemma relinked_trans: "relinked s s' \<Longrightarrow> relinked s' s'' \<Longrightarrow> relinked s s''"
  by (simp add: relinked_def)

lemma relinked_wr: "relinked s (wr c v s)"
  by (cases "(c, v, s)" rule: wr.cases) (simp_all add: relinked_def)

lemma relinked_set_tnext: "relinked s (set_tnext t v s)"
  using relinked_wr [of s "Next t" v] by simp

lemma timer_relinked_refl [simp]: "timer_relinked s s"
  by (simp add: timer_relinked_def)

lemma timer_relinked_twr: "timer_relinked s (twr c v s)"
  by (cases c) (simp_all add: timer_relinked_def)

lemma timer_relinked_trans: "timer_relinked s s' \<Longrightarrow> timer_relinked s' s'' \<Longrightarrow> timer_relinked s s''"
  by (simp add: timer_relinked_def)

lemma rd_cong:
  assumes "\<And>t. tnext (tasks s' t) = tnext (tasks s t)"
    and "mutexes s' = mutexes s" and "semaphores s' = semaphores s" and "queues s' = queues s"
    and "events s' = events s" and "osReadyList s' = osReadyList s" and "osDeadList s' = osDeadList s"
  shows "rd s' = rd s"
proof
  fix c
  show "rd s' c = rd s c"
    using assms by (cases "(s, c)" rule: rd.cases) simp_all
qed

lemma trd_cong:
  assumes "\<And>t. timerNext (tasks s' t) = timerNext (tasks s t)" and "osTimerList s' = osTimerList s"
  shows "trd s' = trd s"
proof
  fix c
  show "trd s' c = trd s c"
    using assms by (cases c) simp_all
qed

lemma lists_cong: "rd s' = rd s \<Longrightarrow> lists L s' = lists L s"
  by (simp add: lists_def)

lemma lists_timer_relinked: "timer_relinked s s' \<Longrightarrow> lists L s' = lists L s"
  by (rule lists_cong, rule rd_cong) (simp_all add: timer_relinkedD)

lemma timer_list_relinked: "relinked s s' \<Longrightarrow> timer_list TL s' = timer_list TL s"
  using trd_cong [of s' s] by (simp add: timer_list_def relinkedD)

text \<open>Assignments to the other members of a task do not change its lists.\<close>

lemma rd_task_upd [simp]: "(\<And>k. tnext (f k) = tnext k) \<Longrightarrow> rd (task_upd t f s) = rd s"
  by (rule rd_cong) simp_all

lemma trd_task_upd [simp]: "(\<And>k. timerNext (f k) = timerNext k) \<Longrightarrow> trd (task_upd t f s) = trd s"
  by (rule trd_cong) simp_all

lemma lists_task_upd [simp]: "(\<And>k. tnext (f k) = tnext k) \<Longrightarrow> lists L (task_upd t f s) = lists L s"
  by (rule lists_cong) simp

lemma timer_list_task_upd [simp]:
  "(\<And>k. timerNext (f k) = timerNext k) \<Longrightarrow> timer_list TL (task_upd t f s) = timer_list TL s"
  by (simp add: timer_list_def)

lemma lists_distinct: "lists L s \<Longrightarrow> distinct (L h)"
  by (auto simp: lists_def dest: chain_distinct)

lemma lists_remove1 [simp]: "lists L s \<Longrightarrow> set (remove1 t (L h)) = set (L h) - {t}"
  by (simp add: lists_distinct)

lemma lists_head: "lists L s \<Longrightarrow> rd s (Head h) = first (L h)"
  by (auto simp: lists_def dest: chain_first)

lemma lists_ready: "lists L s \<Longrightarrow> osReadyList s = first (L ReadyHead)"
  using lists_head [of L s ReadyHead] by simp

lemma lists_apart: "lists L s \<Longrightarrow> t \<in> set (L h) \<Longrightarrow> t \<in> set (L h') \<Longrightarrow> h = h'"
  by (auto simp: lists_def)

section \<open>The operations on the lists they represent\<close>

lemma set_ins [simp]: "set (ins p key t xs) = insert t (set xs)"
  by (auto simp: ins_def dest: set_takeWhileD set_dropWhileD)
    (metis UnE set_append takeWhile_dropWhile_id)

lemma set_tins [simp]: "set (tins l n t xs) = insert t (set xs)"
  by (auto simp: tins_def dest: set_takeWhileD set_dropWhileD)
    (metis UnE set_append takeWhile_dropWhile_id)

lemma remove1_split:
  "x \<in> set xs \<Longrightarrow> takeWhile (\<lambda>y. y \<noteq> x) xs @ x # tl (dropWhile (\<lambda>y. y \<noteq> x) xs) = xs"
  "x \<in> set xs \<Longrightarrow> remove1 x xs = takeWhile (\<lambda>y. y \<noteq> x) xs @ tl (dropWhile (\<lambda>y. y \<noteq> x) xs)"
  by (induction xs) auto

lemma dropWhile_found: "x \<in> set xs \<Longrightarrow> first (dropWhile (\<lambda>y. y \<noteq> x) xs) = Some x"
  by (induction xs) auto

lemma dropWhile_not_found: "x \<notin> set xs \<Longrightarrow> dropWhile (\<lambda>y. y \<noteq> x) xs = []"
  by (induction xs) auto

lemma Head_not_Next [simp]: "Head h \<notin> range Next"
  by auto

lemma TimerHead_not_Next [simp]: "TimerHead \<notin> range TimerNext"
  by auto

lemma osListInsert_spec:
  assumes L: "lists L s" and t: "\<And>h. t \<notin> set (L h)"
  shows "returns (osListInsert h t key s)
    (\<lambda>s'. lists (L(h := ins (\<lambda>x. priority (tasks s x)) key t (L h))) s' \<and> relinked s s')"
proof -
  define stay where "stay = (\<lambda>it. key \<le> priority (tasks s it))"
  define pre post where "pre = takeWhile stay (L h)" and "post = dropWhile stay (L h)"
  define s1 where "s1 = wr (Next t) (first post) s"
  define s2 where "s2 = wr (cell_after Next (Head h) pre) (Some t) s1"
  have split: "pre @ post = L h" by (simp add: pre_def post_def)
  have ch: "chain (rd s) Next (Head g) (L g)" for g using L by (simp add: lists_def)
  have run: "osListInsert h t key s = Some s2"
    using walk_chain [OF ch, of stay h]
    by (simp add: osListInsert_def s2_def s1_def pre_def post_def stay_def)
  have "chain (rd s2) Next (Head g) ((L(h := pre @ t # post)) g)" for g
  proof (cases "g = h")
    case True
    then show ?thesis
      using tl.splice_in [of s "Head h" pre post t] ch [of h] t [of h] split
      by (simp add: s2_def s1_def)
  next
    case False
    have "chain (rd s1) Next (Head g) (L g)"
      unfolding s1_def using ch t by (intro tl.other_list) auto
    moreover have "set pre \<inter> set (L g) = {}"
      using L False split by (auto simp: lists_def) (metis Un_iff set_append)
    ultimately have "chain (rd s2) Next (Head g) (L g)"
      unfolding s2_def using False
      by (intro tl.other_list tl.cell_after_other) (auto simp: cell_after_def)
    with False show ?thesis by simp
  qed
  moreover have "L(h := pre @ t # post) = L(h := ins (\<lambda>x. priority (tasks s x)) key t (L h))"
    by (simp add: ins_def pre_def post_def stay_def)
  moreover have "g = g'" if "x \<in> set ((L(h := ins p key t (L h))) g)"
      "x \<in> set ((L(h := ins p key t (L h))) g')" for p x g g'
    using that L t by (auto simp: lists_def split: if_splits)
  ultimately have "lists (L(h := ins (\<lambda>x. priority (tasks s x)) key t (L h))) s2"
    unfolding lists_def by metis
  moreover have "relinked s s2"
    unfolding s2_def s1_def by (rule relinked_trans [OF relinked_wr relinked_wr])
  ultimately show ?thesis by (simp add: run)
qed

lemma osListRemove_spec:
  assumes L: "lists L s"
  shows "returns (osListRemove h t s) (\<lambda>s'. lists (L(h := remove1 t (L h))) s' \<and> relinked s s')"
proof -
  have ch: "chain (rd s) Next (Head g) (L g)" for g using L by (simp add: lists_def)
  note walk = walk_chain [OF ch, of "\<lambda>x. x \<noteq> t" h]
  show ?thesis
  proof (cases "t \<in> set (L h)")
    case False
    then have "osListRemove h t s = Some s"
      using walk by (simp add: osListRemove_def dropWhile_not_found)
    with False L show ?thesis by (simp add: remove1_idem)
  next
    case True
    define pre post where "pre = takeWhile (\<lambda>x. x \<noteq> t) (L h)"
      and "post = tl (dropWhile (\<lambda>x. x \<noteq> t) (L h))"
    define s2 where "s2 = wr (cell_after Next (Head h) pre) (rd s (Next t)) s"
    have split: "pre @ t # post = L h" "remove1 t (L h) = pre @ post"
      using remove1_split [OF True] by (simp_all add: pre_def post_def)
    have run: "osListRemove h t s = Some s2"
      using walk True by (simp add: osListRemove_def s2_def pre_def dropWhile_found)
    have "chain (rd s2) Next (Head g) ((L(h := pre @ post)) g)" for g
    proof (cases "g = h")
      case True
      then show ?thesis
        using tl.splice_out [of s "Head h" pre t post] ch [of h] split(1)
        by (simp add: s2_def del: rd.simps)
    next
      case False
      have "set pre \<inter> set (L g) = {}"
        using L False split(1) by (auto simp: lists_def) (metis Un_iff set_append)
      then have "chain (rd s2) Next (Head g) (L g)"
        unfolding s2_def using False ch
        by (intro tl.other_list tl.cell_after_other) (auto simp: cell_after_def)
      with False show ?thesis by simp
    qed
    moreover have "g = g'" if "x \<in> set ((L(h := remove1 t (L h))) g)"
        "x \<in> set ((L(h := remove1 t (L h))) g')" for x g g'
      using that L by (auto simp: lists_def split: if_splits dest: notin_set_remove1 set_remove1_subset [THEN subsetD])
    ultimately have "lists (L(h := remove1 t (L h))) s2"
      unfolding lists_def by (metis split(2))
    moreover have "relinked s s2"
      unfolding s2_def by (rule relinked_wr)
    ultimately show ?thesis by (simp add: run)
  qed
qed

lemma osTimerListInsert_spec:
  assumes T: "timer_list TL s" and t: "t \<notin> set TL"
  shows "returns (osTimerListInsert t n s)
    (\<lambda>s'. timer_list (tins (\<lambda>x. wake (tasks s x) - osTicks s) n t TL) s' \<and>
       timer_relinked (set_state t (state (tasks s t) OR OS_TASK_TIMED) (set_wake t (osTicks s + n) s)) s')"
proof -
  define stay where "stay = (\<lambda>x. wake (tasks s x) - osTicks s \<le> n)"
  define pre post where "pre = takeWhile stay TL" and "post = dropWhile stay TL"
  define s0 where "s0 = set_state t (state (tasks s t) OR OS_TASK_TIMED) (set_wake t (osTicks s + n) s)"
  define s2 where "s2 = twr (cell_after TimerNext TimerHead pre) (Some t) (twr (TimerNext t) (first post) s0)"
  have split: "pre @ post = TL" by (simp add: pre_def post_def)
  have ch: "chain (trd s) TimerNext TimerHead TL" using T by (simp add: timer_list_def)
  have eq: "set_state t (state (tasks s t) OR OS_TASK_TIMED) (set_timerNext t (first post) (set_wake t (osTicks s + n) s))
      = set_timerNext t (first post) s0"
    by (auto simp: s0_def task_upd_def fun_eq_iff intro!: kernel.equality OsTask.equality)
  have run: "osTimerListInsert t n s = Some s2"
    using walk_chain [OF ch, of stay] eq
    by (simp add: osTimerListInsert_def s2_def pre_def post_def stay_def)
  have "chain (trd s0) TimerNext TimerHead TL" using ch by (simp add: s0_def)
  then have "timer_list (pre @ t # post) s2"
    using timers.splice_in [of s0 TimerHead pre post t] t split
    by (simp add: s2_def timer_list_def)
  moreover have "timer_relinked s0 s2"
    unfolding s2_def by (rule timer_relinked_trans [OF timer_relinked_twr timer_relinked_twr])
  ultimately show ?thesis by (simp add: run s0_def tins_def pre_def post_def stay_def)
qed

lemma osTimerListRemove_spec:
  assumes T: "timer_list TL s"
  shows "returns (osTimerListRemove t s) (\<lambda>s'. timer_list (remove1 t TL) s' \<and> timer_relinked s s')"
proof -
  have ch: "chain (trd s) TimerNext TimerHead TL" using T by (simp add: timer_list_def)
  note walk = walk_chain [OF ch, of "\<lambda>x. x \<noteq> t"]
  show ?thesis
  proof (cases "t \<in> set TL")
    case False
    then have "osTimerListRemove t s = Some s"
      using walk by (simp add: osTimerListRemove_def dropWhile_not_found)
    with False T show ?thesis by (simp add: remove1_idem)
  next
    case True
    define pre post where "pre = takeWhile (\<lambda>x. x \<noteq> t) TL"
      and "post = tl (dropWhile (\<lambda>x. x \<noteq> t) TL)"
    define s2 where "s2 = twr (cell_after TimerNext TimerHead pre) (trd s (TimerNext t)) s"
    have split: "pre @ t # post = TL" "remove1 t TL = pre @ post"
      using remove1_split [OF True] by (simp_all add: pre_def post_def)
    have run: "osTimerListRemove t s = Some s2"
      using walk True by (simp add: osTimerListRemove_def s2_def pre_def dropWhile_found)
    have "timer_list (remove1 t TL) s2"
      using timers.splice_out [of s TimerHead pre t post] ch split
      by (simp add: s2_def timer_list_def del: trd.simps)
    moreover have "timer_relinked s s2"
      unfolding s2_def by (rule timer_relinked_twr)
    ultimately show ?thesis by (simp add: run)
  qed
qed

section \<open>Data and links\<close>

text \<open>
  Two states with the same data differ at most in the links and the heads of the lists of
  tasks and of the list of timeouts. What an operation does is stated as: the lists it
  leads to, and the data it leads to.
\<close>

definition data_eq :: "kernel \<Rightarrow> kernel \<Rightarrow> bool" where
  "data_eq s s' \<longleftrightarrow>
     (\<forall>t. sp (tasks s' t) = sp (tasks s t) \<and>
       result (tasks s' t) = result (tasks s t) \<and>
       waitList (tasks s' t) = waitList (tasks s t) \<and>
       wake (tasks s' t) = wake (tasks s t) \<and>
       wait (tasks s' t) = wait (tasks s t) \<and>
       state (tasks s' t) = state (tasks s t) \<and>
       priority (tasks s' t) = priority (tasks s t) \<and>
       basePriority (tasks s' t) = basePriority (tasks s t) \<and>
       tmutexes (tasks s' t) = tmutexes (tasks s t) \<and>
       stack (tasks s' t) = stack (tasks s t) \<and>
       dynamic (tasks s' t) = dynamic (tasks s t) \<and>
       owner (mutexes s' t) = owner (mutexes s t) \<and>
       nextOwned (mutexes s' t) = nextOwned (mutexes s t) \<and>
       s_count (semaphores s' t) = s_count (semaphores s t) \<and>
       s_limit (semaphores s' t) = s_limit (semaphores s t) \<and>
       buffer (queues s' t) = buffer (queues s t) \<and>
       itemSize (queues s' t) = itemSize (queues s t) \<and>
       q_length (queues s' t) = q_length (queues s t) \<and>
       q_count (queues s' t) = q_count (queues s t) \<and>
       q_head (queues s' t) = q_head (queues s t) \<and>
       e_flags (events s' t) = e_flags (events s t)) \<and>
     timers s' = timers s \<and> pools s' = pools s \<and> ram s' = ram s \<and> osIdleTask s' = osIdleTask s \<and>
     osCurrentTask s' = osCurrentTask s \<and> osTicks s' = osTicks s \<and> osAging s' = osAging s \<and> osTimers s' = osTimers s \<and>
     osTaskReaper s' = osTaskReaper s \<and> heap s' = heap s \<and> cont s' = cont s"

lemma data_eqD:
  assumes "data_eq s s'"
  shows
    "sp (tasks s' t) = sp (tasks s t)"
    and "result (tasks s' t) = result (tasks s t)"
    and "waitList (tasks s' t) = waitList (tasks s t)"
    and "wake (tasks s' t) = wake (tasks s t)"
    and "wait (tasks s' t) = wait (tasks s t)"
    and "state (tasks s' t) = state (tasks s t)"
    and "priority (tasks s' t) = priority (tasks s t)"
    and "basePriority (tasks s' t) = basePriority (tasks s t)"
    and "tmutexes (tasks s' t) = tmutexes (tasks s t)"
    and "stack (tasks s' t) = stack (tasks s t)"
    and "dynamic (tasks s' t) = dynamic (tasks s t)"
    and "owner (mutexes s' t) = owner (mutexes s t)"
    and "nextOwned (mutexes s' t) = nextOwned (mutexes s t)"
    and "s_count (semaphores s' t) = s_count (semaphores s t)"
    and "s_limit (semaphores s' t) = s_limit (semaphores s t)"
    and "buffer (queues s' t) = buffer (queues s t)"
    and "itemSize (queues s' t) = itemSize (queues s t)"
    and "q_length (queues s' t) = q_length (queues s t)"
    and "q_count (queues s' t) = q_count (queues s t)"
    and "q_head (queues s' t) = q_head (queues s t)"
    and "e_flags (events s' t) = e_flags (events s t)"
    and "timers s' = timers s"
    and "pools s' = pools s"
    and "ram s' = ram s"
    and "osIdleTask s' = osIdleTask s"
    and "osCurrentTask s' = osCurrentTask s"
    and "osTicks s' = osTicks s"
    and "osAging s' = osAging s"
    and "osTimers s' = osTimers s"
    and "osTaskReaper s' = osTaskReaper s"
    and "heap s' = heap s"
    and "cont s' = cont s"
  using assms by (auto simp: data_eq_def)

lemma data_eq_refl [simp]: "data_eq s s"
  by (simp add: data_eq_def)

lemma data_eq_trans: "data_eq s s' \<Longrightarrow> data_eq s' s'' \<Longrightarrow> data_eq s s''"
  by (simp add: data_eq_def)

lemma data_eq_sym: "data_eq s s' \<Longrightarrow> data_eq s' s"
  by (simp add: data_eq_def)

lemma relinked_data_eq: "relinked s s' \<Longrightarrow> data_eq s s'"
  by (simp add: data_eq_def relinkedD)

lemma timer_relinked_data_eq: "timer_relinked s s' \<Longrightarrow> data_eq s s'"
  by (simp add: data_eq_def timer_relinkedD)

lemma data_eq_sets [intro]:
  assumes "data_eq s s'"
  shows "data_eq (set_result t v1 s) (set_result t v1 s')"
    and "data_eq (set_waitList t v2 s) (set_waitList t v2 s')"
    and "data_eq (set_state t v3 s) (set_state t v3 s')"
    and "data_eq (set_priority t v4 s) (set_priority t v4 s')"
    and "data_eq (set_wake t v5 s) (set_wake t v5 s')"
    and "data_eq (set_wait t v6 s) (set_wait t v6 s')"
    and "data_eq (set_basePriority t v7 s) (set_basePriority t v7 s')"
    and "data_eq (set_tmutexes t v8 s) (set_tmutexes t v8 s')"
    and "data_eq (set_owner t v9 s) (set_owner t v9 s')"
    and "data_eq (set_nextOwned t v10 s) (set_nextOwned t v10 s')"
    and "data_eq (s\<lparr>osCurrentTask := c\<rparr>) (s'\<lparr>osCurrentTask := c\<rparr>)"
    and "data_eq (save t k s) (save t k s')"
  using assms by (simp_all add: data_eq_def)

lemma ord_cong:
  assumes "\<And>t. tmutexes (tasks s' t) = tmutexes (tasks s t)"
    and "\<And>m. nextOwned (mutexes s' m) = nextOwned (mutexes s m)"
  shows "ord s' = ord s"
proof
  fix c
  show "ord s' c = ord s c"
    using assms by (cases c) simp_all
qed

lemma ord_data_eq: "data_eq s s' \<Longrightarrow> ord s' = ord s"
  by (rule ord_cong) (simp_all add: data_eqD)

lemma ord_task_upd [simp]: "(\<And>k. tmutexes (f k) = tmutexes k) \<Longrightarrow> ord (task_upd t f s) = ord s"
  by (rule ord_cong) simp_all

text \<open>The two kinds of lists together.\<close>

definition repr :: "(head \<Rightarrow> addr list) \<Rightarrow> addr list \<Rightarrow> kernel \<Rightarrow> bool" where
  "repr L TL s \<longleftrightarrow> lists L s \<and> timer_list TL s"

lemma repr_task_upd [simp]:
  "(\<And>k. tnext (f k) = tnext k) \<Longrightarrow> (\<And>k. timerNext (f k) = timerNext k) \<Longrightarrow>
   repr L TL (task_upd t f s) = repr L TL s"
  by (simp add: repr_def)

lemma repr_cong: "rd s' = rd s \<Longrightarrow> trd s' = trd s \<Longrightarrow> repr L TL s' = repr L TL s"
  by (simp add: repr_def lists_def timer_list_def)

lemma repr_ready: "repr L TL s \<Longrightarrow> osReadyList s = first (L ReadyHead)"
  by (simp add: repr_def lists_ready)

lemma repr_insert:
  assumes "repr L TL s" and "\<And>h. t \<notin> set (L h)"
  shows "returns (osListInsert h t key s)
    (\<lambda>s'. repr (L(h := ins (\<lambda>x. priority (tasks s x)) key t (L h))) TL s' \<and> data_eq s s')"
  using osListInsert_spec [of L s t h key] assms
  by (auto simp: repr_def timer_list_relinked relinked_data_eq elim: returns_mono)

lemma repr_remove:
  assumes "repr L TL s"
  shows "returns (osListRemove h t s)
    (\<lambda>s'. repr (L(h := remove1 t (L h))) TL s' \<and> data_eq s s')"
  using osListRemove_spec [of L s h t] assms
  by (auto simp: repr_def timer_list_relinked relinked_data_eq elim: returns_mono)

lemma repr_timer_insert:
  assumes "repr L TL s" and "t \<notin> set TL"
  shows "returns (osTimerListInsert t n s)
    (\<lambda>s'. repr L (tins (\<lambda>x. wake (tasks s x) - osTicks s) n t TL) s' \<and>
       data_eq (set_state t (state (tasks s t) OR OS_TASK_TIMED) (set_wake t (osTicks s + n) s)) s')"
  using osTimerListInsert_spec [of TL s t n] assms
  by (auto simp: repr_def lists_timer_relinked timer_relinked_data_eq elim!: returns_mono)

lemma repr_timer_remove:
  assumes "repr L TL s"
  shows "returns (osTimerListRemove t s) (\<lambda>s'. repr L (remove1 t TL) s' \<and> data_eq s s')"
  using osTimerListRemove_spec [of TL s t] assms
  by (auto simp: repr_def lists_timer_relinked timer_relinked_data_eq elim!: returns_mono)

end
