(* ===== verification/Scheduler.thy ===== *)
theory Scheduler
  imports Task_Lists
begin

text \<open>
  The operations of \<^verbatim>\<open>system/scheduler.c\<close> but for the lists (theory \<open>Task_Lists\<close>) and the
  tick (theory \<open>Tick\<close>). A function that may give the processor away returns an
  \<open>outcome\<close>: \<open>Switched\<close> where \<open>osPortSwitch\<close> has been called, with the state in which
  the next task gets the processor. What the caller has still to do is saved by \<open>leave\<close>
  as the continuation of the task that has lost the processor.
\<close>

definition leave :: "addr \<Rightarrow> kont \<Rightarrow> (val \<Rightarrow> kernel \<Rightarrow> res) \<Rightarrow> res \<Rightarrow> res" where
  "leave task k rest m = do {
     (r, s) \<leftarrow> m;
     case r of
       Returned v \<Rightarrow> rest v s
     | Switched \<Rightarrow> Some (Switched, save task k s)
   }"

section \<open>Priorities\<close>

definition osRequeue :: "addr \<Rightarrow> kernel \<Rightarrow> kernel option" where
  "osRequeue task s =
     (let list = (if state (tasks s task) AND OS_TASK_STATE = OS_TASK_READY
                  then Some ReadyHead else waitList (tasks s task))
      in case list of
           None \<Rightarrow> Some s
         | Some list \<Rightarrow> do {
             s \<leftarrow> osListRemove list task s;
             osListInsert list task (priority (tasks s task)) s
           })"

partial_function (option) osInheritedPriority_loop :: "addr option \<Rightarrow> u8 \<Rightarrow> kernel \<Rightarrow> u8 option" where
  "osInheritedPriority_loop mutex prio s =
     (case mutex of
        None \<Rightarrow> Some prio
      | Some m \<Rightarrow>
          osInheritedPriority_loop (nextOwned (mutexes s m))
            (case m_waiters (mutexes s m) of
               None \<Rightarrow> prio
             | Some waiter \<Rightarrow>
                 if prio < priority (tasks s waiter) then priority (tasks s waiter) else prio)
            s)"

definition osInheritedPriority :: "addr \<Rightarrow> kernel \<Rightarrow> u8 option" where
  "osInheritedPriority task s =
     osInheritedPriority_loop (tmutexes (tasks s task)) (basePriority (tasks s task)) s"

partial_function (option) osPriorityRaise :: "addr \<Rightarrow> u8 \<Rightarrow> kernel \<Rightarrow> kernel option" where
  "osPriorityRaise task prio s =
     (if priority (tasks s task) < prio then
        Option.bind (osRequeue task (set_priority task prio s)) (\<lambda>s.
          if state (tasks s task) AND OS_TASK_MUTEX \<noteq> 0 then
            (case waitList (tasks s task) of
               Some (MutexHead m) \<Rightarrow>
                 (case owner (mutexes s m) of
                    Some task \<Rightarrow> osPriorityRaise task prio s
                  | None \<Rightarrow> None)
             | _ \<Rightarrow> None)
          else Some s)
      else Some s)"

definition osSettle :: "addr \<Rightarrow> kernel \<Rightarrow> kernel option" where
  "osSettle task s =
     (if priority (tasks s task) \<noteq> basePriority (tasks s task) then do {
        p \<leftarrow> osInheritedPriority task s;
        Some (set_priority task p s)
      } else Some s)"

section \<open>Switching tasks\<close>

text \<open>
  The stack check, the next task taken off the ready list, and the switch. The default
  \<open>osStackOverflowHook\<close> stops the processor. \<open>next->next\<close> is a null dereference if
  nobody is ready.
\<close>

definition osDispatch :: "kernel \<Rightarrow> kernel option" where
  "osDispatch s =
     (if ram s (stack (tasks s (osCurrentTask s))) \<noteq> OS_STACK_FILL then None
      else case osReadyList s of
        None \<Rightarrow> None
      | Some next \<Rightarrow>
          let s = s\<lparr>osReadyList := tnext (tasks s next)\<rparr>;
              s = set_state next OS_TASK_RUNNING s
          in Some (s\<lparr>osCurrentTask := next\<rparr>))"

definition osScheduleNeeded :: "u8 \<Rightarrow> kernel \<Rightarrow> bool" where
  "osScheduleNeeded yield s =
     (case osReadyList s of
        None \<Rightarrow> False
      | Some head \<Rightarrow> priority (tasks s (osCurrentTask s)) < priority (tasks s head) + yield)"

definition osSchedule :: "u8 \<Rightarrow> kernel \<Rightarrow> res" where
  "osSchedule yield s =
     (if osScheduleNeeded yield s then do {
        let task = osCurrentTask s;
        s \<leftarrow> osSettle task s;
        let s = set_state task OS_TASK_READY s;
        s \<leftarrow> osListInsert ReadyHead task (priority (tasks s task) + 1 - yield) s;
        s \<leftarrow> osDispatch s;
        Some (Switched, s)
      } else Some (Returned VVoid, s))"

section \<open>Waiting\<close>

definition osBlock :: "head option \<Rightarrow> u16 \<Rightarrow> kernel \<Rightarrow> res" where
  "osBlock list timeout s =
     (let task = osCurrentTask s in
      if task = osIdleTask s
      then Some (Returned (VBool False), set_state task OS_TASK_RUNNING s)
      else do {
        s \<leftarrow> osSettle task s;
        let s = set_state task (state (tasks s task) OR OS_TASK_BLOCKED) s;
        let s = set_waitList task list s;
        s \<leftarrow> (case list of
                None \<Rightarrow> Some s
              | Some list \<Rightarrow> osListInsert list task (priority (tasks s task)) s);
        s \<leftarrow> (if timeout \<noteq> OS_WAIT_FOREVER then osTimerListInsert task timeout s else Some s);
        s \<leftarrow> osDispatch s;
        Some (Switched, s)
      })"

definition osUnblock :: "addr \<Rightarrow> kernel \<Rightarrow> kernel option" where
  "osUnblock task s = do {
     s \<leftarrow> (case waitList (tasks s task) of
             None \<Rightarrow> Some s
           | Some list \<Rightarrow> do {
               s \<leftarrow> osListRemove list task s;
               Some (set_waitList task None s)
             });
     if state (tasks s task) AND OS_TASK_TIMED \<noteq> 0 then osTimerListRemove task s else Some s
   }"

definition osReady :: "addr \<Rightarrow> kernel \<Rightarrow> kernel option" where
  "osReady task s = do {
     let s = set_state task OS_TASK_READY s;
     osListInsert ReadyHead task (priority (tasks s task)) s
   }"

definition osWake :: "addr \<Rightarrow> u8 \<Rightarrow> kernel \<Rightarrow> kernel option" where
  "osWake task res s = do {
     let s = set_result task res s;
     s \<leftarrow> osUnblock task s;
     osReady task s
   }"

section \<open>Calls of the tasks\<close>

definition osTickCount :: "kernel \<Rightarrow> u16" where
  "osTickCount s = osTicks s"

definition osYield :: "kernel \<Rightarrow> res" where
  "osYield s = leave (osCurrentTask s) (KReturn VVoid) (\<lambda>_ s. Some (Returned VVoid, s)) (osSchedule 1 s)"

definition osDelay :: "u16 \<Rightarrow> kernel \<Rightarrow> res" where
  "osDelay ticks s =
     (if ticks \<noteq> 0
      then leave (osCurrentTask s) KDelay (\<lambda>_ s. Some (Returned VVoid, s)) (osBlock None ticks s)
      else leave (osCurrentTask s) (KReturn VVoid) (\<lambda>_ s. Some (Returned VVoid, s)) (osSchedule 1 s))"

text \<open>\<open>*previous\<close> is a variable of the caller: the new value comes first.\<close>

definition osDelayUntil :: "u16 \<Rightarrow> u16 \<Rightarrow> kernel \<Rightarrow> u16 \<times> res" where
  "osDelayUntil previous period s =
     (let wake = previous + period;
          left = wake - osTicks s
      in (wake,
          if left - 1 < period
          then leave (osCurrentTask s) KDelay (\<lambda>_ s. Some (Returned VVoid, s)) (osBlock None left s)
          else Some (Returned VVoid, s)))"

end
