(* ===== verification/Scheduler_Specs.thy ===== *)
theory Scheduler_Specs
  imports Scheduler
begin

text \<open>
  What the operations of the scheduler do, in terms of the lists of tasks (\<open>repr L TL\<close>) and
  of the data. Each lemma says that the operation returns (no null pointer, no endless
  loop) and gives the lists and the data it leaves behind.
\<close>

section \<open>Inherited priority\<close>

definition inherit :: "(addr \<Rightarrow> u8) \<Rightarrow> (head \<Rightarrow> addr list) \<Rightarrow> addr list \<Rightarrow> u8 \<Rightarrow> u8" where
  "inherit p L ms b =
     foldl (\<lambda>b m. case L (MutexHead m) of [] \<Rightarrow> b | w # _ \<Rightarrow> max b (p w)) b ms"

lemma inherit_simps [simp]:
  "inherit p L [] b = b"
  "inherit p L (m # ms) b =
     inherit p L ms (case L (MutexHead m) of [] \<Rightarrow> b | w # _ \<Rightarrow> max b (p w))"
  by (simp_all add: inherit_def)

lemma inherit_base: "b \<le> inherit p L ms b"
proof (induction ms arbitrary: b)
  case Nil
  then show ?case by simp
next
  case (Cons m ms)
  have "b \<le> (case L (MutexHead m) of [] \<Rightarrow> b | w # _ \<Rightarrow> max b (p w))"
    by (simp split: list.split)
  also have "\<dots> \<le> inherit p L (m # ms) b"
    using Cons.IH by simp
  finally show ?case .
qed

lemma inherit_waiter:
  "m \<in> set ms \<Longrightarrow> L (MutexHead m) = w # ws \<Longrightarrow> p w \<le> inherit p L ms b"
proof (induction ms arbitrary: b)
  case Nil
  then show ?case by simp
next
  case (Cons m' ms)
  show ?case
  proof (cases "m = m'")
    case True
    have "p w \<le> max b (p w)" by simp
    also have "\<dots> \<le> inherit p L ms (max b (p w))" by (rule inherit_base)
    finally show ?thesis using True Cons.prems(2) by simp
  next
    case False
    with Cons show ?thesis by simp
  qed
qed

lemma inherit_least:
  assumes "b \<le> q" and "\<And>m w ws. m \<in> set ms \<Longrightarrow> L (MutexHead m) = w # ws \<Longrightarrow> p w \<le> q"
  shows "inherit p L ms b \<le> q"
  using assms
proof (induction ms arbitrary: b)
  case Nil
  then show ?case by simp
next
  case (Cons m ms)
  have "(case L (MutexHead m) of [] \<Rightarrow> b | w # _ \<Rightarrow> max b (p w)) \<le> q"
    using Cons.prems(1) Cons.prems(2) [of m] by (simp split: list.split)
  then have "inherit p L ms (case L (MutexHead m) of [] \<Rightarrow> b | w # _ \<Rightarrow> max b (p w)) \<le> q"
    using Cons.prems(2) by (intro Cons.IH) auto
  then show ?case by simp
qed

lemma inherit_attained:
  "inherit p L ms b = b \<or>
   (\<exists>m \<in> set ms. \<exists>w ws. L (MutexHead m) = w # ws \<and> inherit p L ms b = p w)"
proof (induction ms arbitrary: b)
  case Nil
  then show ?case by simp
next
  case (Cons m ms)
  then show ?case
    by (cases "L (MutexHead m)") (auto simp: max_def split: if_splits)
qed

lemma inherit_cong:
  "(\<And>m. m \<in> set ms \<Longrightarrow> L' (MutexHead m) = L (MutexHead m)) \<Longrightarrow>
   (\<And>m w. m \<in> set ms \<Longrightarrow> w \<in> set (L (MutexHead m)) \<Longrightarrow> p' w = p w) \<Longrightarrow>
   inherit p' L' ms b = inherit p L ms b"
proof (induction ms arbitrary: b)
  case Nil
  then show ?case by simp
next
  case (Cons m ms)
  have "inherit p' L' ms b = inherit p L ms b" for b
    using Cons.prems(1) Cons.prems(2) by (intro Cons.IH) (simp, metis list.set_intros(2))
  moreover have "p' w = p w" if "w \<in> set (L (MutexHead m))" for w
    using Cons.prems(2) [of m w] that by simp
  ultimately show ?case
    using Cons.prems(1) by (cases "L (MutexHead m)") simp_all
qed

lemma osInheritedPriority_loop:
  assumes "repr L TL s"
  shows "chain (ord s) NextOwned c ms \<Longrightarrow>
    osInheritedPriority_loop (ord s c) b s = Some (inherit (\<lambda>x. priority (tasks s x)) L ms b)"
proof (induction ms arbitrary: c b)
  case Nil
  then show ?case by (subst osInheritedPriority_loop.simps) simp
next
  case (Cons m ms)
  have head: "m_waiters (mutexes s m) = first (L (MutexHead m))"
    using assms lists_head [of L s "MutexHead m"] by (simp add: repr_def)
  from Cons.prems have "ord s c = Some m" and ms: "chain (ord s) NextOwned (NextOwned m) ms"
    by simp_all
  then show ?case
    using Cons.IH [OF ms] head
    by (subst osInheritedPriority_loop.simps) (auto simp: max_def split: list.split)
qed

definition inherited :: "(head \<Rightarrow> addr list) \<Rightarrow> addr list \<Rightarrow> kernel \<Rightarrow> addr \<Rightarrow> u8" where
  "inherited L ms s t = inherit (\<lambda>x. priority (tasks s x)) L ms (basePriority (tasks s t))"

lemma osInheritedPriority_spec:
  assumes "repr L TL s" and "chain (ord s) NextOwned (OwnedBy t) ms"
  shows "osInheritedPriority t s = Some (inherited L ms s t)"
  using osInheritedPriority_loop [OF assms, of "basePriority (tasks s t)"]
  by (simp add: osInheritedPriority_def inherited_def)

definition settled :: "(head \<Rightarrow> addr list) \<Rightarrow> addr list \<Rightarrow> kernel \<Rightarrow> addr \<Rightarrow> u8" where
  "settled L ms s t =
     (if priority (tasks s t) \<noteq> basePriority (tasks s t) then inherited L ms s t
      else priority (tasks s t))"

lemma osSettle_spec:
  assumes "repr L TL s" and "chain (ord s) NextOwned (OwnedBy t) ms"
  shows "osSettle t s = Some (set_priority t (settled L ms s t) s)"
  by (simp add: osSettle_def settled_def osInheritedPriority_spec [OF assms])

section \<open>Moving tasks\<close>

lemma osRequeue_spec:
  assumes R: "repr L TL s"
    and l: "(if state (tasks s t) AND OS_TASK_STATE = OS_TASK_READY
             then Some ReadyHead else waitList (tasks s t)) = Some l"
    and only: "\<And>h. t \<in> set (L h) \<Longrightarrow> h = l"
  shows "returns (osRequeue t s)
    (\<lambda>s'. repr (L(l := ins (\<lambda>x. priority (tasks s x)) (priority (tasks s t)) t (remove1 t (L l)))) TL s' \<and>
       data_eq s s')"
proof -
  have *: "returns (osListInsert l t (priority (tasks s1 t)) s1)
     (\<lambda>s'. repr (L(l := ins (\<lambda>x. priority (tasks s x)) (priority (tasks s t)) t (remove1 t (L l)))) TL s' \<and>
       data_eq s s')"
    if s1: "repr (L(l := remove1 t (L l))) TL s1" "data_eq s s1" for s1
  proof -
    have "t \<notin> set ((L(l := remove1 t (L l))) h)" for h
      using only [of h] R by (auto simp: repr_def dest: lists_distinct)
    from repr_insert [OF s1(1) this, of l "priority (tasks s1 t)"] s1(2) show ?thesis
      by (auto simp: data_eqD fun_upd_same simp del: fun_upd_apply elim!: returns_mono
          intro: data_eq_trans)
  qed
  show ?thesis
    using repr_remove [OF R, of l t] l *
    by (auto simp: osRequeue_def Let_def elim!: returns_mono split: if_splits)
qed

lemma osRequeue_none:
  assumes "state (tasks s t) AND OS_TASK_STATE \<noteq> OS_TASK_READY" and "waitList (tasks s t) = None"
  shows "osRequeue t s = Some s"
  using assms by (simp add: osRequeue_def)

lemma osDispatch_spec:
  assumes R: "repr L TL s" and ready: "L ReadyHead = n # ns"
    and canary: "ram s (stack (tasks s (osCurrentTask s))) = OS_STACK_FILL"
  shows "returns (osDispatch s)
    (\<lambda>s'. repr (L(ReadyHead := ns)) TL s' \<and>
       data_eq ((set_state n OS_TASK_RUNNING s)\<lparr>osCurrentTask := n\<rparr>) s')"
proof -
  define s1 where "s1 = wr (Head ReadyHead) (rd s (Next n)) s"
  have head: "osReadyList s = Some n" using repr_ready [OF R] ready by simp
  have L1: "lists (L(ReadyHead := ns)) s1"
  proof -
    have "returns (osListRemove ReadyHead n s)
        (\<lambda>s'. lists (L(ReadyHead := remove1 n (L ReadyHead))) s' \<and> relinked s s')"
      using R by (intro osListRemove_spec) (simp add: repr_def)
    moreover have "osListRemove ReadyHead n s = Some s1"
      using head by (simp add: osListRemove_def s1_def) (subst walk.simps, simp)
    ultimately show ?thesis using ready by simp
  qed
  have run: "osDispatch s = Some ((set_state n OS_TASK_RUNNING s1)\<lparr>osCurrentTask := n\<rparr>)"
    using head canary by (simp add: osDispatch_def s1_def)
  have T1: "timer_list TL s1"
    using R timer_list_relinked [OF relinked_wr, of TL "Head ReadyHead" _ s] by (simp add: s1_def repr_def)
  have "repr (L(ReadyHead := ns)) TL ((set_state n OS_TASK_RUNNING s1)\<lparr>osCurrentTask := n\<rparr>)"
  proof -
    have eqs: "rd ((set_state n OS_TASK_RUNNING s1)\<lparr>osCurrentTask := n\<rparr>) = rd s1"
        "trd ((set_state n OS_TASK_RUNNING s1)\<lparr>osCurrentTask := n\<rparr>) = trd s1"
      by (rule rd_cong trd_cong; simp)+
    show ?thesis
      unfolding repr_cong [OF eqs] using L1 T1 by (simp add: repr_def)
  qed
  moreover have "data_eq ((set_state n OS_TASK_RUNNING s)\<lparr>osCurrentTask := n\<rparr>)
      ((set_state n OS_TASK_RUNNING s1)\<lparr>osCurrentTask := n\<rparr>)"
    by (simp add: data_eq_def s1_def)
  ultimately show ?thesis by (simp add: run)
qed

lemma osReady_spec:
  assumes R: "repr L TL s" and t: "\<And>h. t \<notin> set (L h)"
  shows "returns (osReady t s)
    (\<lambda>s'. repr (L(ReadyHead := ins (\<lambda>x. priority (tasks s x)) (priority (tasks s t)) t (L ReadyHead))) TL s' \<and>
       data_eq (set_state t OS_TASK_READY s) s')"
proof -
  have R': "repr L TL (set_state t OS_TASK_READY s)" using R by simp
  have p: "(\<lambda>x. priority (tasks (set_state t OS_TASK_READY s) x)) = (\<lambda>x. priority (tasks s x))"
    by auto
  show ?thesis
    using repr_insert [OF R' t, of ReadyHead "priority (tasks s t)"] p
    by (simp add: osReady_def)
qed

text \<open>A task that stops waiting: \<open>unwaited\<close> are the lists without it.\<close>

definition unwaited :: "kernel \<Rightarrow> addr \<Rightarrow> (head \<Rightarrow> addr list) \<Rightarrow> head \<Rightarrow> addr list" where
  "unwaited s t L = (case waitList (tasks s t) of None \<Rightarrow> L | Some h \<Rightarrow> L(h := remove1 t (L h)))"

definition untimed :: "kernel \<Rightarrow> addr \<Rightarrow> addr list \<Rightarrow> addr list" where
  "untimed s t TL = (if state (tasks s t) AND OS_TASK_TIMED \<noteq> 0 then remove1 t TL else TL)"

lemma osUnblock_spec:
  assumes R: "repr L TL s"
  shows "returns (osUnblock t s)
    (\<lambda>s'. repr (unwaited s t L) (untimed s t TL) s' \<and> data_eq (set_waitList t None s) s')"
proof -
  have timed: "returns (if state (tasks s1 t) AND OS_TASK_TIMED \<noteq> 0 then osTimerListRemove t s1 else Some s1)
      (\<lambda>s'. repr L1 (untimed s t TL) s' \<and> data_eq (set_waitList t None s) s')"
    if "repr L1 TL s1" "data_eq (set_waitList t None s) s1" for L1 s1
    using repr_timer_remove [OF that(1), of t] that
    by (auto simp: untimed_def data_eqD elim!: returns_mono intro: data_eq_trans)
  show ?thesis
  proof (cases "waitList (tasks s t)")
    case None
    then have "set_waitList t None s = s" by simp
    then show ?thesis
      using timed [of L s] R None by (simp add: osUnblock_def unwaited_def)
  next
    case (Some h)
    have "returns (osListRemove h t s) (\<lambda>s1. returns
        (if state (tasks (set_waitList t None s1) t) AND OS_TASK_TIMED \<noteq> 0
         then osTimerListRemove t (set_waitList t None s1) else Some (set_waitList t None s1))
        (\<lambda>s'. repr (unwaited s t L) (untimed s t TL) s' \<and> data_eq (set_waitList t None s) s'))"
      by (rule returns_mono [OF repr_remove [OF R]], rule timed)
        (auto simp: unwaited_def Some)
    then show ?thesis by (simp add: osUnblock_def Some)
  qed
qed

lemma not_in_unwaited:
  assumes "repr L TL s" and "\<And>h. t \<in> set (L h) \<Longrightarrow> waitList (tasks s t) = Some h"
  shows "t \<notin> set (unwaited s t L h)"
  using assms by (auto simp: unwaited_def repr_def dest: lists_distinct split: option.splits)

definition made_ready :: "kernel \<Rightarrow> addr \<Rightarrow> (head \<Rightarrow> addr list) \<Rightarrow> head \<Rightarrow> addr list" where
  "made_ready s t L =
     L(ReadyHead := ins (\<lambda>x. priority (tasks s x)) (priority (tasks s t)) t (L ReadyHead))"

lemma osWake_spec:
  assumes R: "repr L TL s" and only: "\<And>h. t \<in> set (L h) \<Longrightarrow> waitList (tasks s t) = Some h"
  shows "returns (osWake t r s)
    (\<lambda>s'. repr (made_ready s t (unwaited s t L)) (untimed s t TL) s' \<and>
       data_eq (set_state t OS_TASK_READY (set_waitList t None (set_result t r s))) s')"
proof -
  define s0 where "s0 = set_result t r s"
  have R0: "repr L TL s0" using R by (simp add: s0_def)
  have eqs: "unwaited s0 t L = unwaited s t L" "untimed s0 t TL = untimed s t TL"
    by (simp_all add: unwaited_def untimed_def s0_def)
  have "returns (osReady t s1)
      (\<lambda>s'. repr (made_ready s t (unwaited s t L)) (untimed s t TL) s' \<and>
       data_eq (set_state t OS_TASK_READY (set_waitList t None s0)) s')"
    if s1: "repr (unwaited s0 t L) (untimed s0 t TL) s1" "data_eq (set_waitList t None s0) s1" for s1
  proof -
    have "t \<notin> set (unwaited s0 t L h)" for h
      using not_in_unwaited [OF R only, of h] by (simp add: eqs)
    note ready = osReady_spec [OF s1(1) this]
    have p: "priority (tasks s1 x) = priority (tasks s x)" for x
      using data_eqD(7) [OF s1(2), of x] by (simp add: s0_def)
    show ?thesis
      using ready data_eq_sets(3) [OF s1(2)]
      by (auto simp: made_ready_def p eqs simp del: fun_upd_apply elim!: returns_mono
          intro: data_eq_trans)
  qed
  then show ?thesis
    using osUnblock_spec [OF R0, of t]
    by (auto simp: osWake_def s0_def [symmetric] elim!: returns_mono)
qed

section \<open>Giving the processor away\<close>

text \<open>The data of a task that has been preempted, or that waits, before the switch.\<close>

definition preempted :: "addr \<Rightarrow> u8 \<Rightarrow> kernel \<Rightarrow> kernel" where
  "preempted c p s = set_state c OS_TASK_READY (set_priority c p s)"

definition switched_to :: "addr \<Rightarrow> kernel \<Rightarrow> kernel" where
  "switched_to n s = (set_state n OS_TASK_RUNNING s)\<lparr>osCurrentTask := n\<rparr>"

definition waiting :: "addr \<Rightarrow> u8 \<Rightarrow> head option \<Rightarrow> kernel \<Rightarrow> kernel" where
  "waiting c p list s =
     set_waitList c list (set_state c (state (tasks s c) OR OS_TASK_BLOCKED) (set_priority c p s))"

definition waiting_until :: "addr \<Rightarrow> u16 \<Rightarrow> kernel \<Rightarrow> kernel" where
  "waiting_until c timeout s =
     (if timeout \<noteq> OS_WAIT_FOREVER
      then set_state c (state (tasks s c) OR OS_TASK_TIMED) (set_wake c (osTicks s + timeout) s)
      else s)"

definition waits_in :: "addr \<Rightarrow> head option \<Rightarrow> kernel \<Rightarrow> (head \<Rightarrow> addr list) \<Rightarrow> head \<Rightarrow> addr list" where
  "waits_in c list s L =
     (case list of
        None \<Rightarrow> L
      | Some l \<Rightarrow> L(l := ins (\<lambda>x. priority (tasks s x)) (priority (tasks s c)) c (L l)))"

definition times_out :: "addr \<Rightarrow> u16 \<Rightarrow> kernel \<Rightarrow> addr list \<Rightarrow> addr list" where
  "times_out c timeout s TL =
     (if timeout \<noteq> OS_WAIT_FOREVER then tins (\<lambda>x. wake (tasks s x) - osTicks s) timeout c TL else TL)"

lemma data_eq_switched_to: "data_eq s s' \<Longrightarrow> data_eq (switched_to n s) (switched_to n s')"
  by (auto simp: switched_to_def)

lemma osSchedule_idle: "\<not> osScheduleNeeded y s \<Longrightarrow> osSchedule y s = Some (Returned VVoid, s)"
  by (simp add: osSchedule_def)

lemma osSchedule_spec:
  assumes R: "repr L TL s" and ms: "chain (ord s) NextOwned (OwnedBy (osCurrentTask s)) ms"
    and canary: "ram s (stack (tasks s (osCurrentTask s))) = OS_STACK_FILL"
    and c: "\<And>h. osCurrentTask s \<notin> set (L h)" and needed: "osScheduleNeeded y s"
    and p: "p = settled L ms s (osCurrentTask s)" and s1: "s1 = preempted (osCurrentTask s) p s"
    and next_task: "ins (\<lambda>x. priority (tasks s1 x)) (p + 1 - y) (osCurrentTask s) (L ReadyHead) = n # ns"
  shows "returns (osSchedule y s)
    (\<lambda>(r, s'). r = Switched \<and> repr (L(ReadyHead := ns)) TL s' \<and> data_eq (switched_to n s1) s')"
proof -
  let ?c = "osCurrentTask s"
  have R1: "repr L TL s1" using R by (simp add: s1 preempted_def)
  have p1: "priority (tasks s1 ?c) = p" by (simp add: s1 preempted_def)
  have dispatch: "returns (osDispatch s2)
      (\<lambda>s'. repr (L(ReadyHead := ns)) TL s' \<and> data_eq (switched_to n s1) s')"
    if s2: "repr (L(ReadyHead := n # ns)) TL s2" "data_eq s1 s2" for s2
  proof -
    have "ram s2 (stack (tasks s2 (osCurrentTask s2))) = OS_STACK_FILL"
      using canary by (simp add: data_eqD [OF s2(2)] s1 preempted_def)
    from osDispatch_spec [OF s2(1) _ this] show ?thesis
      using data_eq_switched_to [OF s2(2), of n]
      by (auto simp: switched_to_def elim!: returns_mono intro: data_eq_trans)
  qed
  have "returns (osListInsert ReadyHead ?c (p + 1 - y) s1)
      (\<lambda>s2. returns (osDispatch s2)
        (\<lambda>s'. repr (L(ReadyHead := ns)) TL s' \<and> data_eq (switched_to n s1) s'))"
    using repr_insert [OF R1 c, of ReadyHead "p + 1 - y"] next_task dispatch
    by (auto elim: returns_mono)
  then show ?thesis
    using needed p1 by (simp add: osSchedule_def osSettle_spec [OF R ms] p s1 preempted_def Let_def)
qed

lemma osBlock_idle:
  "osCurrentTask s = osIdleTask s \<Longrightarrow>
   osBlock list timeout s = Some (Returned (VBool False), set_state (osIdleTask s) OS_TASK_RUNNING s)"
  by (simp add: osBlock_def)

lemma osBlock_spec:
  assumes R: "repr L TL s" and ms: "chain (ord s) NextOwned (OwnedBy (osCurrentTask s)) ms"
    and canary: "ram s (stack (tasks s (osCurrentTask s))) = OS_STACK_FILL"
    and c: "\<And>h. osCurrentTask s \<notin> set (L h)" "osCurrentTask s \<notin> set TL"
    and not_idle: "osCurrentTask s \<noteq> osIdleTask s"
    and p: "p = settled L ms s (osCurrentTask s)"
    and s1: "s1 = waiting (osCurrentTask s) p list s"
    and ready: "L ReadyHead = n # ns" "list \<noteq> Some ReadyHead"
  shows "returns (osBlock list timeout s)
    (\<lambda>(r, s'). r = Switched \<and>
       repr ((waits_in (osCurrentTask s) list s1 L)(ReadyHead := ns))
         (times_out (osCurrentTask s) timeout s TL) s' \<and>
       data_eq (switched_to n (waiting_until (osCurrentTask s) timeout s1)) s')"
proof -
  let ?c = "osCurrentTask s"
  define L1 where "L1 = waits_in ?c list s1 L"
  define s3 where "s3 = waiting_until ?c timeout s1"
  have R1: "repr L TL s1" using R by (simp add: s1 waiting_def)
  have L1: "L1 ReadyHead = n # ns" using ready by (auto simp: L1_def waits_in_def split: option.split)
  have insert: "returns (case list of None \<Rightarrow> Some s1
        | Some l \<Rightarrow> osListInsert l ?c (priority (tasks s1 ?c)) s1) (\<lambda>s2. repr L1 TL s2 \<and> data_eq s1 s2)"
    using R1 repr_insert [OF R1 c(1)] by (auto simp: L1_def waits_in_def split: option.split)
  have timed: "returns (if timeout \<noteq> OS_WAIT_FOREVER then osTimerListInsert ?c timeout s2 else Some s2)
      (\<lambda>s'. repr L1 (times_out ?c timeout s TL) s' \<and> data_eq s3 s')"
    if s2: "repr L1 TL s2" "data_eq s1 s2" for s2
  proof -
    have "wake (tasks s1 x) - osTicks s1 = wake (tasks s x) - osTicks s" for x
      by (simp add: s1 waiting_def)
    moreover have "data_eq (set_state ?c (state (tasks s2 ?c) OR OS_TASK_TIMED)
        (set_wake ?c (osTicks s2 + timeout) s2)) s'"
      if "data_eq (set_state ?c (state (tasks s1 ?c) OR OS_TASK_TIMED)
        (set_wake ?c (osTicks s1 + timeout) s1)) s'" for s'
      using that s2(2) by (simp add: data_eq_def)
    moreover have "data_eq (set_state ?c (state (tasks s1 ?c) OR OS_TASK_TIMED)
        (set_wake ?c (osTicks s1 + timeout) s1)) s'"
      if "data_eq (set_state ?c (state (tasks s2 ?c) OR OS_TASK_TIMED)
        (set_wake ?c (osTicks s2 + timeout) s2)) s'" for s'
      using that s2(2) by (simp add: data_eq_def)
    ultimately show ?thesis
      using repr_timer_insert [OF s2(1) c(2), of timeout] s2
      by (auto simp: times_out_def s3_def waiting_until_def data_eqD(6) [OF s2(2)]
          data_eqD(5) [OF s2(2)] data_eqD [OF s2(2)] elim!: returns_mono)
  qed
  have dispatch: "returns (osDispatch s4)
      (\<lambda>s'. repr (L1(ReadyHead := ns)) (times_out ?c timeout s TL) s' \<and> data_eq (switched_to n s3) s')"
    if s4: "repr L1 (times_out ?c timeout s TL) s4" "data_eq s3 s4" for s4
  proof -
    have "ram s4 (stack (tasks s4 (osCurrentTask s4))) = OS_STACK_FILL"
      using canary by (simp add: data_eqD [OF s4(2)] s3_def s1 waiting_until_def waiting_def)
    from osDispatch_spec [OF s4(1) L1 this] show ?thesis
      using data_eq_switched_to [OF s4(2), of n]
      by (auto simp: switched_to_def elim!: returns_mono intro: data_eq_trans)
  qed
  have "returns (case list of None \<Rightarrow> Some s1 | Some l \<Rightarrow> osListInsert l ?c (priority (tasks s1 ?c)) s1)
    (\<lambda>s2. returns (if timeout \<noteq> OS_WAIT_FOREVER then osTimerListInsert ?c timeout s2 else Some s2)
      (\<lambda>s4. returns (osDispatch s4)
        (\<lambda>s'. repr (L1(ReadyHead := ns)) (times_out ?c timeout s TL) s' \<and> data_eq (switched_to n s3) s')))"
    by (rule returns_mono [OF insert], rule returns_mono [OF timed], simp, simp, rule dispatch) simp_all
  then show ?thesis
    using not_idle
    by (simp add: osBlock_def osSettle_spec [OF R ms] p s1 waiting_def Let_def L1_def s3_def
        split del: if_split cong: option.case_cong)
qed

end
