(* ===== verification/Kernel_Inv.thy ===== *)
theory Kernel_Inv
  imports Scheduler_Specs
begin

text \<open>
  The invariant of the kernel. Its parts speak of the lists (\<open>L\<close>, \<open>TL\<close>), of the mutexes
  owned by each task (\<open>OL\<close>), of the tasks that exist (\<open>A\<close>) and of the data only, so an
  operation keeps it if the lists and the data it is specified to leave behind satisfy it.
\<close>

section \<open>The parts of the invariant\<close>

definition valid_states :: "u8 set" where
  "valid_states = {0x00, 0x01, 0x02, 0x12, 0x22, 0x32, 0x03, 0x04}"

text \<open>The lists a task is on are the ones its state and \<open>waitList\<close> tell.\<close>

definition task_placed :: "(head \<Rightarrow> addr list) \<Rightarrow> addr list \<Rightarrow> kernel \<Rightarrow> addr \<Rightarrow> bool" where
  "task_placed L TL s t \<longleftrightarrow>
     state (tasks s t) \<in> valid_states \<and>
     (t \<in> set (L ReadyHead) \<longleftrightarrow> state (tasks s t) = OS_TASK_READY) \<and>
     (\<forall>h. h \<noteq> ReadyHead \<longrightarrow> h \<noteq> DeadHead \<longrightarrow> (t \<in> set (L h) \<longleftrightarrow> waitList (tasks s t) = Some h)) \<and>
     waitList (tasks s t) \<noteq> Some ReadyHead \<and> waitList (tasks s t) \<noteq> Some DeadHead \<and>
     (waitList (tasks s t) \<noteq> None \<longrightarrow> state (tasks s t) AND OS_TASK_STATE = OS_TASK_BLOCKED) \<and>
     (t \<in> set TL \<longleftrightarrow> state (tasks s t) AND OS_TASK_TIMED \<noteq> 0) \<and>
     (state (tasks s t) AND OS_TASK_MUTEX \<noteq> 0 \<longleftrightarrow> (\<exists>m. waitList (tasks s t) = Some (MutexHead m))) \<and>
     (t \<in> set (L DeadHead) \<longrightarrow> state (tasks s t) = OS_TASK_DEAD)"

text \<open>\<open>X\<close> are tasks an operation is moving at the moment.\<close>

definition placed :: "addr set \<Rightarrow> (head \<Rightarrow> addr list) \<Rightarrow> addr list \<Rightarrow> addr set \<Rightarrow> kernel \<Rightarrow> bool" where
  "placed X L TL A s \<longleftrightarrow>
     (\<forall>h. distinct (L h) \<and> set (L h) \<subseteq> A) \<and> set TL \<subseteq> A \<and>
     (\<forall>t \<in> A - X. task_placed L TL s t)"

text \<open>The lists are ordered by priority, the timeouts by the time left.\<close>

definition by_priority :: "kernel \<Rightarrow> addr \<Rightarrow> addr \<Rightarrow> bool" where
  "by_priority s x y \<longleftrightarrow> priority (tasks s y) \<le> priority (tasks s x)"

lemma by_priority_abs:
  "by_priority s = (\<lambda>x y. priority (tasks s y) \<le> priority (tasks s x))"
  by (simp add: by_priority_def fun_eq_iff)

definition prio_sorted :: "(head \<Rightarrow> addr list) \<Rightarrow> kernel \<Rightarrow> bool" where
  "prio_sorted L s \<longleftrightarrow> (\<forall>h. h \<noteq> DeadHead \<longrightarrow> sorted_wrt (by_priority s) (L h))"

definition left :: "kernel \<Rightarrow> addr \<Rightarrow> u16" where
  "left s t = wake (tasks s t) - osTicks s"

definition by_time :: "kernel \<Rightarrow> addr \<Rightarrow> addr \<Rightarrow> bool" where
  "by_time s x y \<longleftrightarrow> left s x \<le> left s y"

definition timed_sorted :: "addr list \<Rightarrow> kernel \<Rightarrow> bool" where
  "timed_sorted TL s \<longleftrightarrow> distinct TL \<and> sorted_wrt (by_time s) TL"

definition not_due :: "addr list \<Rightarrow> kernel \<Rightarrow> bool" where
  "not_due TL s \<longleftrightarrow> (\<forall>t \<in> set TL. left s t \<noteq> 0)"

text \<open>
  A mutex is on the list of its owner and on no other; a mutex somebody waits for has an
  owner; a task that is gone owns nothing.
\<close>

definition owners ::
  "addr set \<Rightarrow> (head \<Rightarrow> addr list) \<Rightarrow> (addr \<Rightarrow> addr list) \<Rightarrow> addr set \<Rightarrow> kernel \<Rightarrow> bool" where
  "owners X L OL A s \<longleftrightarrow>
     (\<forall>t \<in> A. chain (ord s) NextOwned (OwnedBy t) (OL t)) \<and>
     (\<forall>t m. m \<in> set (OL t) \<longleftrightarrow> owner (mutexes s m) = Some t) \<and>
     (\<forall>m t. owner (mutexes s m) = Some t \<longrightarrow> t \<in> A) \<and>
     (\<forall>m. \<forall>t \<in> A - X. owner (mutexes s m) = Some t \<longrightarrow> state (tasks s t) \<noteq> OS_TASK_DEAD) \<and>
     (\<forall>m. L (MutexHead m) \<noteq> [] \<longrightarrow> owner (mutexes s m) \<noteq> None)"

text \<open>Nobody waits for a mutex owned by a task less important than itself.\<close>

definition no_inversion :: "(head \<Rightarrow> addr list) \<Rightarrow> kernel \<Rightarrow> bool" where
  "no_inversion L s \<longleftrightarrow>
     (\<forall>m t w. owner (mutexes s m) = Some t \<longrightarrow> w \<in> set (L (MutexHead m)) \<longrightarrow>
        priority (tasks s w) \<le> priority (tasks s t))"

definition bounded :: "addr set \<Rightarrow> kernel \<Rightarrow> bool" where
  "bounded A s \<longleftrightarrow>
     (\<forall>t \<in> A. basePriority (tasks s t) \<le> priority (tasks s t) \<and> priority (tasks s t) \<le> OS_PRIORITY_MAX)"

text \<open>The idle task is either running or ready, and nobody has run over the end of a stack.\<close>

definition idle_ok :: "addr set \<Rightarrow> addr set \<Rightarrow> kernel \<Rightarrow> bool" where
  "idle_ok X A s \<longleftrightarrow>
     osIdleTask s \<in> A \<and>
     (osIdleTask s \<notin> X \<longrightarrow> state (tasks s (osIdleTask s)) \<in> {OS_TASK_RUNNING, OS_TASK_READY})"

definition canaries :: "addr set \<Rightarrow> kernel \<Rightarrow> bool" where
  "canaries A s \<longleftrightarrow> (\<forall>t \<in> A. ram s (stack (tasks s t)) = OS_STACK_FILL)"

text \<open>
  \<open>data_inv\<close> is all of them but the pointers; \<open>running R\<close> says that \<open>R\<close> are the
  tasks in the state \<open>RUNNING\<close>, which is the current task and nobody else whenever the
  kernel is at rest.
\<close>

definition data_inv ::
  "addr set \<Rightarrow> (head \<Rightarrow> addr list) \<Rightarrow> addr list \<Rightarrow> (addr \<Rightarrow> addr list) \<Rightarrow> addr set \<Rightarrow> kernel \<Rightarrow> bool" where
  "data_inv X L TL OL A s \<longleftrightarrow>
     placed X L TL A s \<and> prio_sorted L s \<and> timed_sorted TL s \<and> owners X L OL A s \<and>
     no_inversion L s \<and> bounded A s \<and> idle_ok X A s \<and> canaries A s \<and> osCurrentTask s \<in> A"

definition running :: "addr set \<Rightarrow> addr set \<Rightarrow> kernel \<Rightarrow> bool" where
  "running R A s \<longleftrightarrow> (\<forall>t \<in> A. state (tasks s t) = OS_TASK_RUNNING \<longleftrightarrow> t \<in> R)"

definition kernel_inv ::
  "(head \<Rightarrow> addr list) \<Rightarrow> addr list \<Rightarrow> (addr \<Rightarrow> addr list) \<Rightarrow> addr set \<Rightarrow> kernel \<Rightarrow> bool" where
  "kernel_inv L TL OL A s \<longleftrightarrow>
     repr L TL s \<and> data_inv {} L TL OL A s \<and> not_due TL s \<and> running {osCurrentTask s} A s"

lemmas inv_defs = placed_def prio_sorted_def timed_sorted_def not_due_def owners_def
  no_inversion_def bounded_def idle_ok_def canaries_def running_def

section \<open>The parts depend on the data only\<close>

lemma left_data_eq: "data_eq s s' \<Longrightarrow> left s' = left s"
  by (rule ext) (simp add: left_def data_eqD)

lemma parts_data_eq:
  assumes "data_eq s s'"
  shows "task_placed L TL s' t = task_placed L TL s t"
    and "placed X L TL A s' = placed X L TL A s"
    and "prio_sorted L s' = prio_sorted L s"
    and "timed_sorted TL s' = timed_sorted TL s"
    and "not_due TL s' = not_due TL s"
    and "owners X L OL A s' = owners X L OL A s"
    and "no_inversion L s' = no_inversion L s"
    and "bounded A s' = bounded A s"
    and "idle_ok X A s' = idle_ok X A s"
    and "canaries A s' = canaries A s"
    and "running R A s' = running R A s"
    and "data_inv X L TL OL A s' = data_inv X L TL OL A s"
proof -
  note d = data_eqD [OF assms]
  have 1: "task_placed L TL s' t = task_placed L TL s t" for t
    by (simp add: task_placed_def d)
  show "task_placed L TL s' t = task_placed L TL s t"
    by (rule 1)
  show 2: "placed X L TL A s' = placed X L TL A s"
    by (simp add: placed_def 1)
  have orders: "by_priority s' = by_priority s" "by_time s' = by_time s"
    using left_data_eq [OF assms] by (auto simp: by_priority_def by_time_def fun_eq_iff d)
  show 3: "prio_sorted L s' = prio_sorted L s"
    by (simp add: prio_sorted_def orders)
  show 4: "timed_sorted TL s' = timed_sorted TL s"
    by (simp add: timed_sorted_def orders)
  show 5: "not_due TL s' = not_due TL s"
    by (simp add: not_due_def left_data_eq [OF assms])
  show 6: "owners X L OL A s' = owners X L OL A s"
    by (simp add: owners_def d ord_data_eq [OF assms])
  show 7: "no_inversion L s' = no_inversion L s"
    by (simp add: no_inversion_def d)
  show 8: "bounded A s' = bounded A s"
    by (simp add: bounded_def d)
  show 9: "idle_ok X A s' = idle_ok X A s"
    by (simp add: idle_ok_def d)
  show 10: "canaries A s' = canaries A s"
    by (simp add: canaries_def d)
  show 11: "running R A s' = running R A s"
    by (simp add: running_def d)
  show "data_inv X L TL OL A s' = data_inv X L TL OL A s"
    by (simp add: data_inv_def 2 3 4 6 7 8 9 10 d)
qed

section \<open>Sorted lists\<close>

lemma sorted_wrt_remove1: "sorted_wrt P xs \<Longrightarrow> sorted_wrt P (remove1 x xs)"
proof (induction xs)
  case Nil
  then show ?case by simp
next
  case (Cons y ys)
  then show ?case by (auto dest: set_remove1_subset [THEN subsetD])
qed

lemma sorted_ins:
  assumes "sorted_wrt (\<lambda>x y. p y \<le> p x) xs" and "p t \<le> key"
    and "\<And>x. x \<in> set xs \<Longrightarrow> p x < key \<Longrightarrow> p x \<le> p t"
  shows "sorted_wrt (\<lambda>x y. p y \<le> p x) (ins p key t xs)"
  using assms
proof (induction xs)
  case Nil
  then show ?case by (simp add: ins_def)
next
  case (Cons y ys)
  show ?case
  proof (cases "key \<le> p y")
    case True
    then have "ins p key t (y # ys) = y # ins p key t ys" by (simp add: ins_def)
    moreover have "sorted_wrt (\<lambda>x y. p y \<le> p x) (ins p key t ys)"
      using Cons by simp
    ultimately show ?thesis
      using Cons.prems True by (auto intro: order_trans)
  next
    case False
    then have "ins p key t (y # ys) = t # y # ys" by (simp add: ins_def)
    moreover from False Cons.prems(3) have "p y \<le> p t" by simp
    ultimately show ?thesis
      using Cons.prems(1) by (auto intro: order_trans)
  qed
qed

lemma sorted_ins_own:
  "sorted_wrt (\<lambda>x y. p y \<le> p x) xs \<Longrightarrow> sorted_wrt (\<lambda>x y. p y \<le> p x) (ins p (p t) t xs)"
  by (rule sorted_ins) auto

text \<open>A preempted task goes in front of the tasks of its own priority.\<close>

lemma sorted_ins_front:
  assumes "sorted_wrt (\<lambda>x y. p y \<le> p x) xs" and "(p t :: u8) < 255"
  shows "sorted_wrt (\<lambda>x y. p y \<le> p x) (ins p (p t + 1) t xs)"
proof (rule sorted_ins [OF assms(1)])
  have t: "unat (p t + 1) = unat (p t) + 1"
    using assms(2) by (simp add: unat_add_lem [THEN iffD1] word_less_nat_alt)
  show "p t \<le> p t + 1" using t by (simp add: word_le_nat_alt)
  show "p x \<le> p t" if "p x < p t + 1" for x
    using that t by (simp add: word_le_nat_alt word_less_nat_alt)
qed

lemma sorted_tins:
  assumes "sorted_wrt (\<lambda>x y. l x \<le> l y) xs" and "l t = n" and "t \<notin> set xs"
  shows "sorted_wrt (\<lambda>x y. l x \<le> l y) (tins l n t xs)"
  using assms
proof (induction xs)
  case Nil
  then show ?case by (simp add: tins_def)
next
  case (Cons y ys)
  show ?case
  proof (cases "l y \<le> n")
    case True
    then have "tins l n t (y # ys) = y # tins l n t ys" by (simp add: tins_def)
    moreover have "sorted_wrt (\<lambda>x y. l x \<le> l y) (tins l n t ys)"
      using Cons by simp
    ultimately show ?thesis
      using Cons.prems True by auto
  next
    case False
    then have "tins l n t (y # ys) = t # y # ys" by (simp add: tins_def)
    with False show ?thesis
      using Cons.prems by (auto intro: order_trans)
  qed
qed

lemma distinct_tins: "distinct xs \<Longrightarrow> t \<notin> set xs \<Longrightarrow> distinct (tins l n t xs)"
  by (auto simp: tins_def dest: set_takeWhileD set_dropWhileD)
    (metis distinct_append takeWhile_dropWhile_id disjoint_iff_not_equal)

section \<open>Moving a task from list to list\<close>

text \<open>
  An operation takes a task off its lists (\<open>detach\<close>), changes its members while it is on
  no list (\<open>data_inv_moving\<close>) and puts it where its new state says (\<open>arrive\<close>).
\<close>

definition absent :: "addr \<Rightarrow> (head \<Rightarrow> addr list) \<Rightarrow> addr list \<Rightarrow> bool" where
  "absent t L TL \<longleftrightarrow> (\<forall>h. t \<notin> set (L h)) \<and> t \<notin> set TL"

lemma data_inv_exempt: "data_inv X L TL OL A s \<Longrightarrow> X \<subseteq> Y \<Longrightarrow> data_inv Y L TL OL A s"
  unfolding data_inv_def placed_def owners_def idle_ok_def by blast

lemma data_inv_moving:
  assumes inv: "data_inv X L TL OL A s" and t: "t \<in> X" "absent t L TL"
    and f: "tmutexes (f (tasks s t)) = tmutexes (tasks s t)" "stack (f (tasks s t)) = stack (tasks s t)"
      "basePriority (f (tasks s t)) \<le> priority (f (tasks s t))"
      "priority (f (tasks s t)) \<le> OS_PRIORITY_MAX"
    and pi: "\<And>m w. owner (mutexes s m) = Some t \<Longrightarrow> w \<in> set (L (MutexHead m)) \<Longrightarrow>
      priority (tasks s w) \<le> priority (f (tasks s t))"
  shows "data_inv X L TL OL A (task_upd t f s)"
proof -
  let ?s = "task_upd t f s"
  have other: "x \<in> set (L h) \<Longrightarrow> x \<noteq> t" "x \<in> set TL \<Longrightarrow> x \<noteq> t" for x h
    using t(2) by (auto simp: absent_def)
  have ord: "ord ?s = ord s"
    using f(1) by (intro ord_cong) simp_all
  have "placed X L TL A ?s"
    using inv t(1) by (auto simp: data_inv_def placed_def task_placed_def)
  moreover have "prio_sorted L ?s"
    using inv other by (auto simp: data_inv_def prio_sorted_def by_priority_def
        elim!: sorted_wrt_mono_rel [rotated])
  moreover have "timed_sorted TL ?s"
    using inv other by (auto simp: data_inv_def timed_sorted_def by_time_def left_def
        elim!: sorted_wrt_mono_rel [rotated])
  moreover have "owners X L OL A ?s"
    using inv t(1) by (auto simp: data_inv_def owners_def ord)
  moreover have "no_inversion L ?s"
    using inv other pi by (auto simp: data_inv_def no_inversion_def)
  moreover have "bounded A ?s"
    using inv f by (auto simp: data_inv_def bounded_def)
  moreover have "idle_ok X A ?s"
    using inv t(1) by (auto simp: data_inv_def idle_ok_def)
  moreover have "canaries A ?s"
    using inv f by (auto simp: data_inv_def canaries_def)
  ultimately show ?thesis
    using inv by (simp add: data_inv_def)
qed

text \<open>The members the scheduler changes that neither priorities nor stacks depend on.\<close>

lemma data_inv_moving_simple:
  assumes inv: "data_inv X L TL OL A s" and t: "t \<in> X" "absent t L TL" "t \<in> A"
    and f: "\<And>k. tmutexes (f k) = tmutexes k" "\<And>k. stack (f k) = stack k"
      "\<And>k. basePriority (f k) = basePriority k" "\<And>k. priority (f k) = priority k"
  shows "data_inv X L TL OL A (task_upd t f s)"
  using inv t f
  by (intro data_inv_moving) (auto simp: data_inv_def bounded_def no_inversion_def)

lemma data_inv_fewer:
  assumes inv: "data_inv X L TL OL A s" and t: "t \<in> X"
    and L: "\<And>h. L' h = L h \<or> L' h = remove1 t (L h)" and TL: "TL' = TL \<or> TL' = remove1 t TL"
  shows "data_inv X L' TL' OL A s"
proof -
  have sub: "x \<in> set (L' h) \<Longrightarrow> x \<in> set (L h)" "x \<in> set TL' \<Longrightarrow> x \<in> set TL" for x h
    using L [of h] TL by (auto dest: set_remove1_subset [THEN subsetD])
  have same: "x \<noteq> t \<Longrightarrow> x \<in> set (L' h) \<longleftrightarrow> x \<in> set (L h)" "x \<noteq> t \<Longrightarrow> x \<in> set TL' \<longleftrightarrow> x \<in> set TL" for x h
    using L [of h] TL by auto
  have "placed X L' TL' A s"
  proof -
    have "task_placed L' TL' s x" if "x \<in> A - X" for x
    proof -
      have "x \<noteq> t" using t that by auto
      then show ?thesis
        using inv that by (auto simp: data_inv_def placed_def task_placed_def same)
    qed
    moreover have "set (L h) \<subseteq> A" "set TL \<subseteq> A" "distinct (L' h)" for h
      using inv L [of h] by (auto simp add: data_inv_def placed_def)
    ultimately show ?thesis
      unfolding placed_def using sub by blast
  qed
  moreover have "prio_sorted L' s"
    using inv L by (auto simp: data_inv_def prio_sorted_def) (metis sorted_wrt_remove1)
  moreover have "timed_sorted TL' s"
    using inv TL by (auto simp: data_inv_def timed_sorted_def intro: sorted_wrt_remove1)
  moreover have "owners X L' OL A s"
    using inv L unfolding data_inv_def owners_def by (metis remove1.simps(1))
  moreover have "no_inversion L' s"
    using inv sub(1) unfolding data_inv_def no_inversion_def by blast
  ultimately show ?thesis
    using inv by (simp add: data_inv_def)
qed

lemma detach_blocked:
  assumes inv: "data_inv X L TL OL A s" and t: "t \<in> A" "t \<notin> X"
    and blocked: "state (tasks s t) \<noteq> OS_TASK_READY"
      "state (tasks s t) \<noteq> OS_TASK_DEAD"
  shows "data_inv (insert t X) (unwaited s t L) (untimed s t TL) OL A s"
    and "absent t (unwaited s t L) (untimed s t TL)"
    and "\<And>h. t \<in> set (L h) \<Longrightarrow> waitList (tasks s t) = Some h"
proof -
  have pl: "task_placed L TL s t"
    using inv t by (simp add: data_inv_def placed_def)
  then show only: "t \<in> set (L h) \<Longrightarrow> waitList (tasks s t) = Some h" for h
    using blocked by (cases "h = ReadyHead \<or> h = DeadHead") (auto simp: task_placed_def)
  have "data_inv (insert t X) L TL OL A s"
    by (rule data_inv_exempt [OF inv]) auto
  then show "data_inv (insert t X) (unwaited s t L) (untimed s t TL) OL A s"
    by (rule data_inv_fewer [where t = t]) (auto simp: unwaited_def untimed_def split: option.split)
  have "t \<notin> set (untimed s t TL)"
    using inv pl by (auto simp: untimed_def data_inv_def timed_sorted_def task_placed_def)
  moreover have "t \<notin> set (unwaited s t L h)" for h
    using inv only [of h] by (auto simp: unwaited_def data_inv_def placed_def split: option.split)
  ultimately show "absent t (unwaited s t L) (untimed s t TL)"
    by (simp add: absent_def)
qed

lemma detach_ready:
  assumes inv: "data_inv {} L TL OL A s" and t: "t \<in> A"
    and ready: "state (tasks s t) = OS_TASK_READY"
  shows "data_inv {t} (L(ReadyHead := remove1 t (L ReadyHead))) TL OL A s"
    and "absent t (L(ReadyHead := remove1 t (L ReadyHead))) TL"
    and "waitList (tasks s t) = None"
proof -
  have pl: "task_placed L TL s t"
    using inv t by (simp add: data_inv_def placed_def)
  have "data_inv {t} L TL OL A s"
    by (rule data_inv_exempt [OF inv]) simp
  then show "data_inv {t} (L(ReadyHead := remove1 t (L ReadyHead))) TL OL A s"
    by (rule data_inv_fewer) auto
  show "waitList (tasks s t) = None"
    using pl ready by (auto simp: task_placed_def)
  have "t \<notin> set (L h)" if "h \<noteq> ReadyHead" for h
    using pl ready that by (cases "h = DeadHead") (auto simp: task_placed_def)
  then show "absent t (L(ReadyHead := remove1 t (L ReadyHead))) TL"
    using inv pl ready by (auto simp: absent_def data_inv_def placed_def task_placed_def)
qed

lemma detach_none:
  assumes inv: "data_inv {} L TL OL A s" and t: "t \<in> A"
    and st: "state (tasks s t) = OS_TASK_RUNNING \<or> state (tasks s t) = OS_TASK_SUSPENDED"
  shows "data_inv {t} L TL OL A s" and "absent t L TL" and "waitList (tasks s t) = None"
proof -
  have pl: "task_placed L TL s t"
    using inv t by (simp add: data_inv_def placed_def)
  show "data_inv {t} L TL OL A s"
    by (rule data_inv_exempt [OF inv]) simp
  show w: "waitList (tasks s t) = None"
    using pl st by (auto simp: task_placed_def)
  have "t \<notin> set (L h)" for h
    using pl st w by (cases "h = ReadyHead \<or> h = DeadHead") (auto simp: task_placed_def)
  then show "absent t L TL"
    using pl st by (auto simp: absent_def task_placed_def)
qed

lemma arrive:
  assumes inv: "data_inv (insert t X) L TL OL A s" and t: "t \<in> A" and pl: "task_placed L' TL' s t"
    and L: "\<And>h. L' h = L h \<or> set (L' h) = insert t (set (L h)) \<and> distinct (L' h) \<and>
      (h \<noteq> DeadHead \<longrightarrow> sorted_wrt (by_priority s) (L' h))"
    and TL: "TL' = TL \<or> set TL' = insert t (set TL) \<and> distinct TL' \<and> sorted_wrt (by_time s) TL'"
    and idle: "t = osIdleTask s \<Longrightarrow> state (tasks s t) \<in> {OS_TASK_RUNNING, OS_TASK_READY}"
    and dead: "\<And>m. state (tasks s t) = OS_TASK_DEAD \<Longrightarrow> owner (mutexes s m) \<noteq> Some t"
    and waits: "\<And>m. t \<in> set (L' (MutexHead m)) \<Longrightarrow>
      \<exists>o'. owner (mutexes s m) = Some o' \<and> priority (tasks s t) \<le> priority (tasks s o')"
    and tX: "t \<notin> X"
  shows "data_inv X L' TL' OL A s"
proof -
  have sub: "x \<noteq> t \<Longrightarrow> x \<in> set (L' h) \<longleftrightarrow> x \<in> set (L h)" "x \<noteq> t \<Longrightarrow> x \<in> set TL' \<longleftrightarrow> x \<in> set TL" for x h
    using L [of h] TL by auto
  have "placed X L' TL' A s"
  proof -
    have "task_placed L' TL' s x" if "x \<in> A - X" for x
    proof (cases "x = t")
      case False
      then show ?thesis
        using inv that by (auto simp: data_inv_def placed_def task_placed_def sub)
    qed (simp add: pl)
    moreover have "distinct (L' h) \<and> set (L' h) \<subseteq> A" for h
    proof -
      have "distinct (L h) \<and> set (L h) \<subseteq> A" using inv by (simp add: data_inv_def placed_def)
      then show ?thesis using t L [of h] by auto
    qed
    moreover have "set TL' \<subseteq> A"
    proof -
      have "set TL \<subseteq> A" using inv by (simp add: data_inv_def placed_def)
      then show ?thesis using t TL by auto
    qed
    ultimately show ?thesis by (simp add: placed_def)
  qed
  moreover have "prio_sorted L' s"
    unfolding prio_sorted_def
  proof (intro allI impI)
    fix h assume "h \<noteq> DeadHead"
    then show "sorted_wrt (by_priority s) (L' h)"
      using inv L [of h] by (auto simp: data_inv_def prio_sorted_def)
  qed
  moreover have "timed_sorted TL' s"
    using inv TL by (auto simp: data_inv_def timed_sorted_def)
  moreover have "owners X L' OL A s"
  proof -
    have "owner (mutexes s m) \<noteq> None" if ne: "L' (MutexHead m) \<noteq> []" for m
    proof (cases "t \<in> set (L' (MutexHead m))")
      case False
      with L [of "MutexHead m"] ne have "L (MutexHead m) \<noteq> []" by auto
      with inv show ?thesis by (simp add: data_inv_def owners_def)
    qed (use waits in fastforce)
    moreover have O: "owners (insert t X) L OL A s" using inv by (simp add: data_inv_def)
    moreover have "state (tasks s x) \<noteq> OS_TASK_DEAD" if "x \<in> A - X" "owner (mutexes s m) = Some x" for m x
      using O that dead unfolding owners_def by (cases "x = t") blast+
    ultimately show ?thesis
      unfolding owners_def by simp
  qed
  moreover have "no_inversion L' s"
  proof -
    have "priority (tasks s w) \<le> priority (tasks s o')"
      if o': "owner (mutexes s m) = Some o'" and w: "w \<in> set (L' (MutexHead m))" for m o' w
    proof (cases "w = t")
      case True
      with w waits [of m] o' show ?thesis by auto
    next
      case False
      with w have "w \<in> set (L (MutexHead m))" by (simp add: sub)
      moreover have "no_inversion L s" using inv by (simp add: data_inv_def)
      ultimately show ?thesis using o' by (simp add: no_inversion_def)
    qed
    then show ?thesis by (simp add: no_inversion_def)
  qed
  moreover have "idle_ok X A s"
    using inv idle by (auto simp: data_inv_def idle_ok_def)
  ultimately show ?thesis
    using inv by (simp add: data_inv_def)
qed

lemma distinct_ins: "distinct xs \<Longrightarrow> t \<notin> set xs \<Longrightarrow> distinct (ins p key t xs)"
  by (auto simp: ins_def dest: set_takeWhileD set_dropWhileD)
    (metis distinct_append takeWhile_dropWhile_id disjoint_iff_not_equal)

lemma arrive_ready:
  assumes inv: "data_inv (insert t X) L TL OL A s" and t: "t \<in> A" "absent t L TL"
    and st: "state (tasks s t) = OS_TASK_READY" "waitList (tasks s t) = None"
    and key: "key = priority (tasks s t) \<or> key = priority (tasks s t) + 1"
    and tX: "t \<notin> X"
  shows "data_inv X (L(ReadyHead := ins (\<lambda>x. priority (tasks s x)) key t (L ReadyHead))) TL OL A s"
proof (rule arrive [OF inv t(1)])
  let ?L = "L(ReadyHead := ins (\<lambda>x. priority (tasks s x)) key t (L ReadyHead))"
  have not: "t \<notin> set (L h)" "t \<notin> set TL" for h using t(2) by (auto simp: absent_def)
  show "task_placed ?L TL s t"
    using st not by (auto simp: task_placed_def valid_states_def)
  have "sorted_wrt (\<lambda>x y. priority (tasks s y) \<le> priority (tasks s x)) (L ReadyHead)"
    using inv by (simp add: data_inv_def prio_sorted_def by_priority_abs)
  moreover have "priority (tasks s t) < 255"
    using inv t(1) by (auto simp: data_inv_def bounded_def word_le_nat_alt word_less_nat_alt)
  ultimately have "sorted_wrt (\<lambda>x y. priority (tasks s y) \<le> priority (tasks s x)) (?L ReadyHead)"
    using key sorted_ins_own [of "\<lambda>x. priority (tasks s x)"]
      sorted_ins_front [of "\<lambda>x. priority (tasks s x)"] by auto
  moreover have "distinct (?L ReadyHead)"
    using inv not by (auto simp: data_inv_def placed_def intro: distinct_ins)
  ultimately show "?L h = L h \<or> set (?L h) = insert t (set (L h)) \<and> distinct (?L h) \<and>
      (h \<noteq> DeadHead \<longrightarrow> sorted_wrt (by_priority s) (?L h))" for h
    by (auto simp: by_priority_abs)
qed (use st t tX in \<open>auto simp: absent_def\<close>)

lemma arrive_aside:
  assumes inv: "data_inv {t} L TL OL A s" and t: "t \<in> A" "absent t L TL"
    and st: "state (tasks s t) \<in> {OS_TASK_RUNNING, OS_TASK_SUSPENDED, OS_TASK_DEAD}"
      "waitList (tasks s t) = None"
    and idle: "t = osIdleTask s \<Longrightarrow> state (tasks s t) = OS_TASK_RUNNING"
    and dead: "\<And>m. state (tasks s t) = OS_TASK_DEAD \<Longrightarrow> owner (mutexes s m) \<noteq> Some t"
  shows "data_inv {} L TL OL A s"
proof (rule arrive [OF inv t(1)])
  show "task_placed L TL s t"
    using st t(2) by (auto simp: task_placed_def valid_states_def absent_def)
qed (use st t idle dead in \<open>auto simp: absent_def\<close>)

end
