(* ===== verification/Scheduler_Inv.thy ===== *)
theory Scheduler_Inv
  imports Kernel_Inv
begin

text \<open>
  The operations of the scheduler keep the invariant of the kernel. \<open>osWake\<close>, \<open>osReady\<close>
  and \<open>osPriorityRaise\<close> are steps of larger operations; \<open>osSchedule\<close> and \<open>osBlock\<close> lead
  from one state of rest to the next, with another task in the place of the current one.
\<close>

section \<open>Settling\<close>

lemma settled_bounds:
  assumes inv: "data_inv X L TL OL A s" and t: "t \<in> A"
  shows "basePriority (tasks s t) \<le> settled L (OL t) s t"
    and "settled L (OL t) s t \<le> priority (tasks s t)"
    and "owner (mutexes s m) = Some t \<Longrightarrow> w \<in> set (L (MutexHead m)) \<Longrightarrow>
      priority (tasks s w) \<le> settled L (OL t) s t"
proof -
  have base: "basePriority (tasks s t) \<le> priority (tasks s t)"
    using inv t by (simp add: data_inv_def bounded_def)
  have own: "m \<in> set (OL t) \<longleftrightarrow> owner (mutexes s m) = Some t" for m
    using inv by (simp add: data_inv_def owners_def)
  have pi: "owner (mutexes s m) = Some t \<Longrightarrow> w \<in> set (L (MutexHead m)) \<Longrightarrow>
      priority (tasks s w) \<le> priority (tasks s t)" for m w
    using inv by (simp add: data_inv_def no_inversion_def)
  show "basePriority (tasks s t) \<le> settled L (OL t) s t"
    using base by (simp add: settled_def inherited_def inherit_base)
  show "settled L (OL t) s t \<le> priority (tasks s t)"
    using base pi own by (auto simp: settled_def inherited_def intro!: inherit_least)
  show "priority (tasks s w) \<le> settled L (OL t) s t"
    if m: "owner (mutexes s m) = Some t" "w \<in> set (L (MutexHead m))" for m w
  proof -
    obtain w' ws where ws: "L (MutexHead m) = w' # ws" using m(2) by (cases "L (MutexHead m)") auto
    have "sorted_wrt (by_priority s) (L (MutexHead m))"
      using inv by (simp add: data_inv_def prio_sorted_def)
    with ws m(2) have "priority (tasks s w) \<le> priority (tasks s w')"
      by (auto simp: by_priority_def)
    also have "\<dots> \<le> inherited L (OL t) s t"
      using inherit_waiter [of m "OL t" L w' ws] own m(1) ws by (simp add: inherited_def)
    finally show ?thesis using pi [OF m] by (auto simp: settled_def)
  qed
qed

lemma data_inv_settle:
  assumes inv: "data_inv X L TL OL A s" and c: "c \<in> A" "c \<in> X" "absent c L TL"
  shows "data_inv X L TL OL A (set_priority c (settled L (OL c) s c) s)"
  using inv c settled_bounds [OF inv c(1)]
  by (intro data_inv_moving) (auto simp: data_inv_def bounded_def intro: order_trans)

section \<open>Waking a task up\<close>

definition woken :: "addr \<Rightarrow> u8 \<Rightarrow> kernel \<Rightarrow> kernel" where
  "woken t r s = set_state t OS_TASK_READY (set_waitList t None (set_result t r s))"

lemma woken_simps [simp]:
  "priority (tasks (woken t r s) x) = priority (tasks s x)"
  "state (tasks (woken t r s) x) = (if x = t then OS_TASK_READY else state (tasks s x))"
  "waitList (tasks (woken t r s) x) = (if x = t then None else waitList (tasks s x))"
  "mutexes (woken t r s) = mutexes s"
  "osCurrentTask (woken t r s) = osCurrentTask s"
  "osIdleTask (woken t r s) = osIdleTask s"
  "osTicks (woken t r s) = osTicks s"
  by (simp_all add: woken_def)

lemma priority_set_state [simp]: "priority (tasks (set_state t v s) x) = priority (tasks s x)"
  by simp

lemma wake_data_inv:
  assumes inv: "data_inv X L TL OL A s" and t: "t \<in> A" "t \<notin> X"
    and st: "state (tasks s t) \<noteq> OS_TASK_READY" "state (tasks s t) \<noteq> OS_TASK_DEAD"
  shows "data_inv X (made_ready s t (unwaited s t L)) (untimed s t TL) OL A (woken t r s)"
proof -
  let ?L = "unwaited s t L" and ?TL = "untimed s t TL"
  have abs: "absent t ?L ?TL" by (rule detach_blocked [OF inv t st])
  have "data_inv (insert t X) ?L ?TL OL A s" by (rule detach_blocked [OF inv t st])
  then have "data_inv (insert t X) ?L ?TL OL A (woken t r s)"
    unfolding woken_def using abs t by (intro data_inv_moving_simple) auto
  from arrive_ready [OF this t(1) abs, of "priority (tasks s t)"] t(2) show ?thesis
    by (simp add: made_ready_def)
qed

lemma osWake_inv:
  assumes R: "repr L TL s" and inv: "data_inv X L TL OL A s" and t: "t \<in> A" "t \<notin> X"
    and st: "state (tasks s t) \<noteq> OS_TASK_READY" "state (tasks s t) \<noteq> OS_TASK_DEAD"
  shows "returns (osWake t r s)
    (\<lambda>s'. repr (made_ready s t (unwaited s t L)) (untimed s t TL) s' \<and>
       data_inv X (made_ready s t (unwaited s t L)) (untimed s t TL) OL A s' \<and>
       data_eq (woken t r s) s')"
proof -
  have only: "t \<in> set (L h) \<Longrightarrow> waitList (tasks s t) = Some h" for h
    by (rule detach_blocked(3) [OF inv t st])
  show ?thesis
    using osWake_spec [OF R only, of r] wake_data_inv [OF inv t st, of r]
    by (auto simp: woken_def parts_data_eq(12) elim!: returns_mono)
qed

lemma ready_data_inv:
  assumes inv: "data_inv {t} L TL OL A s" and t: "t \<in> A" "absent t L TL"
    and w: "waitList (tasks s t) = None"
  shows "data_inv {} (made_ready s t L) TL OL A (set_state t OS_TASK_READY s)"
proof -
  have "data_inv {t} L TL OL A (set_state t OS_TASK_READY s)"
    using inv t by (intro data_inv_moving_simple) auto
  from arrive_ready [of t "{}", OF this t, of "priority (tasks s t)"] w show ?thesis
    by (simp only: priority_set_state made_ready_def) simp
qed

lemma osReady_inv:
  assumes R: "repr L TL s" and inv: "data_inv {t} L TL OL A s" and t: "t \<in> A" "absent t L TL"
    and w: "waitList (tasks s t) = None"
  shows "returns (osReady t s)
    (\<lambda>s'. repr (made_ready s t L) TL s' \<and> data_inv {} (made_ready s t L) TL OL A s' \<and>
       data_eq (set_state t OS_TASK_READY s) s')"
proof -
  have "t \<notin> set (L h)" for h using t(2) by (simp add: absent_def)
  from osReady_spec [OF R this] ready_data_inv [OF inv t w] show ?thesis
    by (auto simp: parts_data_eq(12) made_ready_def elim!: returns_mono)
qed

section \<open>The next task gets the processor\<close>

lemma data_inv_current:
  "c \<in> A \<Longrightarrow> data_inv X L TL OL A s \<Longrightarrow> data_inv X L TL OL A (s\<lparr>osCurrentTask := c\<rparr>)"
proof -
  assume c: "c \<in> A" and inv: "data_inv X L TL OL A s"
  let ?s = "s\<lparr>osCurrentTask := c\<rparr>"
  have "ord ?s = ord s" by (rule ord_cong) simp_all
  moreover have "by_priority ?s = by_priority s" "by_time ?s = by_time s"
    by (simp_all add: by_priority_def by_time_def left_def fun_eq_iff)
  moreover have "task_placed L TL ?s = task_placed L TL s"
    by (simp add: task_placed_def fun_eq_iff)
  ultimately show ?thesis
    using c inv by (simp add: data_inv_def inv_defs)
qed

lemma dispatch_data_inv:
  assumes inv: "data_inv {} L TL OL A s" and run: "running {} A s" and ready: "L ReadyHead = n # ns"
  shows "data_inv {} (L(ReadyHead := ns)) TL OL A (switched_to n s)"
    and "running {n} A (switched_to n s)" and "n \<in> A" and "state (tasks s n) = OS_TASK_READY"
proof -
  have "n \<in> set (L ReadyHead)" by (simp add: ready)
  then show n: "n \<in> A" using inv by (auto simp: data_inv_def placed_def)
  with inv ready show st: "state (tasks s n) = OS_TASK_READY"
    by (auto simp: data_inv_def placed_def task_placed_def)
  have r1: "L(ReadyHead := remove1 n (L ReadyHead)) = L(ReadyHead := ns)" by (simp add: ready)
  note d = detach_ready [OF inv n st, unfolded r1]
  have "data_inv {n} (L(ReadyHead := ns)) TL OL A (set_state n OS_TASK_RUNNING s)"
    using d n by (intro data_inv_moving_simple) auto
  then have "data_inv {} (L(ReadyHead := ns)) TL OL A (set_state n OS_TASK_RUNNING s)"
    using d n by (intro arrive_aside) auto
  then show "data_inv {} (L(ReadyHead := ns)) TL OL A (switched_to n s)"
    unfolding switched_to_def by (rule data_inv_current [OF n])
  show "running {n} A (switched_to n s)"
    using run by (auto simp: running_def switched_to_def)
qed

lemma not_due_switched_to [simp]: "not_due TL (switched_to n s) = not_due TL s"
  by (auto simp: not_due_def left_def switched_to_def)

lemma somebody_ready:
  assumes inv: "data_inv X L TL OL A s" and run: "\<And>t. t \<in> A - X \<Longrightarrow> state (tasks s t) \<noteq> OS_TASK_RUNNING"
    and idle: "osIdleTask s \<notin> X"
  shows "L ReadyHead \<noteq> []"
proof -
  have i: "osIdleTask s \<in> A" using inv by (simp add: data_inv_def idle_ok_def)
  then have "state (tasks s (osIdleTask s)) = OS_TASK_READY"
    using inv idle run by (auto simp: data_inv_def idle_ok_def)
  then have "osIdleTask s \<in> set (L ReadyHead)"
    using inv i idle by (auto simp: data_inv_def placed_def task_placed_def)
  then show ?thesis by auto
qed

lemma current_detached:
  assumes "kernel_inv L TL OL A s"
  shows "data_inv {osCurrentTask s} L TL OL A s" and "absent (osCurrentTask s) L TL"
    and "waitList (tasks s (osCurrentTask s)) = None" and "osCurrentTask s \<in> A"
    and "state (tasks s (osCurrentTask s)) = OS_TASK_RUNNING"
    and "chain (ord s) NextOwned (OwnedBy (osCurrentTask s)) (OL (osCurrentTask s))"
    and "ram s (stack (tasks s (osCurrentTask s))) = OS_STACK_FILL"
proof -
  have inv: "data_inv {} L TL OL A s" using assms by (simp add: kernel_inv_def)
  show c: "osCurrentTask s \<in> A" using inv by (simp add: data_inv_def)
  then show st: "state (tasks s (osCurrentTask s)) = OS_TASK_RUNNING"
    using assms by (simp add: kernel_inv_def running_def)
  show "data_inv {osCurrentTask s} L TL OL A s" "absent (osCurrentTask s) L TL"
      "waitList (tasks s (osCurrentTask s)) = None"
    using detach_none [OF inv c] st by auto
  show "chain (ord s) NextOwned (OwnedBy (osCurrentTask s)) (OL (osCurrentTask s))"
    using inv c by (simp add: data_inv_def owners_def)
  show "ram s (stack (tasks s (osCurrentTask s))) = OS_STACK_FILL"
    using inv c by (simp add: data_inv_def canaries_def)
qed

section \<open>Preemption\<close>

lemma needed_head:
  assumes "repr L TL s" and "osScheduleNeeded y s"
  obtains n ns where "L ReadyHead = n # ns"
    and "priority (tasks s (osCurrentTask s)) < priority (tasks s n) + y"
  using assms repr_ready [OF assms(1)]
  by (cases "L ReadyHead") (auto simp: osScheduleNeeded_def)

text \<open>The head of the ready list stays the head: the preempted task goes behind it.\<close>

lemma insert_behind_head:
  fixes p q r :: u8
  assumes "p \<le> q" and "q < r + y" and "r \<le> 254" and "y = 0 \<or> y = 1"
  shows "p + 1 - y \<le> r"
proof -
  have "unat r \<le> 254" using assms(3) by (simp add: word_le_nat_alt)
  then have "unat (r + 1) = unat r + 1" by (simp add: unat_add_lem [THEN iffD1])
  moreover have "unat (p + 1) = unat p + 1" if "p < r"
    using that \<open>unat r \<le> 254\<close> by (simp add: unat_add_lem [THEN iffD1] word_less_nat_alt)
  ultimately show ?thesis
    using assms by (auto simp: word_le_nat_alt word_less_nat_alt)
qed

lemma osSchedule_inv:
  assumes K: "kernel_inv L TL OL A s" and y: "y = 0 \<or> y = 1" and needed: "osScheduleNeeded y s"
    and c: "c = osCurrentTask s" and s1: "s1 = preempted c (settled L (OL c) s c) s"
    and n: "L ReadyHead = n # ns"
    and ns': "ns' = ins (\<lambda>x. priority (tasks s1 x)) (priority (tasks s1 c) + 1 - y) c ns"
  shows "returns (osSchedule y s)
    (\<lambda>(r, s'). r = Switched \<and> kernel_inv (L(ReadyHead := ns')) TL OL A s' \<and> data_eq (switched_to n s1) s')"
proof -
  have R: "repr L TL s" and inv: "data_inv {} L TL OL A s" and nd: "not_due TL s"
    and run: "running {c} A s"
    using K c by (simp_all add: kernel_inv_def)
  note cur = current_detached [OF K, folded c]
  define p where "p = settled L (OL c) s c"
  have cL: "c \<notin> set (L h)" for h using cur(2) by (simp add: absent_def)
  have nA: "n \<in> A" using inv n by (auto simp: data_inv_def placed_def dest: spec [of _ ReadyHead])
  have q: "priority (tasks s c) < priority (tasks s n) + y"
    using needed repr_ready [OF R] n c by (simp add: osScheduleNeeded_def)
  have pr: "priority (tasks s1 x) = (if x = c then p else priority (tasks s x))" for x
    by (simp add: s1 preempted_def p_def)
  have key: "p + 1 - y \<le> priority (tasks s1 n)"
    using insert_behind_head [OF settled_bounds(2) [OF inv cur(4)] q _ y] inv nA n cL [of ReadyHead]
    by (auto simp: pr p_def data_inv_def bounded_def)
  have order: "ins (\<lambda>x. priority (tasks s1 x)) (p + 1 - y) c (L ReadyHead) = n # ns'"
    using key by (simp add: n ns' ins_def pr)
  have "data_inv {c} L TL OL A (set_priority c p s)"
    unfolding p_def by (rule data_inv_settle [OF cur(1,4) _ cur(2)]) simp
  then have "data_inv {c} L TL OL A s1"
    unfolding s1 preempted_def p_def by (rule data_inv_moving_simple) (use cur in auto)
  then have "data_inv {} (L(ReadyHead := n # ns')) TL OL A s1"
    using arrive_ready [of c "{}" L TL OL A s1 "p + 1 - y"] cur y order
    by (auto simp: pr) (simp_all add: s1 preempted_def)
  moreover have "running {} A s1"
    using run by (auto simp: running_def s1 preempted_def)
  ultimately have D: "data_inv {} (L(ReadyHead := ns')) TL OL A (switched_to n s1)"
      "running {n} A (switched_to n s1)"
    using dispatch_data_inv [of "L(ReadyHead := n # ns')" TL OL A s1 n ns'] by simp_all
  have "not_due TL s1"
    using nd by (simp add: not_due_def left_def s1 preempted_def)
  then have "kernel_inv (L(ReadyHead := ns')) TL OL A s'"
    if "repr (L(ReadyHead := ns')) TL s'" "data_eq (switched_to n s1) s'" for s'
    using D that parts_data_eq [OF that(2)] data_eqD [OF that(2)]
    by (simp add: kernel_inv_def) (simp add: switched_to_def)
  then show ?thesis
    using osSchedule_spec [OF R _ _ _ needed p_def [unfolded c] s1 [folded p_def, unfolded c] order [unfolded c]]
      cur cL c
    by (auto elim!: returns_mono)
qed

section \<open>Waiting\<close>

text \<open>What \<open>osBlock\<close> needs of the task that is about to wait.\<close>

definition may_wait :: "addr \<Rightarrow> head option \<Rightarrow> kernel \<Rightarrow> bool" where
  "may_wait c list s \<longleftrightarrow>
     c \<noteq> osIdleTask s \<and> waitList (tasks s c) = None \<and>
     list \<noteq> Some ReadyHead \<and> list \<noteq> Some DeadHead \<and>
     (case list of
        Some (MutexHead m) \<Rightarrow> state (tasks s c) = OS_TASK_MUTEX \<and>
          (\<exists>t. owner (mutexes s m) = Some t \<and> priority (tasks s c) \<le> priority (tasks s t))
      | _ \<Rightarrow> state (tasks s c) = OS_TASK_RUNNING)"

definition wait_end :: "addr \<Rightarrow> u8 \<Rightarrow> head option \<Rightarrow> u16 \<Rightarrow> kernel \<Rightarrow> kernel" where
  "wait_end c p list timeout s = waiting_until c timeout (waiting c p list s)"

lemma wait_end_simps [simp]:
  "waitList (tasks (wait_end c p list timeout s) x) = (if x = c then list else waitList (tasks s x))"
  "priority (tasks (wait_end c p list timeout s) x) = (if x = c then p else priority (tasks s x))"
  "wake (tasks (wait_end c p list timeout s) x) =
     (if x = c \<and> timeout \<noteq> OS_WAIT_FOREVER then osTicks s + timeout else wake (tasks s x))"
  "state (tasks (wait_end c p list timeout s) x) =
     (if x = c then (state (tasks s c) OR OS_TASK_BLOCKED) OR
        (if timeout \<noteq> OS_WAIT_FOREVER then OS_TASK_TIMED else 0)
      else state (tasks s x))"
  "mutexes (wait_end c p list timeout s) = mutexes s"
  "osTicks (wait_end c p list timeout s) = osTicks s"
  "osIdleTask (wait_end c p list timeout s) = osIdleTask s"
  "osCurrentTask (wait_end c p list timeout s) = osCurrentTask s"
  by (auto simp: wait_end_def waiting_until_def waiting_def)

lemma wait_end_placed:
  assumes w: "may_wait c list s" and abs: "absent c L TL"
  shows "task_placed (waits_in c list s1 L) (times_out c timeout s TL) (wait_end c p list timeout s) c"
proof -
  have lists: "c \<in> set (waits_in c list s1 L h) \<longleftrightarrow> list = Some h" for h
    using abs by (auto simp: waits_in_def absent_def split: option.split)
  have timed: "c \<in> set (times_out c timeout s TL) \<longleftrightarrow> timeout \<noteq> OS_WAIT_FOREVER"
    using abs by (auto simp: times_out_def absent_def)
  have "list = Some (MutexHead m) \<Longrightarrow> state (tasks s c) = OS_TASK_MUTEX" for m
    using w by (simp add: may_wait_def)
  moreover have "(\<And>m. list \<noteq> Some (MutexHead m)) \<Longrightarrow> state (tasks s c) = OS_TASK_RUNNING"
    using w by (auto simp: may_wait_def split: option.splits head.splits)
  moreover have "list \<noteq> Some ReadyHead" "list \<noteq> Some DeadHead"
    using w by (simp_all add: may_wait_def)
  ultimately show ?thesis
    by (cases "\<exists>m. list = Some (MutexHead m)")
      (auto simp: task_placed_def valid_states_def lists timed)
qed

lemma wait_end_data_inv:
  assumes inv: "data_inv {c} L TL OL A s" and c: "c \<in> A" "absent c L TL"
    and w: "may_wait c list s"
    and p: "p = settled L (OL c) s c" and s1: "s1 = waiting c p list s"
  shows "data_inv {} (waits_in c list s1 L) (times_out c timeout s TL) OL A (wait_end c p list timeout s)"
proof (rule arrive [OF _ c(1) wait_end_placed [OF w c(2)]])
  let ?s = "wait_end c p list timeout s"
  have i0: "data_inv {c} L TL OL A (set_priority c p s)"
    unfolding p by (rule data_inv_settle [OF inv c(1) _ c(2)]) simp
  have i1: "data_inv {c} L TL OL A s1"
    unfolding s1 waiting_def using i0
    by (rule data_inv_moving_simple [OF data_inv_moving_simple]) (use c in auto)
  show inv3: "data_inv {c} L TL OL A ?s"
    unfolding wait_end_def waiting_until_def s1 [symmetric]
    using i1 c by (auto intro!: data_inv_moving_simple)
  have not: "c \<notin> set (L h)" "c \<notin> set TL" for h using c(2) by (auto simp: absent_def)
  have prio: "priority (tasks s1 x) = priority (tasks ?s x)" for x
    by (simp add: s1 waiting_def)
  show "waits_in c list s1 L h = L h \<or>
      set (waits_in c list s1 L h) = insert c (set (L h)) \<and> distinct (waits_in c list s1 L h) \<and>
      (h \<noteq> DeadHead \<longrightarrow> sorted_wrt (by_priority ?s) (waits_in c list s1 L h))" for h
  proof (cases "list = Some h")
    case True
    have "h \<noteq> DeadHead" using w True by (simp add: may_wait_def)
    then have "sorted_wrt (\<lambda>x y. priority (tasks ?s y) \<le> priority (tasks ?s x)) (L h)" "distinct (L h)"
      using inv3 by (simp_all only: data_inv_def prio_sorted_def placed_def by_priority_abs) blast
    moreover have "waits_in c list s1 L h = ins (\<lambda>x. priority (tasks ?s x)) (priority (tasks ?s c)) c (L h)"
      unfolding waits_in_def True option.case fun_upd_same prio ..
    ultimately show ?thesis
      using sorted_ins_own [of "\<lambda>x. priority (tasks ?s x)" "L h" c] distinct_ins [of "L h" c] not(1)
      by (simp only: by_priority_abs set_ins) blast
  qed (auto simp: waits_in_def split: option.split)
  show "times_out c timeout s TL = TL \<or>
      set (times_out c timeout s TL) = insert c (set TL) \<and> distinct (times_out c timeout s TL) \<and>
      sorted_wrt (by_time ?s) (times_out c timeout s TL)"
  proof (cases "timeout = OS_WAIT_FOREVER")
    case False
    have srt: "sorted_wrt (by_time ?s) TL" "distinct TL"
      using inv3 by (simp_all add: data_inv_def timed_sorted_def)
    have "tins (\<lambda>x. wake (tasks s x) - osTicks s) timeout c TL = tins (left ?s) timeout c TL"
      using not(2) unfolding tins_def
      by (auto simp: left_def intro!: arg_cong2 [of _ _ _ _ append] takeWhile_cong dropWhile_cong)
    moreover have "by_time ?s = (\<lambda>x y. left ?s x \<le> left ?s y)"
      by (simp add: by_time_def fun_eq_iff)
    moreover have "left ?s c = timeout"
      using False by (simp add: left_def)
    ultimately show ?thesis
      using False srt not(2) by (simp add: times_out_def sorted_tins distinct_tins)
  qed (simp add: times_out_def)
  show "c = osIdleTask ?s \<Longrightarrow> state (tasks ?s c) \<in> {OS_TASK_RUNNING, OS_TASK_READY}"
    using w by (simp add: may_wait_def)
  show "owner (mutexes ?s m) \<noteq> Some c" if "state (tasks ?s c) = OS_TASK_DEAD" for m
    using that w by (auto simp: may_wait_def split: option.splits head.splits if_splits)
  show "\<exists>t. owner (mutexes ?s m) = Some t \<and> priority (tasks ?s c) \<le> priority (tasks ?s t)"
    if "c \<in> set (waits_in c list s1 L (MutexHead m))" for m
  proof -
    have "list = Some (MutexHead m)"
      using that not by (auto simp: waits_in_def split: option.splits if_splits)
    then obtain t where "owner (mutexes s m) = Some t" "priority (tasks s c) \<le> priority (tasks s t)"
      using w by (auto simp: may_wait_def)
    moreover have "p \<le> priority (tasks s c)"
      unfolding p by (rule settled_bounds(2)) (rule inv, rule c)
    ultimately show ?thesis by auto
  qed
qed simp

lemma osBlock_inv:
  assumes R: "repr L TL s" and inv: "data_inv {c} L TL OL A s" and nd: "not_due TL s"
    and run: "\<And>t. t \<in> A - {c} \<Longrightarrow> state (tasks s t) \<noteq> OS_TASK_RUNNING"
    and c: "c = osCurrentTask s" "absent c L TL" and w: "may_wait c list s" and time: "timeout \<noteq> 0"
    and p: "p = settled L (OL c) s c" and s1: "s1 = waiting c p list s"
    and n: "L ReadyHead = n # ns"
  shows "returns (osBlock list timeout s)
    (\<lambda>(r, s'). r = Switched \<and>
       kernel_inv ((waits_in c list s1 L)(ReadyHead := ns)) (times_out c timeout s TL) OL A s' \<and>
       data_eq (switched_to n (wait_end c p list timeout s)) s')"
proof -
  let ?L = "waits_in c list s1 L" and ?TL = "times_out c timeout s TL"
  let ?s = "wait_end c p list timeout s"
  have cA: "c \<in> A" using inv c by (simp add: data_inv_def)
  have D: "data_inv {} ?L ?TL OL A ?s"
    by (rule wait_end_data_inv [OF inv cA c(2) w p s1])
  have "\<not> state (tasks ?s c) = OS_TASK_RUNNING"
    using w by (auto simp: may_wait_def split: option.splits head.splits)
  then have run': "running {} A ?s"
    using run by (auto simp: running_def)
  have L: "?L ReadyHead = n # ns"
    using n w by (auto simp: waits_in_def may_wait_def split: option.split)
  have "not_due ?TL ?s"
    using nd time c(2) by (auto simp: not_due_def left_def times_out_def absent_def)
  then have final: "kernel_inv (?L(ReadyHead := ns)) ?TL OL A s'"
    if "repr (?L(ReadyHead := ns)) ?TL s'" "data_eq (switched_to n ?s) s'" for s'
    using dispatch_data_inv [OF D run' L] that parts_data_eq [OF that(2)] data_eqD [OF that(2)]
    by (simp add: kernel_inv_def) (simp add: switched_to_def)
  have ms: "chain (ord s) NextOwned (OwnedBy c) (OL c)"
    using inv cA by (simp add: data_inv_def owners_def)
  have canary: "ram s (stack (tasks s c)) = OS_STACK_FILL"
    using inv cA by (simp add: data_inv_def canaries_def)
  show ?thesis
    using osBlock_spec [OF R ms [unfolded c] canary [unfolded c] _ _ _ p [unfolded c] s1 [unfolded c] n, of timeout]
      c w final
    by (auto simp: absent_def may_wait_def wait_end_def s1 elim!: returns_mono)
qed

end
