(* ===== verification/Priorities.thy ===== *)
theory Priorities
  imports Scheduler_Inv
begin

text \<open>
  Changes of the priority of a task that is on a list: \<open>osRequeue\<close> moves it to its new
  place, \<open>osPriorityRaise\<close> passes the new priority on along the chain of owners of mutexes.
  While it is on its way, one task has waiters more important than itself: \<open>base_inv\<close> is
  the invariant but for that.
\<close>

definition base_inv ::
  "(head \<Rightarrow> addr list) \<Rightarrow> addr list \<Rightarrow> (addr \<Rightarrow> addr list) \<Rightarrow> addr set \<Rightarrow> kernel \<Rightarrow> bool" where
  "base_inv L TL OL A s \<longleftrightarrow>
     placed {} L TL A s \<and> prio_sorted L s \<and> timed_sorted TL s \<and> owners {} L OL A s \<and>
     idle_ok {} A s \<and> canaries A s \<and> osCurrentTask s \<in> A"

lemma data_inv_base:
  "data_inv {} L TL OL A s \<longleftrightarrow> base_inv L TL OL A s \<and> bounded A s \<and> no_inversion L s"
  by (auto simp: data_inv_def base_inv_def)

lemma base_inv_data_eq: "data_eq s s' \<Longrightarrow> base_inv L TL OL A s' = base_inv L TL OL A s"
  by (simp add: base_inv_def parts_data_eq data_eqD)

text \<open>The list of the task, if its place on it depends on its priority.\<close>

definition place :: "kernel \<Rightarrow> addr \<Rightarrow> head option" where
  "place s t =
     (if state (tasks s t) AND OS_TASK_STATE = OS_TASK_READY then Some ReadyHead
      else waitList (tasks s t))"

definition requeued :: "kernel \<Rightarrow> addr \<Rightarrow> (head \<Rightarrow> addr list) \<Rightarrow> head \<Rightarrow> addr list" where
  "requeued s t L =
     (case place s t of
        None \<Rightarrow> L
      | Some l \<Rightarrow> L(l := ins (\<lambda>x. priority (tasks s x)) (priority (tasks s t)) t (remove1 t (L l))))"

lemma place_only:
  assumes "task_placed L TL s t" and "h \<noteq> DeadHead"
  shows "t \<in> set (L h) \<longleftrightarrow> place s t = Some h" and "place s t \<noteq> Some DeadHead"
proof -
  have "state (tasks s t) \<in> valid_states"
    using assms by (simp add: task_placed_def)
  then have rdy: "state (tasks s t) AND OS_TASK_STATE = OS_TASK_READY \<longleftrightarrow> state (tasks s t) = OS_TASK_READY"
    by (auto simp: valid_states_def)
  have none: "waitList (tasks s t) = None" if "state (tasks s t) = OS_TASK_READY"
    using assms(1) that by (auto simp: task_placed_def)
  show "place s t \<noteq> Some DeadHead"
    using assms(1) by (simp add: task_placed_def place_def)
  show "t \<in> set (L h) \<longleftrightarrow> place s t = Some h"
  proof (cases "h = ReadyHead")
    case True
    then show ?thesis
      using assms(1) rdy by (simp add: task_placed_def place_def)
  next
    case False
    then have "t \<in> set (L h) \<longleftrightarrow> waitList (tasks s t) = Some h"
      using assms by (simp add: task_placed_def)
    then show ?thesis
      using False none rdy by (simp add: place_def)
  qed
qed

lemma set_requeued:
  "(\<And>h. place s t = Some h \<Longrightarrow> t \<in> set (L h) \<and> distinct (L h)) \<Longrightarrow> set (requeued s t L h) = set (L h)"
  by (auto simp: requeued_def split: option.split)

lemma requeued_other: "place s t \<noteq> Some h \<Longrightarrow> requeued s t L h = L h"
  by (auto simp: requeued_def split: option.split)

lemma osRequeue_returns:
  assumes R: "repr L TL s" and pl: "task_placed L TL s t" and dead: "t \<notin> set (L DeadHead)"
  shows "returns (osRequeue t s) (\<lambda>s'. repr (requeued s t L) TL s' \<and> data_eq s s')"
proof (cases "place s t")
  case None
  then show ?thesis
    using R osRequeue_none [of s t] by (simp add: requeued_def place_def split: if_splits)
next
  case (Some l)
  have "t \<in> set (L h) \<Longrightarrow> h = l" for h
    using place_only(1) [OF pl, of h] Some dead by (cases "h = DeadHead") auto
  from osRequeue_spec [OF R Some [unfolded place_def] this] show ?thesis
    by (simp add: requeued_def Some)
qed

lemma not_dead:
  assumes "task_placed L TL s t" and "state (tasks s t) \<noteq> OS_TASK_DEAD"
  shows "t \<notin> set (L DeadHead)"
  using assms by (auto simp: task_placed_def)

lemma requeue_base_inv:
  assumes inv: "base_inv L TL OL A s" and t: "t \<in> A" "t \<notin> set (L DeadHead)"
  shows "base_inv (requeued (set_priority t p s) t L) TL OL A (set_priority t p s)"
proof -
  let ?s = "set_priority t p s"
  let ?L = "requeued ?s t L"
  have pl: "task_placed L TL s t" using inv t by (simp add: base_inv_def placed_def)
  have place: "place ?s t = place s t" by (simp add: place_def)
  have dist: "distinct (L h)" for h using inv by (simp add: base_inv_def placed_def)
  have on: "place s t = Some h \<Longrightarrow> t \<in> set (L h) \<and> distinct (L h)" for h
    using place_only(1) [OF pl, of h] place_only(2) [OF pl, of ReadyHead] dist by (cases "h = DeadHead") auto
  have sets: "set (?L h) = set (L h)" for h
    by (rule set_requeued) (use on place in simp)
  have empty: "?L h = [] \<longleftrightarrow> L h = []" for h
    by (metis sets set_empty)
  have d': "distinct (?L h)" for h
    using dist [of h] by (auto simp: requeued_def distinct_ins split: option.split)
  have tp: "task_placed ?L TL ?s x = task_placed L TL s x" for x
    by (simp add: task_placed_def sets)
  have "placed {} ?L TL A ?s"
    using inv by (simp add: base_inv_def placed_def tp d' sets)
  moreover have "prio_sorted ?L ?s"
    unfolding prio_sorted_def
  proof (intro allI impI)
    fix h assume h: "h \<noteq> DeadHead"
    have srt: "sorted_wrt (by_priority s) (L h)"
      using inv h by (simp add: base_inv_def prio_sorted_def)
    have same: "sorted_wrt (by_priority s) xs \<Longrightarrow> t \<notin> set xs \<Longrightarrow> sorted_wrt (by_priority ?s) xs" for xs
      by (auto simp: by_priority_def elim!: sorted_wrt_mono_rel [rotated])
    show "sorted_wrt (by_priority ?s) (?L h)"
    proof (cases "place s t = Some h")
      case True
      have "sorted_wrt (by_priority ?s) (remove1 t (L h))"
        using dist by (intro same sorted_wrt_remove1 srt) simp
      then show ?thesis
        unfolding requeued_def place True by_priority_abs option.case fun_upd_same
        by (rule sorted_ins_own)
    next
      case False
      then show ?thesis
        using same [OF srt] place_only(1) [OF pl h] by (simp add: requeued_other place)
    qed
  qed
  moreover have "timed_sorted TL ?s"
  proof -
    have "by_time ?s = by_time s" by (auto simp: by_time_def left_def fun_eq_iff)
    then show ?thesis using inv by (simp add: base_inv_def timed_sorted_def)
  qed
  moreover have "owners {} ?L OL A ?s"
    using inv by (simp add: base_inv_def owners_def empty)
  moreover have "idle_ok {} A ?s" "canaries A ?s" "osCurrentTask ?s \<in> A"
    using inv by (auto simp: base_inv_def idle_ok_def canaries_def)
  ultimately show ?thesis
    by (simp add: base_inv_def)
qed


section \<open>Raising a priority\<close>

text \<open>\<open>e\<close> is less important than it should be, but it is about to get priority \<open>p\<close>.\<close>

definition inversion_but :: "addr \<Rightarrow> u8 \<Rightarrow> (head \<Rightarrow> addr list) \<Rightarrow> kernel \<Rightarrow> bool" where
  "inversion_but e p L s \<longleftrightarrow>
     (\<forall>m t w. owner (mutexes s m) = Some t \<longrightarrow> w \<in> set (L (MutexHead m)) \<longrightarrow>
        priority (tasks s w) \<le> priority (tasks s t) \<or> (t = e \<and> priority (tasks s w) \<le> p))"

definition bounded_but :: "addr \<Rightarrow> u8 \<Rightarrow> addr set \<Rightarrow> kernel \<Rightarrow> bool" where
  "bounded_but e p A s \<longleftrightarrow>
     (\<forall>t \<in> A. (basePriority (tasks s t) \<le> priority (tasks s t) \<or> (t = e \<and> basePriority (tasks s t) \<le> p)) \<and>
        priority (tasks s t) \<le> OS_PRIORITY_MAX)"

lemma inversion_but_done:
  "inversion_but e p L s \<Longrightarrow> p \<le> priority (tasks s e) \<Longrightarrow> no_inversion L s"
  unfolding inversion_but_def no_inversion_def by (blast intro: order_trans)

lemma bounded_but_done: "bounded_but e p A s \<Longrightarrow> p \<le> priority (tasks s e) \<Longrightarrow> bounded A s"
  unfolding bounded_but_def bounded_def by (blast intro: order_trans)

lemma no_inversion_but: "no_inversion L s \<Longrightarrow> inversion_but e p L s"
  by (auto simp: inversion_but_def no_inversion_def)

lemma bounded_bounded_but: "bounded A s \<Longrightarrow> bounded_but e p A s"
  by (auto simp: bounded_but_def bounded_def)

lemma bounded_but_raised:
  assumes "bounded_but t p A s" and "priority (tasks s t) < p" and "p \<le> OS_PRIORITY_MAX"
  shows "bounded A (set_priority t p s)"
  using assms unfolding bounded_but_def bounded_def by (auto intro: order_trans less_imp_le)

text \<open>Nothing but priorities has changed; \<open>f\<close> are the new ones.\<close>

definition with_priorities :: "(addr \<Rightarrow> u8) \<Rightarrow> kernel \<Rightarrow> kernel" where
  "with_priorities f s = s\<lparr>tasks := \<lambda>x. (tasks s x)\<lparr>priority := f x\<rparr>\<rparr>"

lemma with_priorities_simps [simp]:
  "priority (tasks (with_priorities f s) x) = f x"
  "state (tasks (with_priorities f s) x) = state (tasks s x)"
  "waitList (tasks (with_priorities f s) x) = waitList (tasks s x)"
  "basePriority (tasks (with_priorities f s) x) = basePriority (tasks s x)"
  "result (tasks (with_priorities f s) x) = result (tasks s x)"
  "wait (tasks (with_priorities f s) x) = wait (tasks s x)"
  "wake (tasks (with_priorities f s) x) = wake (tasks s x)"
  "stack (tasks (with_priorities f s) x) = stack (tasks s x)"
  "tmutexes (tasks (with_priorities f s) x) = tmutexes (tasks s x)"
  "mutexes (with_priorities f s) = mutexes s"
  "semaphores (with_priorities f s) = semaphores s"
  "queues (with_priorities f s) = queues s"
  "events (with_priorities f s) = events s"
  "ram (with_priorities f s) = ram s"
  "cont (with_priorities f s) = cont s"
  "osTicks (with_priorities f s) = osTicks s"
  "osCurrentTask (with_priorities f s) = osCurrentTask s"
  "osIdleTask (with_priorities f s) = osIdleTask s"
  by (simp_all add: with_priorities_def)

lemma data_eq_priorities:
  assumes "data_eq s s'"
  shows "data_eq (with_priorities f s) (with_priorities f s')"
  using assms by (simp add: data_eq_def with_priorities_def)

lemma set_priority_priorities:
  "set_priority t p s = with_priorities ((\<lambda>x. priority (tasks s x))(t := p)) s"
  by (auto simp: with_priorities_def task_upd_def fun_eq_iff)

definition raised :: "addr \<Rightarrow> u8 \<Rightarrow> (head \<Rightarrow> addr list) \<Rightarrow> kernel \<Rightarrow> (head \<Rightarrow> addr list) \<Rightarrow> kernel \<Rightarrow> bool" where
  "raised t p L s L' s' \<longleftrightarrow>
     data_eq (with_priorities (\<lambda>x. priority (tasks s' x)) s) s' \<and>
     (\<forall>x. priority (tasks s' x) = priority (tasks s x) \<or>
        priority (tasks s x) < p \<and> priority (tasks s' x) = p) \<and>
     p \<le> priority (tasks s' t) \<and> (\<forall>h. set (L' h) = set (L h)) \<and> L' DeadHead = L DeadHead"

lemma osPriorityRaise_inv:
  assumes "repr L TL s" and "base_inv L TL OL A s" and "inversion_but t p L s"
    and "t \<in> A" and "state (tasks s t) \<noteq> OS_TASK_DEAD" and "p \<le> OS_PRIORITY_MAX"
    and "bounded_but t p A s"
  shows "returns (osPriorityRaise t p s)
    (\<lambda>s'. \<exists>L'. repr L' TL s' \<and> data_inv {} L' TL OL A s' \<and> raised t p L s L' s')"
  using assms
proof (induction "card {x. priority (tasks s x) < p}" arbitrary: t L s rule: less_induct)
  case less
  note R = less.prems(1) and inv = less.prems(2) and pi = less.prems(3) and t = less.prems(4,5)
    and p = less.prems(6) and bnd = less.prems(7)
  show ?case
  proof (cases "priority (tasks s t) < p")
    case False
    then have "data_inv {} L TL OL A s"
      using inv inversion_but_done [OF pi] bounded_but_done [OF bnd] by (simp add: data_inv_base)
    moreover have "raised t p L s L s"
      using False by (simp add: raised_def with_priorities_def)
    ultimately show ?thesis
      using False R by (subst osPriorityRaise.simps) auto
  next
    case True
    let ?s1 = "set_priority t p s"
    let ?L1 = "requeued ?s1 t L"
    have pl: "task_placed L TL s t" using inv t by (simp add: base_inv_def placed_def)
    then have dead: "t \<notin> set (L DeadHead)" by (rule not_dead) (rule t)
    have inv1: "base_inv ?L1 TL OL A ?s1"
      by (intro requeue_base_inv inv t dead)
    have bnd1: "bounded A ?s1" by (rule bounded_but_raised [OF bnd True p])
    have R1: "repr L TL ?s1" using R by simp
    have pl1: "task_placed L TL ?s1 t" using pl by (simp add: task_placed_def)
    note req = osRequeue_returns [OF R1 pl1 dead]
    have dist: "distinct (L h)" for h using inv by (simp add: base_inv_def placed_def)
    have sets: "set (?L1 h) = set (L h)" for h
    proof (rule set_requeued)
      fix h assume h: "place ?s1 t = Some h"
      with place_only(1) [OF pl1, of h] place_only(2) [OF pl1, of ReadyHead] dist
      show "t \<in> set (L h) \<and> distinct (L h)" by (cases "h = DeadHead") auto
    qed
    have dead1: "?L1 DeadHead = L DeadHead"
      using place_only(2) [OF pl1, of ReadyHead] by (auto intro: requeued_other)
    have one: "raised t p L s ?L1 s1" if "data_eq ?s1 s1" for s1
    proof -
      have "with_priorities (\<lambda>x. priority (tasks s1 x)) s = ?s1"
        using data_eqD(7) [OF that] by (auto simp: set_priority_priorities fun_eq_iff intro!: arg_cong2 [of _ _ _ _ with_priorities])
      then show ?thesis
        using True that data_eqD(7) [OF that] by (auto simp: raised_def sets dead1)
    qed
    show ?thesis
    proof (cases "state (tasks s t) AND OS_TASK_MUTEX \<noteq> 0")
      case False
      have "no_inversion ?L1 ?s1"
        unfolding no_inversion_def
      proof (intro allI impI)
        fix m t' w
        assume o': "owner (mutexes ?s1 m) = Some t'" and w: "w \<in> set (?L1 (MutexHead m))"
        have "w \<noteq> t"
          using w pl False by (auto simp: sets task_placed_def)
        moreover have "priority (tasks s w) \<le> priority (tasks s t') \<or> t' = t \<and> priority (tasks s w) \<le> p"
          using pi o' w unfolding inversion_but_def sets by simp
        ultimately show "priority (tasks ?s1 w) \<le> priority (tasks ?s1 t')"
          using True by (cases "t' = t") (auto intro: order_trans less_imp_le)
      qed
      then have "data_inv {} ?L1 TL OL A ?s1" using inv1 bnd1 by (simp add: data_inv_base)
      then show ?thesis
        using req True one False
        by (subst osPriorityRaise.simps)
          (auto simp: parts_data_eq data_eqD elim!: returns_mono)
    next
      case mutex: True
      then obtain m where m: "waitList (tasks s t) = Some (MutexHead m)"
        using pl by (auto simp: task_placed_def)
      then have tm: "t \<in> set (L (MutexHead m))"
        using pl by (simp add: task_placed_def)
      obtain e where e: "owner (mutexes s m) = Some e" "e \<in> A" "state (tasks s e) \<noteq> OS_TASK_DEAD"
      proof -
        have own: "owners {} L OL A s" using inv by (simp add: base_inv_def)
        moreover have "L (MutexHead m) \<noteq> []" using tm by auto
        ultimately have "owner (mutexes s m) \<noteq> None" unfolding owners_def by blast
        then obtain e where "owner (mutexes s m) = Some e" by auto
        with own that show ?thesis unfolding owners_def by auto
      qed
      have pi1: "inversion_but e p ?L1 ?s1"
        unfolding inversion_but_def
      proof (intro allI impI)
        fix m' t' w
        assume o': "owner (mutexes ?s1 m') = Some t'" and w: "w \<in> set (?L1 (MutexHead m'))"
        show "priority (tasks ?s1 w) \<le> priority (tasks ?s1 t') \<or> t' = e \<and> priority (tasks ?s1 w) \<le> p"
        proof (cases "w = t")
          case True
          then have "m' = m" using w pl m by (auto simp: sets task_placed_def)
          then show ?thesis using True o' e by simp
        next
          case False
          moreover have "priority (tasks s w) \<le> priority (tasks s t') \<or> t' = t \<and> priority (tasks s w) \<le> p"
            using pi o' w unfolding inversion_but_def sets by simp
          ultimately show ?thesis
            using \<open>priority (tasks s t) < p\<close> by (cases "t' = t") (auto intro: order_trans less_imp_le)
        qed
      qed
      have step: "returns (osPriorityRaise e p s1)
          (\<lambda>s'. \<exists>L'. repr L' TL s' \<and> data_inv {} L' TL OL A s' \<and> raised t p L s L' s')"
        if s1: "repr ?L1 TL s1" "data_eq ?s1 s1" for s1
      proof -
        have "{x. priority (tasks s1 x) < p} \<subset> {x. priority (tasks s x) < p}"
          using True data_eqD(7) [OF s1(2)] by auto
        then have "card {x. priority (tasks s1 x) < p} < card {x. priority (tasks s x) < p}"
          by (intro psubset_card_mono) simp_all
        moreover have "base_inv ?L1 TL OL A s1"
          using inv1 by (simp add: base_inv_data_eq [OF s1(2)])
        moreover have "inversion_but e p ?L1 s1"
          using pi1 by (simp add: inversion_but_def data_eqD [OF s1(2)])
        moreover have "bounded_but e p A s1"
          using bounded_bounded_but [OF bnd1, of e p] by (simp add: bounded_but_def data_eqD [OF s1(2)])
        moreover have "state (tasks s1 e) \<noteq> OS_TASK_DEAD"
          using e by (auto simp: data_eqD [OF s1(2)])
        ultimately have "returns (osPriorityRaise e p s1)
            (\<lambda>s'. \<exists>L'. repr L' TL s' \<and> data_inv {} L' TL OL A s' \<and> raised e p ?L1 s1 L' s')"
          using s1(1) e p by (intro less.hyps) auto
        moreover have "raised t p L s L' s'" if "raised e p ?L1 s1 L' s'" for L' s'
        proof -
          have "data_eq (with_priorities (\<lambda>x. priority (tasks s' x)) s) (with_priorities (\<lambda>x. priority (tasks s' x)) s1)"
            using s1(2) by (auto simp: data_eq_def with_priorities_def task_upd_def)
          moreover have "priority (tasks s1 x) = (if x = t then p else priority (tasks s x))" for x
            using data_eqD(7) [OF s1(2), of x] by simp
          ultimately show ?thesis
            using that one [OF s1(2)] True
            unfolding raised_def sets dead1 by (smt (verit, best) data_eq_trans order_less_imp_le order.refl)
        qed
        ultimately show ?thesis by (auto elim!: returns_mono)
      qed
      have unfold: "osPriorityRaise t p s = Option.bind (osRequeue t ?s1) (\<lambda>s1. osPriorityRaise e p s1)"
        using req
      proof (rule returnsE)
        fix s1 assume s1: "osRequeue t ?s1 = Some s1" "repr ?L1 TL s1 \<and> data_eq ?s1 s1"
        note d = data_eqD [OF conjunct2 [OF s1(2)]]
        have "state (tasks s1 t) = state (tasks s t)" "waitList (tasks s1 t) = Some (MutexHead m)"
            "owner (mutexes s1 m) = Some e"
          using m e by (simp_all add: d)
        then show ?thesis
          using True mutex s1(1) by (subst osPriorityRaise.simps) simp
      qed
      show ?thesis
        unfolding unfold returns_bind by (rule returns_mono [OF req]) (use step in blast)
    qed
  qed
qed


section \<open>Lowering a priority\<close>

lemma inherited_bounds:
  assumes inv: "base_inv L TL OL A s"
  shows "basePriority (tasks s t) \<le> inherited L (OL t) s t"
    and "owner (mutexes s m) = Some t \<Longrightarrow> w \<in> set (L (MutexHead m)) \<Longrightarrow>
      priority (tasks s w) \<le> inherited L (OL t) s t"
    and "bounded A s \<Longrightarrow> no_inversion L s \<Longrightarrow> t \<in> A \<Longrightarrow> inherited L (OL t) s t \<le> priority (tasks s t)"
    and "(\<And>x. x \<in> A \<Longrightarrow> priority (tasks s x) \<le> OS_PRIORITY_MAX) \<Longrightarrow>
      basePriority (tasks s t) \<le> OS_PRIORITY_MAX \<Longrightarrow> inherited L (OL t) s t \<le> OS_PRIORITY_MAX"
proof -
  have own: "m \<in> set (OL t) \<longleftrightarrow> owner (mutexes s m) = Some t" for m
    using inv by (simp add: base_inv_def owners_def)
  have inA: "w \<in> set (L h) \<Longrightarrow> w \<in> A" for w h
    using inv by (auto simp: base_inv_def placed_def)
  show "basePriority (tasks s t) \<le> inherited L (OL t) s t"
    by (simp add: inherited_def inherit_base)
  show "priority (tasks s w) \<le> inherited L (OL t) s t"
    if m: "owner (mutexes s m) = Some t" and w: "w \<in> set (L (MutexHead m))"
  proof -
    obtain w' ws where ws: "L (MutexHead m) = w' # ws" using w by (cases "L (MutexHead m)") auto
    have "sorted_wrt (by_priority s) (L (MutexHead m))"
      using inv by (simp add: base_inv_def prio_sorted_def)
    with ws w have "priority (tasks s w) \<le> priority (tasks s w')"
      by (auto simp: by_priority_def)
    also have "\<dots> \<le> inherited L (OL t) s t"
      using inherit_waiter [of m "OL t" L w' ws] own m ws by (simp add: inherited_def)
    finally show ?thesis .
  qed
  show "inherited L (OL t) s t \<le> priority (tasks s t)"
    if "bounded A s" "no_inversion L s" "t \<in> A"
    unfolding inherited_def using that own
    by (intro inherit_least) (auto simp: bounded_def no_inversion_def)
  show "inherited L (OL t) s t \<le> OS_PRIORITY_MAX"
    if b: "\<And>x. x \<in> A \<Longrightarrow> priority (tasks s x) \<le> OS_PRIORITY_MAX"
      "basePriority (tasks s t) \<le> OS_PRIORITY_MAX"
    unfolding inherited_def
  proof (rule inherit_least)
    show "basePriority (tasks s t) \<le> OS_PRIORITY_MAX" by (rule b(2))
    show "priority (tasks s w) \<le> OS_PRIORITY_MAX" if "L (MutexHead m) = w # ws" for m w ws
      using inA [of w "MutexHead m"] that b(1) by auto
  qed
qed

lemma lower_data_inv:
  assumes inv: "base_inv L TL OL A s" and bnd: "bounded A s" and pi: "no_inversion L s"
    and t: "t \<in> A" "t \<notin> set (L DeadHead)"
    and p: "p \<le> priority (tasks s t)" "basePriority (tasks s t) \<le> p"
    and w: "\<And>m w. owner (mutexes s m) = Some t \<Longrightarrow> w \<in> set (L (MutexHead m)) \<Longrightarrow> priority (tasks s w) \<le> p"
  shows "data_inv {} (requeued (set_priority t p s) t L) TL OL A (set_priority t p s)"
proof -
  let ?s = "set_priority t p s"
  have inv1: "base_inv (requeued ?s t L) TL OL A ?s" by (rule requeue_base_inv [OF inv t])
  have pl: "task_placed L TL ?s t" using inv t by (simp add: base_inv_def placed_def task_placed_def)
  have sets: "set (requeued ?s t L h) = set (L h)" for h
  proof (rule set_requeued)
    fix h assume h: "place ?s t = Some h"
    have "distinct (L h)" using inv by (simp add: base_inv_def placed_def)
    with h place_only(1) [OF pl, of h] place_only(2) [OF pl, of ReadyHead]
    show "t \<in> set (L h) \<and> distinct (L h)" by (cases "h = DeadHead") auto
  qed
  have "bounded A ?s" using bnd p by (auto simp: bounded_def intro: order_trans)
  moreover have "no_inversion (requeued ?s t L) ?s"
    unfolding no_inversion_def sets
  proof (intro allI impI)
    fix m t' x
    assume o': "owner (mutexes ?s m) = Some t'" and x: "x \<in> set (L (MutexHead m))"
    have "priority (tasks s x) \<le> priority (tasks s t')"
      using pi o' x unfolding no_inversion_def by simp
    then show "priority (tasks ?s x) \<le> priority (tasks ?s t')"
      using w [of m x] o' x p(1) by (auto intro: order_trans)
  qed
  ultimately show ?thesis using inv1 by (simp add: data_inv_base)
qed

end
