(* ===== verification/Rest.thy ===== *)
theory Rest
  imports Priorities
begin

text \<open>
  The kernel between two operations: \<open>rest\<close> is the invariant every operation starts from and
  leads to, \<open>top_runs\<close> says that nobody who is ready is more important than the running task,
  \<open>objects_ok\<close> says whom the tasks waiting for semaphores, queues and events wait for. The
  lemmas put together what operations do when they end with \<open>osSchedule\<close> or \<open>osBlock\<close>.
\<close>

section \<open>The predicates\<close>

definition rest :: "addr set \<Rightarrow> kernel \<Rightarrow> bool" where
  "rest A s \<longleftrightarrow>
     (\<exists>L TL OL. kernel_inv L TL OL A s) \<and> (\<forall>t \<in> A. t \<noteq> osCurrentTask s \<longrightarrow> cont s t \<noteq> None)"

definition top_runs :: "addr set \<Rightarrow> kernel \<Rightarrow> bool" where
  "top_runs A s \<longleftrightarrow>
     (\<forall>t \<in> A. state (tasks s t) = OS_TASK_READY \<longrightarrow>
        priority (tasks s t) \<le> priority (tasks s (osCurrentTask s)))"

text \<open>Nobody but \<open>C\<close> has begun to wait, and no semaphore, queue or event has changed.\<close>

definition calm_but :: "addr set \<Rightarrow> kernel \<Rightarrow> kernel \<Rightarrow> bool" where
  "calm_but C s s' \<longleftrightarrow>
     (\<forall>t. t \<notin> C \<longrightarrow> waitList (tasks s' t) \<noteq> None \<longrightarrow>
        waitList (tasks s' t) = waitList (tasks s t) \<and> wait (tasks s' t) = wait (tasks s t)) \<and>
     (\<forall>x. s_count (semaphores s' x) = s_count (semaphores s x) \<and>
        s_limit (semaphores s' x) = s_limit (semaphores s x) \<and>
        buffer (queues s' x) = buffer (queues s x) \<and>
        itemSize (queues s' x) = itemSize (queues s x) \<and>
        q_length (queues s' x) = q_length (queues s x) \<and>
        q_count (queues s' x) = q_count (queues s x) \<and>
        q_head (queues s' x) = q_head (queues s x) \<and>
        e_flags (events s' x) = e_flags (events s x)) \<and>
     (\<forall>t. stack (tasks s' t) = stack (tasks s t)) \<and> osIdleTask s' = osIdleTask s"

abbreviation calm :: "kernel \<Rightarrow> kernel \<Rightarrow> bool" where
  "calm \<equiv> calm_but {}"

lemma calm_refl [simp]: "calm_but C s s"
  by (simp add: calm_but_def)

lemma calm_trans: "calm_but C s s' \<Longrightarrow> calm_but D s' s'' \<Longrightarrow> calm_but (C \<union> D) s s''"
  by (simp add: calm_but_def)

lemma calm_calm [trans]: "calm s s' \<Longrightarrow> calm s' s'' \<Longrightarrow> calm s s''"
  using calm_trans [of "{}" s s' "{}" s''] by simp

lemma data_eq_calm: "data_eq s s' \<Longrightarrow> calm s s'"
  by (simp add: calm_but_def data_eqD)

lemma calm_data_eq: "calm_but C s s' \<Longrightarrow> data_eq s' s'' \<Longrightarrow> calm_but C s s''"
  using calm_trans [OF _ data_eq_calm] by fastforce

lemma calm_task_upd:
  "(waitList (f (tasks s t)) \<noteq> None \<Longrightarrow>
      waitList (f (tasks s t)) = waitList (tasks s t) \<and> wait (f (tasks s t)) = wait (tasks s t)) \<Longrightarrow>
   stack (f (tasks s t)) = stack (tasks s t) \<Longrightarrow> calm s (task_upd t f s)"
  by (simp add: calm_but_def)

definition same_owners :: "kernel \<Rightarrow> kernel \<Rightarrow> bool" where
  "same_owners s s' \<longleftrightarrow> (\<forall>m. owner (mutexes s' m) = owner (mutexes s m))"

lemma data_eq_owners: "data_eq s s' \<Longrightarrow> same_owners s s'"
  by (simp add: same_owners_def data_eqD)

text \<open>Nothing has happened but that some of the tasks that were waiting are ready now.\<close>

definition wakes :: "kernel \<Rightarrow> kernel \<Rightarrow> bool" where
  "wakes s s' \<longleftrightarrow>
     calm s s' \<and> osTicks s' = osTicks s \<and> osCurrentTask s' = osCurrentTask s \<and> cont s' = cont s \<and>
     (\<forall>x. wake (tasks s' x) = wake (tasks s x) \<and> priority (tasks s' x) = priority (tasks s x) \<and>
        basePriority (tasks s' x) = basePriority (tasks s x) \<and> dynamic (tasks s' x) = dynamic (tasks s x)) \<and>
     (\<forall>x. state (tasks s' x) = state (tasks s x) \<and> waitList (tasks s' x) = waitList (tasks s x) \<and>
          result (tasks s' x) = result (tasks s x) \<or>
        waitList (tasks s x) \<noteq> None \<and> state (tasks s' x) = OS_TASK_READY \<and> waitList (tasks s' x) = None)"

lemma wakesD:
  assumes "wakes s s'"
  shows "calm s s'" and "osTicks s' = osTicks s" and "osCurrentTask s' = osCurrentTask s"
    and "cont s' = cont s" and "wake (tasks s' x) = wake (tasks s x)"
    and "priority (tasks s' x) = priority (tasks s x)"
    and "basePriority (tasks s' x) = basePriority (tasks s x)"
    and "dynamic (tasks s' x) = dynamic (tasks s x)"
    and "state (tasks s' x) = state (tasks s x) \<or>
      waitList (tasks s x) \<noteq> None \<and> state (tasks s' x) = OS_TASK_READY"
    and "waitList (tasks s x) = None \<Longrightarrow> state (tasks s' x) = state (tasks s x) \<and>
      waitList (tasks s' x) = None \<and> result (tasks s' x) = result (tasks s x)"
  using assms by (auto simp: wakes_def dest: spec [of _ x])

lemma wakes_refl [simp]: "wakes s s"
  by (simp add: wakes_def)

lemma wakes_trans: "wakes s s' \<Longrightarrow> wakes s' s'' \<Longrightarrow> wakes s s''"
  unfolding wakes_def by (metis calm_calm)

lemma wakes_data_eq: "data_eq s s' \<Longrightarrow> wakes s s'"
  by (simp add: wakes_def data_eq_calm data_eqD)

lemma wakes_woken:
  assumes "waitList (tasks s w) \<noteq> None" and "data_eq (woken w v s) s'"
  shows "wakes s s'"
proof -
  have "wakes s (woken w v s)"
    using assms(1) by (auto simp: wakes_def woken_def calm_but_def)
  then show ?thesis using wakes_data_eq [OF assms(2)] wakes_trans by blast
qed

lemma wakes_left: "wakes s s' \<Longrightarrow> left s' = left s"
  by (simp add: wakes_def left_def fun_eq_iff)

lemma wakes_not_due: "wakes s s' \<Longrightarrow> not_due TL s \<Longrightarrow> set TL' \<subseteq> set TL \<Longrightarrow> not_due TL' s'"
  by (auto simp: not_due_def wakes_left)

definition event_match :: "u8 \<Rightarrow> u8 \<Rightarrow> u8 \<Rightarrow> bool" where
  "event_match flags wanted options \<longleftrightarrow>
     (if options AND OS_EVENT_ALL \<noteq> 0 then flags AND wanted = wanted \<and> wanted \<noteq> 0
      else flags AND wanted \<noteq> 0)"

definition objects_ok :: "addr set \<Rightarrow> kernel \<Rightarrow> bool" where
  "objects_ok A s \<longleftrightarrow>
     (\<forall>t \<in> A. \<forall>m. waitList (tasks s t) = Some (SemHead m) \<longrightarrow> s_count (semaphores s m) = 0) \<and>
     (\<forall>t \<in> A. \<forall>q. waitList (tasks s t) = Some (QueueHead q) \<longrightarrow>
        q_count (queues s q) = 0 \<or> q_count (queues s q) = q_length (queues s q)) \<and>
     (\<forall>t \<in> A. \<forall>e. waitList (tasks s t) = Some (EventHead e) \<longrightarrow>
        \<not> event_match (e_flags (events s e)) (wait_flags (wait (tasks s t))) (wait_options (wait (tasks s t)))) \<and>
     (\<forall>m. s_count (semaphores s m) \<le> s_limit (semaphores s m)) \<and>
     (\<forall>q. q_count (queues s q) \<le> q_length (queues s q)) \<and>
     (\<forall>q. q_head (queues s q) < q_length (queues s q) \<or> q_head (queues s q) = 0)"

lemma objects_ok_calm: "objects_ok A s \<Longrightarrow> calm s s' \<Longrightarrow> objects_ok A s'"
  unfolding objects_ok_def calm_but_def by (auto 0 3)

section \<open>Continuations\<close>

lemma returns_leave:
  "returns (leave t k go m) P \<longleftrightarrow>
   returns m (\<lambda>(r, s). case r of Returned v \<Rightarrow> returns (go v s) P | Switched \<Rightarrow> P (Switched, save t k s))"
  by (cases m) (auto simp: leave_def split: outcome.split)

text \<open>What the invariant depends on.\<close>

lemma kernel_inv_cong:
  assumes rd: "rd s' = rd s" and trd: "trd s' = trd s"
    and m: "\<And>t. waitList (tasks s' t) = waitList (tasks s t)"
      "\<And>t. wake (tasks s' t) = wake (tasks s t)" "\<And>t. state (tasks s' t) = state (tasks s t)"
      "\<And>t. priority (tasks s' t) = priority (tasks s t)"
      "\<And>t. basePriority (tasks s' t) = basePriority (tasks s t)"
      "\<And>t. tmutexes (tasks s' t) = tmutexes (tasks s t)" "\<And>t. stack (tasks s' t) = stack (tasks s t)"
      "\<And>x. owner (mutexes s' x) = owner (mutexes s x)"
      "\<And>x. nextOwned (mutexes s' x) = nextOwned (mutexes s x)"
      "osIdleTask s' = osIdleTask s" "osCurrentTask s' = osCurrentTask s" "osTicks s' = osTicks s"
    and ram: "\<And>t. t \<in> A \<Longrightarrow> ram s' (stack (tasks s t)) = ram s (stack (tasks s t))"
  shows "kernel_inv L TL OL A s' = kernel_inv L TL OL A s"
proof -
  have "repr L TL s' = repr L TL s" by (rule repr_cong [OF rd trd])
  moreover have "ord s' = ord s" by (rule ord_cong) (simp_all add: m)
  moreover have "left s' = left s" "by_priority s' = by_priority s" "task_placed L TL s' = task_placed L TL s"
    by (simp_all add: by_priority_def left_def task_placed_def fun_eq_iff m)
  moreover have "by_time s' = by_time s" by (simp add: by_time_def fun_eq_iff calculation)
  moreover have "canaries A s' = canaries A s" using ram by (simp add: canaries_def m)
  ultimately show ?thesis
    by (simp add: kernel_inv_def data_inv_def placed_def prio_sorted_def timed_sorted_def not_due_def
        owners_def no_inversion_def bounded_def idle_ok_def running_def m)
qed

lemma kernel_inv_cont:
  "kernel_inv L TL OL A (s\<lparr>cont := f\<rparr>) = kernel_inv L TL OL A s"
  by (rule kernel_inv_cong) (auto intro!: rd_cong trd_cong)

lemma objects_ok_save [simp]: "objects_ok A (save t k s) = objects_ok A s"
  by (simp add: objects_ok_def)

lemma kernel_inv_save [simp]: "kernel_inv L TL OL A (save t k s) = kernel_inv L TL OL A s"
  by (simp add: save_def kernel_inv_cont)

lemma top_runs_save [simp]: "top_runs A (save t k s) = top_runs A s"
  by (simp add: top_runs_def)

lemma same_owners_save [simp]: "same_owners s (save t k s') = same_owners s s'"
  by (simp add: same_owners_def)

lemma calm_save [simp]: "calm_but C s (save t k s') = calm_but C s s'"
  by (simp add: calm_but_def)

lemma rest_current: "rest A s \<Longrightarrow> osCurrentTask s \<in> A \<and> state (tasks s (osCurrentTask s)) = OS_TASK_RUNNING"
  using current_detached by (auto simp: rest_def)

lemma rest_switched:
  assumes "rest A s" and "kernel_inv L TL OL A s'" and "cont s' = cont s"
  shows "rest A (save (osCurrentTask s) k s')"
  using assms by (auto simp: rest_def)

section \<open>Operations that end with a switch\<close>

lemma sorted_top:
  "sorted_wrt (\<lambda>x y. p y \<le> p x) (n # ns) \<Longrightarrow> t \<in> set (n # ns) \<Longrightarrow> (p t :: u8) \<le> p n"
  by auto

lemma top_runs_switched:
  assumes "kernel_inv L TL OL A s'" and "osCurrentTask s' = n"
    and "\<And>t. t \<in> set (L ReadyHead) \<Longrightarrow> priority (tasks s' t) \<le> priority (tasks s' n)"
  shows "top_runs A s'"
  unfolding top_runs_def
proof (intro ballI impI)
  fix t assume "t \<in> A" "state (tasks s' t) = OS_TASK_READY"
  then have "t \<in> set (L ReadyHead)"
    using assms(1) by (auto simp: kernel_inv_def data_inv_def placed_def task_placed_def)
  then show "priority (tasks s' t) \<le> priority (tasks s' (osCurrentTask s'))"
    using assms(2,3) by simp
qed

lemma ready_sorted:
  assumes "data_inv X L TL OL A s"
  shows "sorted_wrt (\<lambda>x y. priority (tasks s y) \<le> priority (tasks s x)) (L ReadyHead)"
  using assms by (simp add: data_inv_def prio_sorted_def by_priority_abs)

lemma not_needed_top:
  assumes K: "kernel_inv L TL OL A s" and y: "y = 0 \<or> y = 1" and idle: "\<not> osScheduleNeeded y s"
  shows "top_runs A s"
proof (rule top_runs_switched [OF K refl])
  fix t assume t: "t \<in> set (L ReadyHead)"
  have R: "repr L TL s" and inv: "data_inv {} L TL OL A s" using K by (simp_all add: kernel_inv_def)
  obtain n ns where n: "L ReadyHead = n # ns" using t by (cases "L ReadyHead") auto
  have nA: "n \<in> A" using inv n by (auto simp: data_inv_def placed_def dest: spec [of _ ReadyHead])
  then have "priority (tasks s n) \<le> 254" using inv by (simp add: data_inv_def bounded_def)
  then have "unat (priority (tasks s n) + 1) = unat (priority (tasks s n)) + 1"
    by (simp add: word_le_nat_alt unat_add_lem [THEN iffD1])
  moreover have "priority (tasks s n) + y \<le> priority (tasks s (osCurrentTask s))"
    using idle repr_ready [OF R] n by (simp add: osScheduleNeeded_def not_less)
  ultimately have "priority (tasks s n) \<le> priority (tasks s (osCurrentTask s))"
    using y by (auto simp: word_le_nat_alt)
  moreover have "priority (tasks s t) \<le> priority (tasks s n)"
    using ready_sorted [OF inv] t unfolding n by (rule sorted_top)
  ultimately show "priority (tasks s t) \<le> priority (tasks s (osCurrentTask s))" by simp
qed

lemma calm_switched [simp]: "calm s (switched_to n s)"
  by (simp add: switched_to_def calm_but_def)

lemma schedule_rest:
  assumes r: "rest A s" and y: "y = 0 \<or> y = 1"
  shows "returns (leave (osCurrentTask s) k (\<lambda>_ s. Some (Returned v, s)) (osSchedule y s))
    (\<lambda>(r, s'). rest A s' \<and> top_runs A s' \<and> calm s s' \<and> same_owners s s')"
proof (cases "osScheduleNeeded y s")
  case False
  then show ?thesis
    using r not_needed_top [OF _ y] by (auto simp: osSchedule_idle returns_leave rest_def same_owners_def)
next
  case needed: True
  from r obtain L TL OL where K: "kernel_inv L TL OL A s" by (auto simp: rest_def)
  have R: "repr L TL s" and inv: "data_inv {} L TL OL A s" using K by (simp_all add: kernel_inv_def)
  define c where "c = osCurrentTask s"
  define s1 where "s1 = preempted c (settled L (OL c) s c) s"
  obtain n ns where n: "L ReadyHead = n # ns"
    using needed_head [OF R needed] by blast
  define ns' where "ns' = ins (\<lambda>x. priority (tasks s1 x)) (priority (tasks s1 c) + 1 - y) c ns"
  have "rest A (save c k s') \<and> top_runs A s' \<and> calm s s' \<and> same_owners s (save c k s')"
    if s': "kernel_inv (L(ReadyHead := ns')) TL OL A s'" "data_eq (switched_to n s1) s'" for s'
  proof -
    note d = data_eqD [OF s'(2)]
    have "cont s' = cont s" by (simp add: d switched_to_def s1_def preempted_def)
    then have "rest A (save c k s')"
      unfolding c_def by (rule rest_switched [OF r s'(1)])
    moreover have cur: "osCurrentTask s' = n" by (simp add: d switched_to_def)
    have "top_runs A s'"
    proof (rule top_runs_switched [OF s'(1) cur])
      fix t assume t: "t \<in> set ((L(ReadyHead := ns')) ReadyHead)"
      have "n \<in> A" using inv n by (auto simp: data_inv_def placed_def dest: spec [of _ ReadyHead])
      then have "n \<noteq> c"
        using current_detached(2) [OF K] n by (auto simp: absent_def c_def dest: spec [of _ ReadyHead])
      then have pn: "priority (tasks s' n) = priority (tasks s n)"
        using d(7) [of n] by (simp add: switched_to_def s1_def preempted_def)
      show "priority (tasks s' t) \<le> priority (tasks s' n)"
      proof (cases "t = c")
        case True
        have "\<not> osScheduleNeeded y s \<or> settled L (OL c) s c \<le> priority (tasks s n)"
        proof -
          have "settled L (OL c) s c + 1 - y \<le> priority (tasks s n)"
            using insert_behind_head [OF settled_bounds(2) [OF inv] _ _ y, of c "priority (tasks s n)"]
              inv needed repr_ready [OF R] n \<open>n \<in> A\<close>
            by (auto simp: c_def data_inv_def bounded_def osScheduleNeeded_def)
          moreover have "settled L (OL c) s c \<le> 254"
            using settled_bounds(2) [OF inv, of c] inv
            by (auto simp: c_def data_inv_def bounded_def intro: order_trans)
          then have "unat (settled L (OL c) s c + 1) = unat (settled L (OL c) s c) + 1"
            by (simp add: word_le_nat_alt unat_add_lem [THEN iffD1])
          ultimately show ?thesis using y by (auto simp: word_le_nat_alt)
        qed
        then show ?thesis
          using True needed pn d(7) [of c] \<open>n \<noteq> c\<close> by (simp add: switched_to_def s1_def preempted_def)
      next
        case False
        with t have "t \<in> set ns" by (simp add: ns'_def)
        then have "priority (tasks s t) \<le> priority (tasks s n)"
          using ready_sorted [OF inv] n by auto
        then show ?thesis
          using False pn d(7) [of t] by (simp add: switched_to_def s1_def preempted_def)
      qed
    qed
    moreover have "calm s s'"
      by (rule calm_data_eq [OF _ s'(2)])
        (auto simp: s1_def preempted_def switched_to_def calm_but_def)
    moreover have "same_owners s (save c k s')"
      by (simp add: same_owners_def d switched_to_def s1_def preempted_def)
    ultimately show ?thesis by simp
  qed
  then show ?thesis
    using osSchedule_inv [OF K y needed c_def s1_def n ns'_def]
    by (auto simp: returns_leave c_def [symmetric] elim!: returns_mono)
qed


text \<open>Giving the processor away changes the state of the two tasks only.\<close>

lemma schedule_states:
  assumes r: "rest A s" and y: "y = 0 \<or> y = 1"
  shows "returns (leave (osCurrentTask s) k (\<lambda>_ s. Some (Returned v, s)) (osSchedule y s))
    (\<lambda>(r, s'). \<forall>x. x \<noteq> osCurrentTask s \<longrightarrow> state (tasks s x) \<noteq> OS_TASK_READY \<longrightarrow>
       state (tasks s' x) = state (tasks s x) \<and> waitList (tasks s' x) = waitList (tasks s x))"
proof (cases "osScheduleNeeded y s")
  case False
  then show ?thesis by (simp add: osSchedule_idle returns_leave)
next
  case needed: True
  from r obtain L TL OL where K: "kernel_inv L TL OL A s" by (auto simp: rest_def)
  then have R: "repr L TL s" and inv: "data_inv {} L TL OL A s" by (simp_all add: kernel_inv_def)
  obtain n ns where n: "L ReadyHead = n # ns" using needed_head [OF R needed] by blast
  have "n \<in> set (L ReadyHead)" by (simp add: n)
  then have "state (tasks s n) = OS_TASK_READY"
    using inv by (auto simp: data_inv_def placed_def task_placed_def)
  then show ?thesis
    using osSchedule_inv [OF K y needed refl refl n refl]
    by (auto simp: returns_leave data_eqD switched_to_def preempted_def elim!: returns_mono)
qed

text \<open>The switch of a task that is not able to run any more.\<close>

lemma dispatch_rest:
  assumes R: "repr L TL s" and inv: "data_inv {} L TL OL A s" and nd: "not_due TL s"
    and run: "running {} A s" and cont: "\<forall>t \<in> A. t \<noteq> osCurrentTask s \<longrightarrow> cont s t \<noteq> None"
  shows "returns (osDispatch s)
    (\<lambda>s'. \<exists>n. state (tasks s n) = OS_TASK_READY \<and> data_eq (switched_to n s) s' \<and>
       rest A (save (osCurrentTask s) k s') \<and> top_runs A s')"
proof -
  obtain n ns where n: "L ReadyHead = n # ns"
    using somebody_ready [OF inv] run by (cases "L ReadyHead") (auto simp: running_def)
  note D = dispatch_data_inv [OF inv run n]
  have canary: "ram s (stack (tasks s (osCurrentTask s))) = OS_STACK_FILL"
    using inv by (simp add: data_inv_def canaries_def)
  have "rest A (save (osCurrentTask s) k s') \<and> top_runs A s'"
    if s': "repr (L(ReadyHead := ns)) TL s'" "data_eq (switched_to n s) s'" for s'
  proof -
    note d = data_eqD [OF s'(2)]
    have cur: "osCurrentTask s' = n" by (simp add: d switched_to_def)
    have K: "kernel_inv (L(ReadyHead := ns)) TL OL A s'"
      using D nd s' parts_data_eq [OF s'(2)] cur by (simp add: kernel_inv_def)
    have "top_runs A s'"
    proof (rule top_runs_switched [OF K cur])
      fix t assume "t \<in> set ((L(ReadyHead := ns)) ReadyHead)"
      then show "priority (tasks s' t) \<le> priority (tasks s' n)"
        using ready_sorted [OF inv] n by (simp add: d switched_to_def)
    qed
    moreover have "rest A (save (osCurrentTask s) k s')"
      using K cont by (auto simp: rest_def d switched_to_def)
    ultimately show ?thesis by simp
  qed
  then show ?thesis
    using osDispatch_spec [OF R n canary] D(4)
    by (auto simp: switched_to_def elim!: returns_mono)
qed

section \<open>Waiting\<close>

text \<open>
  \<open>osBlock\<close> with the current task in state \<open>RUNNING\<close> (or with \<open>OS_TASK_MUTEX\<close> set); the
  idle task does not wait.
\<close>

definition blocked :: "addr \<Rightarrow> head option \<Rightarrow> u16 \<Rightarrow> kernel \<Rightarrow> kernel \<Rightarrow> bool" where
  "blocked c list timeout s s' \<longleftrightarrow>
     calm_but {c} s s' \<and> waitList (tasks s' c) = list \<and> wait (tasks s' c) = wait (tasks s c) \<and>
     (timeout \<noteq> OS_WAIT_FOREVER \<longrightarrow> wake (tasks s' c) = osTicks s + timeout) \<and>
     (timeout = OS_WAIT_FOREVER \<longrightarrow> state (tasks s' c) = state (tasks s c) OR OS_TASK_BLOCKED) \<and>
     same_owners s s'"

lemma block_rest:
  assumes cont: "\<forall>t \<in> A. t \<noteq> osCurrentTask s \<longrightarrow> cont s t \<noteq> None"
    and R: "repr L' TL s" and inv: "data_inv {c} L' TL OL A s" and nd: "not_due TL s"
    and run: "\<And>t. t \<in> A - {c} \<Longrightarrow> state (tasks s t) \<noteq> OS_TASK_RUNNING"
    and c: "c = osCurrentTask s" "absent c L' TL" and w: "may_wait c list s" and time: "timeout \<noteq> 0"
  shows "returns (osBlock list timeout s)
    (\<lambda>(r, s'). r = Switched \<and> rest A (save c k s') \<and> top_runs A s' \<and> blocked c list timeout s s')"
proof -
  define p where "p = settled L' (OL c) s c"
  define s1 where "s1 = waiting c p list s"
  have cA: "c \<in> A" using inv c by (simp add: data_inv_def)
  have idle: "c \<noteq> osIdleTask s" using w by (simp add: may_wait_def)
  obtain n ns where n: "L' ReadyHead = n # ns"
    using somebody_ready [OF inv run] idle by (cases "L' ReadyHead") auto
  have nc: "n \<noteq> c" using c(2) n by (auto simp: absent_def dest: spec [of _ ReadyHead])
  have "rest A (save c k s') \<and> top_runs A s' \<and> blocked c list timeout s s'"
    if s': "kernel_inv ((waits_in c list s1 L')(ReadyHead := ns)) (times_out c timeout s TL) OL A s'"
      "data_eq (switched_to n (wait_end c p list timeout s)) s'" for s'
  proof -
    note d = data_eqD [OF s'(2)]
    have ends: "cont (wait_end c p list timeout s) = cont s" "osCurrentTask s' = n"
      by (simp_all add: d(26) wait_end_def waiting_until_def waiting_def switched_to_def)
    then have "cont s' = cont s" by (simp add: d switched_to_def)
    then have "rest A (save c k s')"
      using s'(1) cont c(1) by (auto simp: rest_def)
    moreover have "top_runs A s'"
    proof (rule top_runs_switched [OF s'(1) ends(2)])
      fix t assume t: "t \<in> set (((waits_in c list s1 L')(ReadyHead := ns)) ReadyHead)"
      then have "t \<noteq> c" using c(2) n by (auto simp: absent_def dest: spec [of _ ReadyHead])
      moreover have "priority (tasks s t) \<le> priority (tasks s n)"
        using t ready_sorted [OF inv] n by auto
      ultimately show "priority (tasks s' t) \<le> priority (tasks s' n)"
        using nc by (simp add: d switched_to_def)
    qed
    moreover have "calm_but {c} s s'"
      by (rule calm_data_eq [OF _ s'(2)])
        (auto simp: wait_end_def waiting_until_def waiting_def switched_to_def calm_but_def)
    moreover have "waitList (tasks s' c) = list" "wait (tasks s' c) = wait (tasks s c)"
        "timeout \<noteq> OS_WAIT_FOREVER \<longrightarrow> wake (tasks s' c) = osTicks s + timeout"
        "timeout = OS_WAIT_FOREVER \<longrightarrow> state (tasks s' c) = state (tasks s c) OR OS_TASK_BLOCKED"
      using nc by (simp_all add: d switched_to_def)
        (simp add: wait_end_def waiting_until_def waiting_def)
    moreover have "same_owners s s'" by (simp add: same_owners_def d switched_to_def)
    ultimately show ?thesis by (simp add: blocked_def)
  qed
  then show ?thesis
    using osBlock_inv [OF R inv nd run c w time p_def s1_def n] by (auto elim!: returns_mono)
qed

lemma objects_ok_blocked:
  assumes "objects_ok A s" and "blocked c list timeout s s'"
    and "\<And>m. list = Some (SemHead m) \<Longrightarrow> s_count (semaphores s m) = 0"
    and "\<And>q. list = Some (QueueHead q) \<Longrightarrow>
      q_count (queues s q) = 0 \<or> q_count (queues s q) = q_length (queues s q)"
    and "\<And>e. list = Some (EventHead e) \<Longrightarrow>
      \<not> event_match (e_flags (events s e)) (wait_flags (wait (tasks s c))) (wait_options (wait (tasks s c)))"
  shows "objects_ok A s'"
proof -
  have b: "t \<noteq> c \<Longrightarrow> waitList (tasks s' t) = Some h \<Longrightarrow>
      waitList (tasks s t) = Some h \<and> wait (tasks s' t) = wait (tasks s t)"
    and c: "waitList (tasks s' c) = list" "wait (tasks s' c) = wait (tasks s c)"
    and o: "s_count (semaphores s' x) = s_count (semaphores s x)"
      "s_limit (semaphores s' x) = s_limit (semaphores s x)"
      "q_length (queues s' x) = q_length (queues s x)" "q_count (queues s' x) = q_count (queues s x)"
      "q_head (queues s' x) = q_head (queues s x)" "e_flags (events s' x) = e_flags (events s x)" for t h x
    using assms(2) unfolding blocked_def calm_but_def by auto
  show ?thesis
    unfolding objects_ok_def o
  proof (intro conjI ballI allI impI)
    fix t m assume "t \<in> A" "waitList (tasks s' t) = Some (SemHead m)"
    then show "s_count (semaphores s m) = 0"
      using assms(1,3) b [of t] c by (cases "t = c") (auto simp: objects_ok_def)
  next
    fix t q assume "t \<in> A" "waitList (tasks s' t) = Some (QueueHead q)"
    then show "q_count (queues s q) = 0 \<or> q_count (queues s q) = q_length (queues s q)"
      using assms(1,4) b [of t] c by (cases "t = c") (auto simp: objects_ok_def)
  next
    fix t e assume "t \<in> A" "waitList (tasks s' t) = Some (EventHead e)"
    then show "\<not> event_match (e_flags (events s e)) (wait_flags (wait (tasks s' t))) (wait_options (wait (tasks s' t)))"
      using assms(1,5) b [of t] c by (cases "t = c") (auto simp: objects_ok_def)
  qed (use assms(1) in \<open>auto simp: objects_ok_def\<close>)
qed

text \<open>Waiting for anything but a mutex, from a state of rest.\<close>

lemma block_rest_simple:
  assumes r: "rest A s" and c: "c = osCurrentTask s" and time: "timeout \<noteq> 0"
    and list: "list \<noteq> Some ReadyHead" "list \<noteq> Some DeadHead" "\<And>m. list \<noteq> Some (MutexHead m)"
  shows "returns (osBlock list timeout s)
    (\<lambda>(r, s'). if c = osIdleTask s then r = Returned (VBool False) \<and> s' = s
       else r = Switched \<and> rest A (save c k s') \<and> top_runs A s' \<and> blocked c list timeout s s')"
proof (cases "c = osIdleTask s")
  case True
  then show ?thesis
    using osBlock_idle [of s list timeout] rest_current [OF r] c by simp
next
  case False
  from r obtain L TL OL where K: "kernel_inv L TL OL A s" by (auto simp: rest_def)
  note cur = current_detached [OF K]
  have "may_wait c list s"
    using False cur list c by (auto simp: may_wait_def split: option.split head.split)
  then show ?thesis
    using False block_rest [OF _ _ cur(1) [folded c] _ _ c cur(2) [folded c] _ time, of list k] K r cur c
    by (auto simp: rest_def kernel_inv_def running_def elim!: returns_mono)
qed


section \<open>Waking up\<close>

lemma waiting_head:
  assumes r: "rest A s" and h: "h \<noteq> ReadyHead" "h \<noteq> DeadHead" and w: "rd s (Head h) = Some w"
  shows "w \<in> A" and "waitList (tasks s w) = Some h"
    and "state (tasks s w) \<noteq> OS_TASK_READY" and "state (tasks s w) \<noteq> OS_TASK_DEAD"
    and "w \<noteq> osCurrentTask s" and "w \<noteq> osIdleTask s"
    and "\<And>t. t \<in> A \<Longrightarrow> waitList (tasks s t) = Some h \<Longrightarrow> priority (tasks s t) \<le> priority (tasks s w)"
proof -
  from r obtain L TL OL where K: "kernel_inv L TL OL A s" by (auto simp: rest_def)
  have R: "repr L TL s" and inv: "data_inv {} L TL OL A s" using K by (simp_all add: kernel_inv_def)
  obtain ws where ws: "L h = w # ws"
    using w R lists_head [of L s h] by (cases "L h") (auto simp: repr_def)
  have pl: "t \<in> A \<Longrightarrow> task_placed L TL s t" for t using inv by (simp add: data_inv_def placed_def)
  show wA: "w \<in> A" using inv ws by (auto simp: data_inv_def placed_def dest: spec [of _ h])
  have "w \<in> set (L h)" by (simp add: ws)
  with pl [OF wA] h show wl: "waitList (tasks s w) = Some h" unfolding task_placed_def by blast
  with pl [OF wA] have st: "state (tasks s w) AND OS_TASK_STATE = OS_TASK_BLOCKED"
    by (simp add: task_placed_def)
  then show "state (tasks s w) \<noteq> OS_TASK_READY" "state (tasks s w) \<noteq> OS_TASK_DEAD" by auto
  have "state (tasks s w) \<noteq> OS_TASK_RUNNING" using st by auto
  then show "w \<noteq> osCurrentTask s" using rest_current [OF r] by auto
  show "w \<noteq> osIdleTask s"
    using inv st by (auto simp: data_inv_def idle_ok_def)
  show "priority (tasks s t) \<le> priority (tasks s w)" if "t \<in> A" "waitList (tasks s t) = Some h" for t
  proof -
    have "t \<in> set (L h)" using pl [OF that(1)] that(2) h unfolding task_placed_def by blast
    moreover have "sorted_wrt (by_priority s) (L h)" using inv h by (simp add: data_inv_def prio_sorted_def)
    ultimately show ?thesis using ws by (auto simp: by_priority_def)
  qed
qed

lemma nobody_waits:
  assumes r: "rest A s" and h: "h \<noteq> ReadyHead" "h \<noteq> DeadHead" and w: "rd s (Head h) = None" and t: "t \<in> A"
  shows "waitList (tasks s t) \<noteq> Some h"
proof -
  from r obtain L TL OL where K: "kernel_inv L TL OL A s" by (auto simp: rest_def)
  then have "L h = []" using w lists_head [of L s h] by (simp add: kernel_inv_def repr_def)
  moreover have "task_placed L TL s t" using K t by (simp add: kernel_inv_def data_inv_def placed_def)
  ultimately show ?thesis using h unfolding task_placed_def by auto
qed

lemma woken_calm: "data_eq (woken t r s) s' \<Longrightarrow> calm s s'"
  by (rule calm_data_eq) (auto simp: woken_def calm_but_def)

lemma wake_kernel_inv:
  assumes K: "kernel_inv L TL OL A s" and t: "t \<in> A" "state (tasks s t) \<noteq> OS_TASK_READY"
      "state (tasks s t) \<noteq> OS_TASK_DEAD" "state (tasks s t) \<noteq> OS_TASK_RUNNING"
  shows "returns (osWake t v s)
    (\<lambda>s'. kernel_inv (made_ready s t (unwaited s t L)) (untimed s t TL) OL A s' \<and> data_eq (woken t v s) s')"
proof -
  have R: "repr L TL s" and inv: "data_inv {} L TL OL A s" using K by (simp_all add: kernel_inv_def)
  have "kernel_inv (made_ready s t (unwaited s t L)) (untimed s t TL) OL A s'"
    if s': "repr (made_ready s t (unwaited s t L)) (untimed s t TL) s'"
      "data_inv {} (made_ready s t (unwaited s t L)) (untimed s t TL) OL A s'"
      "data_eq (woken t v s) s'" for s'
  proof -
    note d = data_eqD [OF s'(3)]
    have cur: "osCurrentTask s' = osCurrentTask s"
      by (simp add: d)
    have "not_due (untimed s t TL) s'"
    proof -
      have "left s' = left s" by (simp add: left_def fun_eq_iff d) (simp add: woken_def)
      then show ?thesis
        using K by (auto simp: not_due_def kernel_inv_def untimed_def dest: set_remove1_subset [THEN subsetD])
    qed
    moreover have "running {osCurrentTask s'} A s'"
      using K t by (auto simp: kernel_inv_def running_def d cur)
    ultimately show ?thesis
      using s' unfolding kernel_inv_def by blast
  qed
  then show ?thesis
    using osWake_inv [OF R inv t(1) _ t(2,3), of v] by (auto elim!: returns_mono)
qed

lemma wake_rest:
  assumes r: "rest A s" and t: "t \<in> A" "state (tasks s t) \<noteq> OS_TASK_READY"
      "state (tasks s t) \<noteq> OS_TASK_DEAD" "state (tasks s t) \<noteq> OS_TASK_RUNNING"
  shows "returns (osWake t v s) (\<lambda>s'. rest A s' \<and> data_eq (woken t v s) s')"
proof -
  from r obtain L TL OL where K: "kernel_inv L TL OL A s" by (auto simp: rest_def)
  have "rest A s'" if "kernel_inv L' TL' OL' A s'" "data_eq (woken t v s) s'" for s' L' TL' OL'
  proof -
    have "osCurrentTask s' = osCurrentTask s" "cont s' = cont s"
      by (simp_all add: data_eqD [OF that(2)]) (simp_all add: woken_def)
    then show ?thesis using that r unfolding rest_def by auto
  qed
  then show ?thesis
    using wake_kernel_inv [OF K t, of v] by (auto elim!: returns_mono)
qed

lemma wake_head_rest:
  assumes r: "rest A s" and h: "h \<noteq> ReadyHead" "h \<noteq> DeadHead" and w: "rd s (Head h) = Some w"
  shows "returns (osWake w v s) (\<lambda>s'. rest A s' \<and> data_eq (woken w v s) s')"
  using waiting_head [OF r h w] rest_current [OF r] r
  by (intro wake_rest)
    (auto simp: rest_def kernel_inv_def running_def)

lemma objects_ok_wake: "objects_ok A s \<Longrightarrow> data_eq (woken t v s) s' \<Longrightarrow> objects_ok A s'"
  using objects_ok_calm woken_calm by blast

text \<open>An update of an object that no list and no task depends on.\<close>

lemma kernel_inv_objects:
  assumes "rd s' = rd s" and "tasks s' = tasks s" and "mutexes s' = mutexes s"
    and "osTimerList s' = osTimerList s" and "osIdleTask s' = osIdleTask s"
    and "osCurrentTask s' = osCurrentTask s" and "osTicks s' = osTicks s"
    and "\<forall>t \<in> A. ram s' (stack (tasks s t)) = ram s (stack (tasks s t))"
  shows "kernel_inv L TL OL A s' = kernel_inv L TL OL A s"
  using assms trd_cong [of s' s] by (intro kernel_inv_cong) simp_all

lemma rest_objects:
  assumes "rd s' = rd s" and "tasks s' = tasks s" and "mutexes s' = mutexes s"
    and "osTimerList s' = osTimerList s" and "osIdleTask s' = osIdleTask s"
    and "osCurrentTask s' = osCurrentTask s" and "osTicks s' = osTicks s" and "cont s' = cont s"
    and "\<forall>t \<in> A. ram s' (stack (tasks s t)) = ram s (stack (tasks s t))"
  shows "rest A s' = rest A s"
  using kernel_inv_objects [OF assms(1-7,9)] assms by (simp add: rest_def)


text \<open>The member \<open>wait\<close> of a task that does not wait.\<close>

lemma kernel_inv_set_wait [simp]: "kernel_inv L TL OL A (set_wait t v s) = kernel_inv L TL OL A s"
  by (rule kernel_inv_cong) simp_all

lemma rest_set_wait [simp]: "rest A (set_wait t v s) = rest A s"
  by (simp add: rest_def)

lemma running_waits_for_nothing: "rest A s \<Longrightarrow> waitList (tasks s (osCurrentTask s)) = None"
  using current_detached(3) by (auto simp: rest_def)

text \<open>What the calls end with that may have woken somebody up.\<close>

lemma schedule_ok:
  assumes "rest A s" and "objects_ok A s" and "y = 0 \<or> y = 1"
  shows "returns (leave (osCurrentTask s) k (\<lambda>_ s. Some (Returned v, s)) (osSchedule y s))
    (\<lambda>(r, s'). rest A s' \<and> objects_ok A s' \<and> top_runs A s' \<and> calm s s' \<and> same_owners s s')"
  using schedule_rest [OF assms(1,3), of k v] objects_ok_calm [OF assms(2)]
  by (auto elim!: returns_mono)

section \<open>Changing priorities\<close>

lemma kernel_inv_priorities:
  assumes K: "not_due TL s" "running {osCurrentTask s} A s"
    and s': "repr L' TL s'" "data_inv {} L' TL OL A s'" and d: "data_eq (with_priorities f s) s'"
  shows "kernel_inv L' TL OL A s'"
proof -
  note d = data_eqD [OF d]
  have "left s' = left s" by (simp add: left_def fun_eq_iff d)
  then have "not_due TL s'" using K by (simp add: not_due_def)
  moreover have "running {osCurrentTask s'} A s'" using K by (simp add: running_def d)
  ultimately show ?thesis using s' by (simp add: kernel_inv_def)
qed

lemma rest_priorities:
  assumes r: "\<forall>t \<in> A. t \<noteq> osCurrentTask s \<longrightarrow> cont s t \<noteq> None"
    and K: "kernel_inv L' TL OL A s'" and d: "data_eq (with_priorities f s) s'"
  shows "rest A s'" and "calm s s'" and "osCurrentTask s' = osCurrentTask s" and "same_owners s s'"
proof -
  note e = data_eqD [OF d]
  show "osCurrentTask s' = osCurrentTask s" by (simp add: e)
  then show "rest A s'" using r K by (auto simp: rest_def e)
  show "calm s s'" by (simp add: calm_but_def e with_priorities_def)
  show "same_owners s s'" by (simp add: same_owners_def e)
qed

text \<open>What a task inherits at rest, without the lists.\<close>

lemma inherited_rest:
  assumes r: "rest A s" and t: "t \<in> A"
  shows "returns (osInheritedPriority t s)
    (\<lambda>p. basePriority (tasks s t) \<le> p \<and> p \<le> priority (tasks s t) \<and>
       (\<forall>m. \<forall>w \<in> A. owner (mutexes s m) = Some t \<longrightarrow> waitList (tasks s w) = Some (MutexHead m) \<longrightarrow>
          priority (tasks s w) \<le> p) \<and>
       (p = basePriority (tasks s t) \<or>
        (\<exists>m. \<exists>w \<in> A. owner (mutexes s m) = Some t \<and> waitList (tasks s w) = Some (MutexHead m) \<and>
           p = priority (tasks s w))))"
proof -
  from r obtain L TL OL where K: "kernel_inv L TL OL A s" by (auto simp: rest_def)
  then have R: "repr L TL s" and inv: "data_inv {} L TL OL A s" by (simp_all add: kernel_inv_def)
  then have base: "base_inv L TL OL A s" and bp: "bounded A s" "no_inversion L s"
    by (simp_all add: data_inv_base)
  have o: "owners {} L OL A s" and pl: "placed {} L TL A s" using base by (simp_all add: base_inv_def)
  have ch: "chain (ord s) NextOwned (OwnedBy t) (OL t)" using o t by (simp add: owners_def)
  have wl: "x \<in> set (L (MutexHead m)) \<longleftrightarrow> waitList (tasks s x) = Some (MutexHead m)" if "x \<in> A" for x m
    using pl that unfolding placed_def task_placed_def by blast
  have sub: "set (L h) \<subseteq> A" for h using pl unfolding placed_def by blast
  have own: "m \<in> set (OL t) \<longleftrightarrow> owner (mutexes s m) = Some t" for m using o unfolding owners_def by blast
  note b = inherited_bounds [OF base, where t = t]
  have "inherited L (OL t) s t = basePriority (tasks s t) \<or>
    (\<exists>m. \<exists>w \<in> A. owner (mutexes s m) = Some t \<and> waitList (tasks s w) = Some (MutexHead m) \<and>
       inherited L (OL t) s t = priority (tasks s w))"
    using inherit_attained [of "\<lambda>x. priority (tasks s x)" L "OL t" "basePriority (tasks s t)"]
  proof (elim disjE bexE exE conjE)
    fix m w ws
    assume "m \<in> set (OL t)" "L (MutexHead m) = w # ws"
      "inherit (\<lambda>x. priority (tasks s x)) L (OL t) (basePriority (tasks s t)) = priority (tasks s w)"
    moreover from this have "w \<in> A" using sub [of "MutexHead m"] by simp
    ultimately show ?thesis using wl [of w m] own [of m] unfolding inherited_def by auto
  qed (simp add: inherited_def)
  then show ?thesis
    using osInheritedPriority_spec [OF R ch] b(1) b(3) [OF bp t] b(2) wl by auto
qed

text \<open>The priority of a task goes down to what it inherits.\<close>

lemma lower_rest:
  assumes r: "rest A s" and K: "kernel_inv L TL OL A s" and t: "t \<in> A" "state (tasks s t) \<noteq> OS_TASK_DEAD"
    and p: "p = inherited L (OL t) s t"
  shows "returns (if p < priority (tasks s t) then osRequeue t (set_priority t p s) else Some s)
    (\<lambda>s'. rest A s' \<and> calm s s' \<and> osCurrentTask s' = osCurrentTask s \<and> same_owners s s' \<and>
       data_eq (set_priority t p s) s')"
proof -
  have R: "repr L TL s" and inv: "data_inv {} L TL OL A s" using K by (simp_all add: kernel_inv_def)
  then have base: "base_inv L TL OL A s" "bounded A s" "no_inversion L s" by (simp_all add: data_inv_base)
  note b = inherited_bounds [OF base(1), where t = t]
  have hi: "p \<le> priority (tasks s t)" unfolding p by (rule b(3) [OF base(2,3) t(1)])
  have pl: "task_placed L TL s t" using inv t by (simp add: data_inv_def placed_def)
  then have dead: "t \<notin> set (L DeadHead)" by (rule not_dead) (rule t)
  have inv1: "data_inv {} (requeued (set_priority t p s) t L) TL OL A (set_priority t p s)"
    by (rule lower_data_inv [OF base t(1) dead hi]) (use b(1,2) in \<open>simp_all add: p\<close>)
  have good: "rest A s' \<and> calm s s' \<and> osCurrentTask s' = osCurrentTask s \<and> same_owners s s'"
    if s': "repr (requeued (set_priority t p s) t L) TL s'" "data_eq (set_priority t p s) s'" for s'
  proof -
    note d = s'(2) [unfolded set_priority_priorities]
    have "kernel_inv (requeued (set_priority t p s) t L) TL OL A s'"
      by (rule kernel_inv_priorities [OF _ _ s'(1) _ d])
        (use K inv1 s'(2) in \<open>simp_all add: parts_data_eq(12) kernel_inv_def\<close>)
    from rest_priorities [OF _ this d] show ?thesis using r by (simp add: rest_def)
  qed
  have same: "data_eq (set_priority t p s) s" if "\<not> p < priority (tasks s t)"
    using that hi by (simp add: same_assignment(1))
  have "returns (osRequeue t (set_priority t p s))
      (\<lambda>s'. repr (requeued (set_priority t p s) t L) TL s' \<and> data_eq (set_priority t p s) s')"
    using R pl by (intro osRequeue_returns dead) (simp_all add: task_placed_def)
  then show ?thesis
    using good same r by (auto simp: same_owners_def elim!: returns_mono)
qed

section \<open>Objects tasks wait for\<close>

text \<open>
  What a semaphore, a queue, an event and a mutex have in common: the first member is the
  list of the tasks waiting, the most important one first.
\<close>

locale waitable =
  fixes head_of :: "addr \<Rightarrow> head"
  assumes apart: "head_of x \<noteq> ReadyHead" "head_of x \<noteq> DeadHead"
begin

lemma most_important:
  assumes "rest A s" and "rd s (Head (head_of x)) = Some w"
  shows "w \<in> A" and "waitList (tasks s w) = Some (head_of x)" and "w \<noteq> osCurrentTask s"
    and "\<And>t. t \<in> A \<Longrightarrow> waitList (tasks s t) = Some (head_of x) \<Longrightarrow>
      priority (tasks s t) \<le> priority (tasks s w)"
  using waiting_head [OF assms(1) apart assms(2)] by auto

lemma hand_over:
  assumes "rest A s" and "rd s (Head (head_of x)) = Some w"
  shows "returns (osWake w v s) (\<lambda>s'. rest A s' \<and> data_eq (woken w v s) s')"
  by (rule wake_head_rest [OF assms(1) apart assms(2)])

lemma nobody:
  assumes "rest A s" and "rd s (Head (head_of x)) = None" and "t \<in> A"
  shows "waitList (tasks s t) \<noteq> Some (head_of x)"
  by (rule nobody_waits [OF assms(1) apart assms(2,3)])

end

interpretation sem: waitable SemHead
  by unfold_locales simp_all

interpretation queue: waitable QueueHead
  by unfold_locales simp_all

interpretation event: waitable EventHead
  by unfold_locales simp_all

interpretation mutex: waitable MutexHead
  by unfold_locales simp_all

end
