(* ===== verification/Memory.thy ===== *)
theory Memory
  imports Rest
begin

text \<open>
  \<^verbatim>\<open>system/memory.c\<close>: pools of blocks of the same size, whose free blocks are linked through
  their first two bytes, and the heap. \<^verbatim>\<open>malloc\<close> of the C library is a parameter: it picks
  the address of a block of the given size from what is allocated already, or fails. \<open>heap\<close>
  is what is allocated, \<open>free\<close> of anything else is undefined (\<open>None\<close>). \<open>osTaskReap\<close> of
  \<^verbatim>\<open>system/tasks.c\<close> is here since \<open>osMalloc\<close> calls it.
\<close>

section \<open>Bytes\<close>

definition load16 :: "addr \<Rightarrow> (addr \<Rightarrow> u8) \<Rightarrow> u16" where
  "load16 a r = push_bit 8 (ucast (r (a + 1))) OR ucast (r a)"

definition store16 :: "addr \<Rightarrow> u16 \<Rightarrow> (addr \<Rightarrow> u8) \<Rightarrow> addr \<Rightarrow> u8" where
  "store16 a v r = r(a := ucast v, a + 1 := ucast (drop_bit 8 v))"

primrec memcpy :: "nat \<Rightarrow> addr \<Rightarrow> addr \<Rightarrow> (addr \<Rightarrow> u8) \<Rightarrow> addr \<Rightarrow> u8" where
  "memcpy 0 dst src r = r"
| "memcpy (Suc n) dst src r = memcpy n (dst + 1) (src + 1) (r(dst := r src))"

primrec memset :: "nat \<Rightarrow> addr \<Rightarrow> u8 \<Rightarrow> (addr \<Rightarrow> u8) \<Rightarrow> addr \<Rightarrow> u8" where
  "memset 0 dst v r = r"
| "memset (Suc n) dst v r = memset n (dst + 1) v (r(dst := v))"

text \<open>A pointer as two bytes, \<open>NULL\<close> is zero.\<close>

definition pointer :: "addr option \<Rightarrow> u16" where
  "pointer p = (case p of None \<Rightarrow> 0 | Some a \<Rightarrow> a)"

definition pointed :: "u16 \<Rightarrow> addr option" where
  "pointed v = (if v = 0 then None else Some v)"

lemma u16_succ_ne [simp]: "a + 1 \<noteq> (a :: u16)" "a \<noteq> a + 1"
  by simp_all

lemma load16_store16 [simp]: "load16 a (store16 a v r) = v"
  by (rule bit_word_eqI, auto simp: load16_def store16_def bit_simps dest: bit_imp_le_length)

lemma pointed_pointer: "p \<noteq> Some 0 \<Longrightarrow> pointed (pointer p) = p"
  by (auto simp: pointed_def pointer_def split: option.splits)

section \<open>Regions\<close>

definition region :: "addr \<Rightarrow> nat \<Rightarrow> addr set" where
  "region a n = {a + of_nat i | i. i < n}"

lemma region_0 [simp]: "region a 0 = {}"
  by (simp add: region_def)

lemma region_Suc: "region a (Suc n) = insert a (region (a + 1) n)"
proof -
  have "(\<exists>i < Suc n. x = a + of_nat i) \<longleftrightarrow> x = a \<or> (\<exists>i < n. x = a + 1 + of_nat i)" for x :: addr
    unfolding less_Suc_eq_0_disj by auto
  then show ?thesis by (auto simp: region_def)
qed

lemma region_mono: "m \<le> n \<Longrightarrow> region a m \<subseteq> region a n"
  by (auto simp: region_def intro: less_le_trans)

lemma of_nat_u16_inj: "of_nat i = (of_nat j :: u16) \<Longrightarrow> i < 65536 \<Longrightarrow> j < 65536 \<Longrightarrow> i = j"
  by (drule arg_cong [where f = unat]) (simp add: unat_of_nat)

lemma region_iff: "n \<le> 65536 \<Longrightarrow> x \<in> region a n \<longleftrightarrow> unat (x - a) < n"
proof
  assume n: "n \<le> 65536" and "x \<in> region a n"
  then obtain i where i: "x = a + of_nat i" "i < n" by (auto simp: region_def)
  then have "unat (x - a) = i" using n by (simp add: unat_of_nat)
  then show "unat (x - a) < n" using i(2) by simp
next
  assume "unat (x - a) < n"
  then show "x \<in> region a n" by (auto simp: region_def intro!: exI [of _ "unat (x - a)"])
qed

lemma region_start: "n < 65536 \<Longrightarrow> a \<notin> region (a + 1) n"
proof
  assume n: "n < 65536" and "a \<in> region (a + 1) n"
  then obtain i where i: "i < n" "a = a + 1 + of_nat i" by (auto simp: region_def)
  then have "of_nat (Suc i) = (of_nat 0 :: u16)" by (simp add: algebra_simps)
  then have "Suc i = 0" by (rule of_nat_u16_inj) (use i n in auto)
  then show False by simp
qed

lemma memcpy_other: "x \<notin> region dst n \<Longrightarrow> memcpy n dst src r x = r x"
  by (induction n arbitrary: dst src r) (auto simp: region_Suc)

lemma memcpy_copied:
  "region dst n \<inter> region src n = {} \<Longrightarrow> n \<le> 65536 \<Longrightarrow> i < n \<Longrightarrow>
   memcpy n dst src r (dst + of_nat i) = r (src + of_nat i)"
proof (induction n arbitrary: dst src r i)
  case 0
  then show ?case by simp
next
  case (Suc n)
  show ?case
  proof (cases i)
    case 0
    have "dst \<notin> region (dst + 1) n" using Suc.prems by (intro region_start) simp
    then show ?thesis by (simp add: 0 memcpy_other)
  next
    case (Suc k)
    have "memcpy n (dst + 1) (src + 1) (r(dst := r src)) (dst + 1 + of_nat k) = (r(dst := r src)) (src + 1 + of_nat k)"
      using Suc.prems Suc by (intro Suc.IH) (auto simp: region_Suc)
    moreover have "src + 1 + of_nat k \<in> region src (Suc n)"
      using Suc.prems(3) Suc by (auto simp: region_def add.assoc intro!: exI [of _ "Suc k"])
    moreover have "dst \<in> region dst (Suc n)" by (simp add: region_Suc)
    ultimately show ?thesis
      using Suc.prems(1) by (auto simp: Suc add.assoc)
  qed
qed

lemma memset_other: "x \<notin> region dst n \<Longrightarrow> memset n dst v r x = r x"
  by (induction n arbitrary: dst r) (auto simp: region_Suc)

lemma memset_set: "n \<le> 65536 \<Longrightarrow> x \<in> region dst n \<Longrightarrow> memset n dst v r x = v"
proof (induction n arbitrary: dst r)
  case 0
  then show ?case by simp
next
  case (Suc n)
  show ?case
  proof (cases "x \<in> region (dst + 1) n")
    case True
    then show ?thesis using Suc by simp
  next
    case False
    then show ?thesis using Suc.prems by (simp add: memset_other region_Suc)
  qed
qed

text \<open>What is written does not hit the end of a stack.\<close>

definition harmless :: "addr set \<Rightarrow> kernel \<Rightarrow> addr set \<Rightarrow> bool" where
  "harmless A s X \<longleftrightarrow> (\<forall>t \<in> A. stack (tasks s t) \<notin> X)"

section \<open>Pools\<close>

definition pool_upd :: "addr \<Rightarrow> addr option \<Rightarrow> kernel \<Rightarrow> kernel" where
  "pool_upd pool v s = s\<lparr>pools := (pools s)(pool := v)\<rparr>"

definition ram_upd :: "((addr \<Rightarrow> u8) \<Rightarrow> addr \<Rightarrow> u8) \<Rightarrow> kernel \<Rightarrow> kernel" where
  "ram_upd f s = s\<lparr>ram := f (ram s)\<rparr>"

primrec osPoolInit_loop :: "nat \<Rightarrow> addr \<Rightarrow> addr \<Rightarrow> u8 \<Rightarrow> kernel \<Rightarrow> kernel" where
  "osPoolInit_loop 0 pool block blockSize s = s"
| "osPoolInit_loop (Suc blocks) pool block blockSize s =
     (let s = ram_upd (store16 block (pointer (pools s pool))) s;
          s = pool_upd pool (Some block) s
      in osPoolInit_loop blocks pool (block + ucast blockSize) blockSize s)"

definition osPoolInit :: "addr \<Rightarrow> addr \<Rightarrow> u8 \<Rightarrow> u8 \<Rightarrow> kernel \<Rightarrow> kernel" where
  "osPoolInit pool memory blockSize blocks s =
     osPoolInit_loop (unat blocks) pool memory blockSize (pool_upd pool None s)"

definition osPoolAlloc :: "addr \<Rightarrow> kernel \<Rightarrow> addr option \<times> kernel" where
  "osPoolAlloc pool s =
     (case pools s pool of
        None \<Rightarrow> (None, s)
      | Some block \<Rightarrow> (Some block, pool_upd pool (pointed (load16 block (ram s))) s))"

definition osPoolFree :: "addr \<Rightarrow> addr \<Rightarrow> kernel \<Rightarrow> kernel" where
  "osPoolFree pool block s =
     pool_upd pool (Some block) (ram_upd (store16 block (pointer (pools s pool))) s)"

section \<open>The heap\<close>

type_synonym malloc = "u16 \<Rightarrow> (addr \<rightharpoonup> u16) \<Rightarrow> addr option"

definition heap_alloc :: "malloc \<Rightarrow> u16 \<Rightarrow> kernel \<Rightarrow> addr option \<times> kernel" where
  "heap_alloc malloc sz s =
     (case malloc sz (heap s) of
        None \<Rightarrow> (None, s)
      | Some a \<Rightarrow> (Some a, s\<lparr>heap := (heap s)(a \<mapsto> sz)\<rparr>))"

definition osFree :: "addr option \<Rightarrow> kernel \<Rightarrow> kernel option" where
  "osFree memory s =
     (case memory of
        None \<Rightarrow> Some s
      | Some a \<Rightarrow> if heap s a = None then None else Some (s\<lparr>heap := (heap s)(a := None)\<rparr>))"

partial_function (option) osTaskReap :: "kernel \<Rightarrow> kernel option" where
  "osTaskReap s =
     (case osDeadList s of
        None \<Rightarrow> Some s
      | Some task \<Rightarrow>
          Option.bind (osFree (Some (stack (tasks s task))) (s\<lparr>osDeadList := tnext (tasks s task)\<rparr>))
            osTaskReap)"

definition osMalloc :: "malloc \<Rightarrow> u16 \<Rightarrow> kernel \<Rightarrow> (addr option \<times> kernel) option" where
  "osMalloc malloc sz s =
     (case heap_alloc malloc sz s of
        (Some a, s) \<Rightarrow> Some (Some a, s)
      | (None, s) \<Rightarrow> do {
          s \<leftarrow> osTaskReap s;
          Some (heap_alloc malloc sz s)
        })"


section \<open>The invariant of the kernel\<close>

lemma ram_upd_simps [simp]:
  "tasks (ram_upd f s) = tasks s" "mutexes (ram_upd f s) = mutexes s"
  "semaphores (ram_upd f s) = semaphores s" "queues (ram_upd f s) = queues s"
  "events (ram_upd f s) = events s" "timers (ram_upd f s) = timers s" "pools (ram_upd f s) = pools s"
  "ram (ram_upd f s) = f (ram s)" "osIdleTask (ram_upd f s) = osIdleTask s"
  "osCurrentTask (ram_upd f s) = osCurrentTask s" "osReadyList (ram_upd f s) = osReadyList s"
  "osTimerList (ram_upd f s) = osTimerList s" "osTicks (ram_upd f s) = osTicks s"
  "osDeadList (ram_upd f s) = osDeadList s" "cont (ram_upd f s) = cont s" "heap (ram_upd f s) = heap s"
  "rd (ram_upd f s) = rd s"
  by (simp_all add: ram_upd_def) (auto intro!: rd_cong)

lemma pool_upd_simps [simp]:
  "tasks (pool_upd p v s) = tasks s" "mutexes (pool_upd p v s) = mutexes s"
  "semaphores (pool_upd p v s) = semaphores s" "queues (pool_upd p v s) = queues s"
  "events (pool_upd p v s) = events s" "pools (pool_upd p v s) = (pools s)(p := v)"
  "ram (pool_upd p v s) = ram s" "osIdleTask (pool_upd p v s) = osIdleTask s"
  "osCurrentTask (pool_upd p v s) = osCurrentTask s" "osTimerList (pool_upd p v s) = osTimerList s"
  "osTicks (pool_upd p v s) = osTicks s" "cont (pool_upd p v s) = cont s" "heap (pool_upd p v s) = heap s"
  "rd (pool_upd p v s) = rd s"
  by (simp_all add: pool_upd_def) (auto intro!: rd_cong)

lemma rest_ram_upd:
  assumes "rest A s" and "harmless A s X" and "\<And>x. x \<notin> X \<Longrightarrow> f (ram s) x = ram s x"
  shows "rest A (ram_upd f s)"
  using assms rest_objects [of "ram_upd f s" s A] by (simp add: harmless_def)

lemma rest_pool_upd [simp]: "rest A (pool_upd p v s) = rest A s"
  by (rule rest_objects) simp_all

lemma objects_ok_ram [simp]: "objects_ok A (ram_upd f s) = objects_ok A s"
    "objects_ok A (pool_upd p v s) = objects_ok A s"
  by (simp_all add: objects_ok_def)


section \<open>The free blocks of a pool\<close>

text \<open>
  \<open>free_list s c bs\<close>: the blocks that can be allocated, in the order they will be, starting
  with what \<open>free\<close> of the pool holds. Two blocks do not overlap in their links.
\<close>

fun free_list :: "(addr \<Rightarrow> u8) \<Rightarrow> addr option \<Rightarrow> addr list \<Rightarrow> bool" where
  "free_list r p [] \<longleftrightarrow> p = None"
| "free_list r p (b # bs) \<longleftrightarrow> p = Some b \<and> b \<noteq> 0 \<and> free_list r (pointed (load16 b r)) bs"

definition links_apart :: "addr list \<Rightarrow> bool" where
  "links_apart bs \<longleftrightarrow> sorted_wrt (\<lambda>a b. region a 2 \<inter> region b 2 = {}) bs"

definition pool_blocks :: "kernel \<Rightarrow> addr \<Rightarrow> addr list \<Rightarrow> bool" where
  "pool_blocks s pool bs \<longleftrightarrow> free_list (ram s) (pools s pool) bs \<and> links_apart bs"

lemma region_2: "region a 2 = {a, a + 1}"
  by (simp add: numeral_2_eq_2 region_Suc)

lemma store16_other: "x \<notin> region a 2 \<Longrightarrow> store16 a v r x = r x"
  by (simp add: store16_def region_2)

lemma load16_store16_other: "region a 2 \<inter> region b 2 = {} \<Longrightarrow> load16 b (store16 a v r) = load16 b r"
  by (simp add: load16_def store16_def region_2)

lemma free_list_store16:
  "(\<And>b. b \<in> set bs \<Longrightarrow> region a 2 \<inter> region b 2 = {}) \<Longrightarrow>
   free_list (store16 a v r) p bs = free_list r p bs"
  by (induction bs arbitrary: p) (simp_all add: load16_store16_other)

lemma free_list_pointer: "free_list r p bs \<Longrightarrow> pointed (pointer p) = p"
  by (cases bs) (auto intro: pointed_pointer)

lemma osPoolAlloc_blocks:
  assumes "pool_blocks s pool bs"
  shows "osPoolAlloc pool s =
    (first bs, if bs = [] then s else pool_upd pool (first (tl bs)) s)"
  using assms
  by (cases bs; cases "tl bs") (auto simp: pool_blocks_def osPoolAlloc_def)

lemma pool_blocks_alloc:
  "pool_blocks s pool (b # bs) \<Longrightarrow> pool_blocks (snd (osPoolAlloc pool s)) pool bs"
  by (auto simp: pool_blocks_def osPoolAlloc_def links_apart_def)

lemma osPoolFree_blocks:
  assumes "pool_blocks s pool bs" and "b \<noteq> 0" and "\<And>b'. b' \<in> set bs \<Longrightarrow> region b 2 \<inter> region b' 2 = {}"
  shows "pool_blocks (osPoolFree pool b s) pool (b # bs)"
  using assms free_list_pointer [of "ram s" "pools s pool" bs]
  by (auto simp: pool_blocks_def osPoolFree_def links_apart_def free_list_store16)

text \<open>The blocks \<open>osPoolInit\<close> makes: the last one is the first to be allocated.\<close>

definition blocks_of :: "addr \<Rightarrow> u8 \<Rightarrow> nat \<Rightarrow> addr list" where
  "blocks_of memory blockSize n = rev (map (\<lambda>i. memory + of_nat i * ucast blockSize) [0..<n])"

lemma blocks_of_Suc:
  "blocks_of m bs (Suc n) = blocks_of (m + ucast bs) bs n @ [m]"
proof -
  have "[0..<Suc n] = 0 # map Suc [0..<n]" by (simp add: upt_conv_Cons map_Suc_upt del: upt_Suc)
  then show ?thesis by (simp add: blocks_of_def algebra_simps o_def del: upt_Suc)
qed

lemma osPoolInit_loop_blocks:
  assumes "pool_blocks s pool bs"
    and "links_apart (blocks_of block blockSize n @ bs)" and "0 \<notin> set (blocks_of block blockSize n)"
  shows "pool_blocks (osPoolInit_loop n pool block blockSize s) pool (blocks_of block blockSize n @ bs)"
  using assms
proof (induction n arbitrary: block s bs)
  case 0
  then show ?case by (simp add: blocks_of_def)
next
  case (Suc n)
  let ?s = "osPoolFree pool block s"
  have eq: "osPoolInit_loop (Suc n) pool block blockSize s = osPoolInit_loop n pool (block + ucast blockSize) blockSize ?s"
    by (simp add: osPoolFree_def Let_def)
  have "pool_blocks ?s pool (block # bs)"
    using Suc.prems
    by (intro osPoolFree_blocks) (auto simp: blocks_of_Suc links_apart_def sorted_wrt_append)
  then show ?case
    using Suc.IH [of ?s "block # bs"] Suc.prems unfolding eq by (simp add: blocks_of_Suc)
qed

lemma ucast_of_nat: "(ucast (b :: u8) :: u16) = of_nat (unat b)"
  by simp

lemma unat_ucast16 [simp]: "unat (ucast (b :: u8) :: u16) = unat b"
  by (rule bit_eqI) (auto simp: bit_simps dest: bit_imp_le_length)

lemma blocks_apart:
  assumes fits: "unat memory + n * unat blockSize \<le> 65536" and size2: "2 \<le> unat (blockSize :: u8)"
  shows "links_apart (blocks_of memory blockSize n)"
proof -
  have "region (memory + of_nat j * ucast blockSize) 2 \<inter> region (memory + of_nat i * ucast blockSize) 2 = {}"
    if ij: "i < j" "j < n" for i j
  proof (rule ccontr)
    assume "\<not> ?thesis"
    then obtain d e where d: "d < 2" "e < (2 :: nat)"
      and eq: "memory + of_nat j * ucast blockSize + of_nat d = memory + of_nat i * ucast blockSize + of_nat e"
      by (auto simp: region_def)
    have uc: "(ucast blockSize :: u16) = of_nat (unat blockSize)" by (rule ucast_of_nat)
    have "of_nat (j * unat blockSize + d) = (of_nat (i * unat blockSize + e) :: u16)"
      using eq unfolding uc by (simp add: algebra_simps del: of_nat_unat)
    moreover have "i * unat blockSize + unat blockSize \<le> j * unat blockSize"
      using ij(1) by (metis Suc_leI mult_Suc add.commute mult_le_mono1)
    moreover have "j * unat blockSize + unat blockSize \<le> n * unat blockSize"
      using ij(2) by (metis Suc_leI mult_Suc add.commute mult_le_mono1)
    ultimately have "j * unat blockSize + d = i * unat blockSize + e"
      using fits size2 d by (intro of_nat_u16_inj) auto
    then show False
      using d size2 \<open>i * unat blockSize + unat blockSize \<le> j * unat blockSize\<close> by linarith
  qed
  then show ?thesis
    unfolding links_apart_def blocks_of_def sorted_wrt_rev sorted_wrt_map
    by (auto simp: sorted_wrt_iff_nth_less)
qed


lemma blocks_not_null:
  assumes "memory \<noteq> 0" and "unat memory + n * unat (blockSize :: u8) \<le> 65536" and "2 \<le> unat blockSize"
  shows "0 \<notin> set (blocks_of memory blockSize n)"
proof
  assume "0 \<in> set (blocks_of memory blockSize n)"
  then obtain i where i: "i < n" "memory + of_nat i * ucast blockSize = 0" by (auto simp: blocks_of_def)
  let ?k = "unat memory + i * unat blockSize"
  have "of_nat ?k = memory + of_nat i * ucast blockSize"
    by (simp only: of_nat_add of_nat_mult of_nat_unat ucast_id)
  then have "of_nat ?k = (of_nat 0 :: u16)" using i(2) by simp
  moreover have "Suc i * unat blockSize \<le> n * unat blockSize"
    using i(1) mult_le_mono1 [of "Suc i" n "unat blockSize"] by simp
  then have "?k < 65536" using assms(2,3) unfolding mult_Suc by linarith
  ultimately have "?k = 0" using of_nat_u16_inj [of ?k 0] by simp
  then show False using assms(1) by (simp add: unat_eq_0)
qed

lemma osPoolInit_blocks:
  assumes "memory \<noteq> 0" and "unat memory + unat blocks * unat blockSize \<le> 65536" and "2 \<le> unat blockSize"
  shows "pool_blocks (osPoolInit pool memory blockSize blocks s) pool (blocks_of memory blockSize (unat blocks))"
proof -
  have "pool_blocks (pool_upd pool None s) pool []" by (simp add: pool_blocks_def links_apart_def)
  from osPoolInit_loop_blocks [OF this, of memory blockSize "unat blocks"] show ?thesis
    using blocks_apart [OF assms(2,3)] blocks_not_null [OF assms] by (simp add: osPoolInit_def)
qed

section \<open>Tasks that are gone\<close>

text \<open>
  The memory of the tasks on the list \<open>D\<close> comes from the heap, a block for each of them. Once
  it has been freed the tasks do not exist any more.
\<close>

definition dead_list :: "kernel \<Rightarrow> addr list \<Rightarrow> bool" where
  "dead_list s D \<longleftrightarrow> chain (rd s) Next (Head DeadHead) D"

definition from_heap :: "addr list \<Rightarrow> kernel \<Rightarrow> bool" where
  "from_heap D s \<longleftrightarrow> distinct (map (\<lambda>t. stack (tasks s t)) D) \<and> (\<forall>t \<in> set D. heap s (stack (tasks s t)) \<noteq> None)"

definition freed :: "addr list \<Rightarrow> kernel \<Rightarrow> kernel" where
  "freed D s = s\<lparr>osDeadList := None, heap := heap s |` (- (\<lambda>t. stack (tasks s t)) ` set D)\<rparr>"

lemma osTaskReap_freed:
  "dead_list s D \<Longrightarrow> from_heap D s \<Longrightarrow> osTaskReap s = Some (freed D s)"
proof (induction D arbitrary: s)
  case Nil
  have "heap s |` UNIV = heap s" by (simp add: restrict_map_def)
  moreover from Nil have "osDeadList s = None" by (simp add: dead_list_def)
  ultimately have "freed [] s = s" by (simp add: freed_def)
  with \<open>osDeadList s = None\<close> show ?case by (subst osTaskReap.simps) simp
next
  case (Cons t D)
  let ?a = "stack (tasks s t)"
  define s1 where "s1 = s\<lparr>osDeadList := tnext (tasks s t), heap := (heap s)(?a := None)\<rparr>"
  have dl: "osDeadList s = Some t" and ch: "chain (rd s) Next (Next t) D" using Cons.prems(1) by (simp_all add: dead_list_def)
  have "chain (rd s1) Next (Head DeadHead) D"
    using ch by (cases D) (auto simp: s1_def elim!: chain_cong)
  then have 1: "dead_list s1 D" by (simp add: dead_list_def)
  have "stack (tasks s x) \<noteq> ?a" if "x \<in> set D" for x
    using Cons.prems(2) imageI [OF that, of "\<lambda>t. stack (tasks s t)"] by (auto simp: from_heap_def)
  then have "from_heap D s1"
    using Cons.prems(2) by (simp add: from_heap_def s1_def)
  with 1 have "osTaskReap s1 = Some (freed D s1)" by (rule Cons.IH)
  moreover have "heap s ?a \<noteq> None" using Cons.prems(2) by (simp add: from_heap_def)
  moreover have "freed D s1 = freed (t # D) s"
    by (simp add: freed_def s1_def restrict_map_def fun_eq_iff)
  ultimately show ?case
    by (subst osTaskReap.simps) (simp add: dl osFree_def s1_def)
qed

lemma rd_freed: "rd (freed D s) = (rd s)(Head DeadHead := None)"
proof
  show "rd (freed D s) c = ((rd s)(Head DeadHead := None)) c" for c
    by (cases "(s, c)" rule: rd.cases) (simp_all add: freed_def)
qed

lemma freed_rest:
  assumes r: "rest A s" and D: "dead_list s D"
  shows "rest (A - set D) (freed D s)"
proof -
  from r obtain L TL OL where K: "kernel_inv L TL OL A s" by (auto simp: rest_def)
  then have R: "repr L TL s" and inv: "data_inv {} L TL OL A s" by (simp_all add: kernel_inv_def)
  let ?B = "A - set D" and ?L = "L(DeadHead := [])" and ?s = "freed D s"
  have DL: "L DeadHead = D"
    using R D by (auto simp: dead_list_def repr_def lists_def intro: chain_unique)
  have pl: "task_placed L TL s t" if "t \<in> A" for t using inv that by (simp add: data_inv_def placed_def)
  have gone: "state (tasks s t) = OS_TASK_DEAD" if "t \<in> set D" "t \<in> A" for t
    using pl [OF that(2)] that(1) DL by (simp add: task_placed_def)
  have apart: "set (L h) \<inter> set D = {}" if "h \<noteq> DeadHead" for h
    using R that unfolding DL [symmetric] repr_def lists_def by blast
  have tl: "set TL \<inter> set D = {}"
  proof -
    have "t \<notin> set TL" if "t \<in> set D" for t
    proof
      assume "t \<in> set TL"
      then have "t \<in> A" using inv unfolding data_inv_def placed_def by blast
      with pl [of t] gone [of t] that \<open>t \<in> set TL\<close> show False by (auto simp: task_placed_def)
    qed
    then show ?thesis by auto
  qed
  have eqs: "tasks ?s = tasks s" "mutexes ?s = mutexes s" "osIdleTask ?s = osIdleTask s"
    "osCurrentTask ?s = osCurrentTask s" "osTicks ?s = osTicks s" "ram ?s = ram s" "cont ?s = cont s"
    by (simp_all add: freed_def)
  have ords: "ord ?s = ord s" "trd ?s = trd s" by (rule ord_cong trd_cong, simp_all add: freed_def)+
  have orders: "by_priority ?s = by_priority s" "by_time ?s = by_time s" "left ?s = left s"
    by (auto simp: by_priority_def by_time_def left_def eqs fun_eq_iff)
  have R': "repr ?L TL ?s"
    using R by (auto simp: repr_def lists_def timer_list_def rd_freed ords intro!: chain_upd_other split: if_splits)
  have o: "owners {} L OL A s" and i: "idle_ok {} A s" using inv by (simp_all add: data_inv_def)
  have "placed {} ?L TL ?B ?s"
    using inv pl apart tl by (auto simp: data_inv_def placed_def task_placed_def eqs)
  moreover have "prio_sorted ?L ?s" "timed_sorted TL ?s" "bounded ?B ?s" "canaries ?B ?s" "no_inversion ?L ?s"
    using inv by (simp_all add: data_inv_def prio_sorted_def timed_sorted_def bounded_def canaries_def
        no_inversion_def orders eqs)
  moreover have alive: "owner (mutexes s m) = Some t \<Longrightarrow> t \<in> ?B" for m t
    using o gone [of t] unfolding owners_def by blast
  have "owners {} ?L OL ?B ?s"
    using o alive unfolding owners_def eqs ords by simp
  moreover have "osIdleTask s \<notin> set D" "osCurrentTask s \<notin> set D"
    using i gone rest_current [OF r] by (auto simp: idle_ok_def)
  then have "idle_ok {} ?B ?s" "osCurrentTask ?s \<in> ?B"
    using i rest_current [OF r] by (auto simp: idle_ok_def eqs)
  ultimately have "data_inv {} ?L TL OL ?B ?s" by (simp add: data_inv_def)
  then have "kernel_inv ?L TL OL ?B ?s"
    using R' K by (simp add: kernel_inv_def not_due_def running_def orders eqs)
  then show ?thesis using r by (auto simp: rest_def eqs)
qed

lemma osMalloc_spec:
  assumes "dead_list s D" and "from_heap D s"
  shows "osMalloc malloc sz s = Some
    (case malloc sz (heap s) of
       Some a \<Rightarrow> (Some a, s\<lparr>heap := (heap s)(a \<mapsto> sz)\<rparr>)
     | None \<Rightarrow> heap_alloc malloc sz (freed D s))"
  using osTaskReap_freed [OF assms]
  by (auto simp: osMalloc_def heap_alloc_def split: option.split)

end
