(* ===== verification/Port.thy ===== *)
theory Port
  imports Memory
begin

text \<open>
  \<^verbatim>\<open>system/asm.c\<close>: everything that depends on the processor. The stack of a new task and
  the context switch are modelled on the registers and the memory of an AVR whose return
  addresses take three bytes (the ATmega2560 of the \<^verbatim>\<open>Makefile\<close>); the instructions of the
  two \<^verbatim>\<open>naked\<close> functions are data, run by \<open>exec\<close>. The timer of the tick is modelled by the
  values written to its registers.
\<close>

section \<open>The stack of a new task\<close>

abbreviation OS_PC_SIZE :: u16 where "OS_PC_SIZE \<equiv> 3"
abbreviation OS_CONTEXT_SIZE :: u16 where "OS_CONTEXT_SIZE \<equiv> 21"

definition osPortPushAddress :: "addr \<Rightarrow> u16 \<Rightarrow> (addr \<Rightarrow> u8) \<Rightarrow> addr \<times> (addr \<Rightarrow> u8)" where
  "osPortPushAddress p word r =
     (let r = r(p := ucast word); p = p - 1;
          r = r(p := ucast (drop_bit 8 word)); p = p - 1;
          r = r(p := 0); p = p - 1
      in (p, r))"

primrec osPortStackInit_loop :: "nat \<Rightarrow> addr \<Rightarrow> (addr \<Rightarrow> u8) \<Rightarrow> addr \<times> (addr \<Rightarrow> u8)" where
  "osPortStackInit_loop 0 p r = (p, r)"
| "osPortStackInit_loop (Suc n) p r = osPortStackInit_loop n (p - 1) (r(p := 0))"

text \<open>
  The addresses of \<open>osTaskExit\<close> and \<open>osPortTaskStart\<close> are the linker's, so they are
  parameters.
\<close>

definition osPortStackInit ::
  "u16 \<Rightarrow> u16 \<Rightarrow> addr \<Rightarrow> u16 \<Rightarrow> u16 \<Rightarrow> (addr \<Rightarrow> u8) \<Rightarrow> addr \<times> (addr \<Rightarrow> u8)" where
  "osPortStackInit exit start p fn param r =
     (let (p, r) = osPortPushAddress p exit r;
          (p, r) = osPortPushAddress p fn r;
          (p, r) = osPortPushAddress p start r;
          r = r(p := ucast param); p = p - 1;
          r = r(p := ucast (drop_bit 8 param)); p = p - 1
      in osPortStackInit_loop 16 p r)"

section \<open>The processor\<close>

record cpu =
  reg :: "nat \<Rightarrow> u8"
  SP :: addr
  ram_of :: "addr \<Rightarrow> u8"
  pc :: nat
  iflag :: bool

datatype instr =
    Push nat
  | Pop nat
  | Movw nat nat
  | In_SP_L nat
  | In_SP_H nat
  | Out_SP_L nat
  | Out_SP_H nat
  | Ldd_Z nat u16
  | Std_Z u16 nat
  | Sei
  | Ret

definition set_reg :: "nat \<Rightarrow> u8 \<Rightarrow> cpu \<Rightarrow> cpu" where
  "set_reg r v c = c\<lparr>reg := (reg c)(r := v)\<rparr>"

definition pair :: "nat \<Rightarrow> cpu \<Rightarrow> u16" where
  "pair r c = push_bit 8 (ucast (reg c (r + 1))) OR ucast (reg c r)"

fun exec1 :: "instr \<Rightarrow> cpu \<Rightarrow> cpu" where
  "exec1 (Push r) c = c\<lparr>ram_of := (ram_of c)(SP c := reg c r), SP := SP c - 1\<rparr>"
| "exec1 (Pop r) c = (set_reg r (ram_of c (SP c + 1)) c)\<lparr>SP := SP c + 1\<rparr>"
| "exec1 (Movw d r) c = set_reg (d + 1) (reg c (r + 1)) (set_reg d (reg c r) c)"
| "exec1 (In_SP_L r) c = set_reg r (ucast (SP c)) c"
| "exec1 (In_SP_H r) c = set_reg r (ucast (drop_bit 8 (SP c))) c"
| "exec1 (Out_SP_L r) c = c\<lparr>SP := push_bit 8 (drop_bit 8 (SP c)) OR ucast (reg c r)\<rparr>"
| "exec1 (Out_SP_H r) c = c\<lparr>SP := push_bit 8 (ucast (reg c r)) OR (SP c AND 0xff)\<rparr>"
| "exec1 (Ldd_Z r q) c = set_reg r (ram_of c (pair 30 c + q)) c"
| "exec1 (Std_Z q r) c = c\<lparr>ram_of := (ram_of c)(pair 30 c + q := reg c r)\<rparr>"
| "exec1 Sei c = c\<lparr>iflag := True\<rparr>"
| "exec1 Ret c = c\<lparr>pc := unat (ram_of c (SP c + 1)) * 65536 + unat (ram_of c (SP c + 2)) * 256 +
      unat (ram_of c (SP c + 3)), SP := SP c + 3\<rparr>"

definition exec :: "instr list \<Rightarrow> cpu \<Rightarrow> cpu" where
  "exec is c = fold exec1 is c"

text \<open>The call of \<open>osPortSwitch\<close> itself: the return address goes to the stack.\<close>

definition call_ret :: "nat \<Rightarrow> cpu \<Rightarrow> cpu" where
  "call_ret ret c = c\<lparr>ram_of := (ram_of c)(SP c := of_nat ret, SP c - 1 := of_nat (ret div 256),
      SP c - 2 := of_nat (ret div 65536)), SP := SP c - 3\<rparr>"

definition osPortTaskStart :: "instr list" where
  "osPortTaskStart = [Movw 24 2, Sei, Ret]"

definition saved_regs :: "nat list" where
  "saved_regs = [2, 3, 4, 5, 6, 7, 8, 9, 10, 11, 12, 13, 14, 15, 16, 17, 28, 29]"

definition osPortSwitch :: "instr list" where
  "osPortSwitch =
     [Push 2, Push 3, Push 4, Push 5, Push 6, Push 7, Push 8, Push 9, Push 10, Push 11,
      Push 12, Push 13, Push 14, Push 15, Push 16, Push 17, Push 28, Push 29,
      Movw 30 22, In_SP_L 0, Std_Z 0 0, In_SP_H 0, Std_Z 1 0,
      Movw 30 24, Ldd_Z 0 0, Out_SP_L 0, Ldd_Z 0 1, Out_SP_H 0, Ldd_Z 24 2,
      Pop 29, Pop 28, Pop 17, Pop 16, Pop 15, Pop 14, Pop 13, Pop 12, Pop 11, Pop 10,
      Pop 9, Pop 8, Pop 7, Pop 6, Pop 5, Pop 4, Pop 3, Pop 2, Ret]"

section \<open>The timer of the tick\<close>

text \<open>
  What the preprocessor works out from \<open>F_CPU\<close>, \<open>OS_CFG_TICK_HZ\<close> and
  \<open>OS_CFG_TICK_TIMER\<close>; \<open>None\<close> is an \<^verbatim>\<open>#error\<close>.
\<close>

definition OS_TIMER_RANGE :: "nat \<Rightarrow> nat" where
  "OS_TIMER_RANGE timer = (if timer = 0 \<or> timer = 2 then 256 else 65536)"

definition OS_TICK_COUNTS :: "nat \<Rightarrow> nat \<Rightarrow> nat \<Rightarrow> nat" where
  "OS_TICK_COUNTS f_cpu hz prescaler = (f_cpu + prescaler * hz div 2) div (prescaler * hz)"

definition prescalers :: "nat \<Rightarrow> (nat \<times> u8) list" where
  "prescalers timer =
     (if timer = 2
      then [(1, 1), (8, 2), (32, 3), (64, 4), (128, 5), (256, 6), (1024, 7)]
      else [(1, 1), (8, 2), (64, 3), (256, 4), (1024, 5)])"

definition OS_TICK_PRESCALER :: "nat \<Rightarrow> nat \<Rightarrow> nat \<Rightarrow> (nat \<times> u8) option" where
  "OS_TICK_PRESCALER timer f_cpu hz =
     (case List.find (\<lambda>(p, _). OS_TICK_COUNTS f_cpu hz p \<le> OS_TIMER_RANGE timer) (prescalers timer) of
        None \<Rightarrow> None
      | Some (p, clock) \<Rightarrow> if OS_TICK_COUNTS f_cpu hz p < 2 then None else Some (p, clock))"

record tick_timer =
  TCCRA :: u8
  TCCRB :: u8
  OCRA :: u16
  TCNT :: u16
  TIFR :: u8
  TIMSK :: u8

text \<open>\<open>WGMn1\<close> and \<open>OCFnA\<close>, \<open>OCIEnA\<close> are bit 1, \<open>WGMn2\<close> is bit 3 of their registers.\<close>

definition osPortTickStart :: "nat \<Rightarrow> nat \<Rightarrow> nat \<Rightarrow> tick_timer option" where
  "osPortTickStart timer f_cpu hz =
     (case OS_TICK_PRESCALER timer f_cpu hz of
        None \<Rightarrow> None
      | Some (p, clock) \<Rightarrow>
          let tccrb = (if OS_TIMER_RANGE timer = 256 then 0 else 8)
          in Some \<lparr>TCCRA = (if OS_TIMER_RANGE timer = 256 then 2 else 0),
               TCCRB = tccrb OR clock,
               OCRA = of_nat (OS_TICK_COUNTS f_cpu hz p - 1),
               TCNT = 0, TIFR = 2, TIMSK = 2\<rparr>)"


section \<open>What is on a stack\<close>

text \<open>A stack grows down: the first byte is written to the address given.\<close>

fun pushes :: "addr \<Rightarrow> u8 list \<Rightarrow> (addr \<Rightarrow> u8) \<Rightarrow> addr \<times> (addr \<Rightarrow> u8)" where
  "pushes p [] r = (p, r)"
| "pushes p (b # bs) r = pushes (p - 1) bs (r(p := b))"

definition pushed :: "addr \<Rightarrow> nat \<Rightarrow> addr set" where
  "pushed p n = {p - of_nat i | i. i < n}"

lemma pushed_0 [simp]: "pushed p 0 = {}"
  by (simp add: pushed_def)

lemma pushed_Suc: "pushed p (Suc n) = insert p (pushed (p - 1) n)"
proof -
  have "(\<exists>i < Suc n. x = p - of_nat i) \<longleftrightarrow> x = p \<or> (\<exists>i < n. x = p - 1 - of_nat i)" for x :: addr
    unfolding less_Suc_eq_0_disj by (auto simp: algebra_simps)
  then show ?thesis by (auto simp: pushed_def)
qed

lemma pushed_top: "n < 65536 \<Longrightarrow> p \<notin> pushed (p - 1) n"
proof
  assume n: "n < 65536" and "p \<in> pushed (p - 1) n"
  then obtain i where i: "i < n" "p = p - 1 - of_nat i" by (auto simp: pushed_def)
  then have "of_nat (Suc i) = (of_nat 0 :: u16)" by (simp add: algebra_simps)
  then have "Suc i = 0" by (rule of_nat_u16_inj) (use i n in auto)
  then show False by simp
qed

lemma pushes_append: "pushes p (xs @ ys) r = (let (p, r) = pushes p xs r in pushes p ys r)"
  by (induction xs arbitrary: p r) simp_all

lemma pushes_fst: "fst (pushes p bs r) = p - of_nat (length bs)"
  by (induction bs arbitrary: p r) (simp_all add: algebra_simps)

lemma pushes_other: "x \<notin> pushed p (length bs) \<Longrightarrow> snd (pushes p bs r) x = r x"
  by (induction bs arbitrary: p r) (simp_all add: pushed_Suc)

lemma pushes_nth:
  "i < length bs \<Longrightarrow> length bs \<le> 65536 \<Longrightarrow> snd (pushes p bs r) (p - of_nat i) = bs ! i"
proof (induction bs arbitrary: p r i)
  case Nil
  then show ?case by simp
next
  case (Cons b bs)
  show ?case
  proof (cases i)
    case 0
    have "p \<notin> pushed (p - 1) (length bs)" using Cons.prems by (intro pushed_top) simp
    then show ?thesis by (simp add: 0 pushes_other)
  next
    case (Suc k)
    then show ?thesis using Cons.IH [of k "p - 1" "r(p := b)"] Cons.prems
      by (simp add: algebra_simps del: fun_upd_apply)
  qed
qed

text \<open>The frame of a new task.\<close>

definition frame :: "u16 \<Rightarrow> u16 \<Rightarrow> u16 \<Rightarrow> u16 \<Rightarrow> u8 list" where
  "frame exit start fn param =
     [ucast exit, ucast (drop_bit 8 exit), 0, ucast fn, ucast (drop_bit 8 fn), 0,
      ucast start, ucast (drop_bit 8 start), 0, ucast param, ucast (drop_bit 8 param)] @ replicate 16 0"

lemma length_frame [simp]: "length (frame exit start fn param) = 27"
  by (simp add: frame_def)

lemma osPortPushAddress_pushes: "osPortPushAddress p a r = pushes p [ucast a, ucast (drop_bit 8 a), 0] r"
  by (simp add: osPortPushAddress_def Let_def)

lemma osPortStackInit_loop_pushes: "osPortStackInit_loop n p r = pushes p (replicate n 0) r"
  by (induction n arbitrary: p r) simp_all

lemma osPortStackInit_pushes: "osPortStackInit exit start p fn param r = pushes p (frame exit start fn param) r"
  by (simp add: osPortStackInit_def frame_def osPortPushAddress_pushes osPortStackInit_loop_pushes Let_def)


section \<open>The rate of the tick\<close>

lemma find_first:
  "List.find P xs = Some x \<Longrightarrow> sorted_wrt R xs \<Longrightarrow> reflp R \<Longrightarrow> y \<in> set xs \<Longrightarrow> P y \<Longrightarrow> R x y"
  by (induction xs) (auto split: if_splits dest: reflpD)

lemma find_in: "List.find P xs = Some x \<Longrightarrow> x \<in> set xs \<and> P x"
  by (induction xs) (auto split: if_splits)

lemma prescalers_sorted: "sorted_wrt (\<lambda>x y. fst x \<le> fst y) (prescalers timer)"
  by (simp add: prescalers_def)

lemma prescalers_positive: "x \<in> set (prescalers timer) \<Longrightarrow> 0 < fst x \<and> snd x < 8"
  by (auto simp: prescalers_def split: if_splits)

text \<open>
  C40. The prescaler chosen for the tick is one the timer offers, and the smallest one with which
  the counts of a tick fit into the timer; there are at least two counts per tick. The counts
  are the quotient of the clock rounded to the nearest: they are off by half a count at most.
  \<open>osPortTickStart\<close> programs the timer to clear after exactly these counts.
\<close>

theorem tick_prescaler:
  assumes "OS_TICK_PRESCALER timer f_cpu hz = Some (p, clock)" and "0 < hz"
    and "n = OS_TICK_COUNTS f_cpu hz p"
  shows "(p, clock) \<in> set (prescalers timer) \<and> 2 \<le> n \<and> n \<le> OS_TIMER_RANGE timer \<and>
    (\<forall>(p', c') \<in> set (prescalers timer). OS_TICK_COUNTS f_cpu hz p' \<le> OS_TIMER_RANGE timer \<longrightarrow> p \<le> p') \<and>
    2 * n * (p * hz) \<le> 2 * f_cpu + p * hz \<and> 2 * f_cpu \<le> 2 * n * (p * hz) + p * hz + 1 \<and>
    (\<exists>t. osPortTickStart timer f_cpu hz = Some t \<and> unat (OCRA t) + 1 = n \<and> TCCRB t AND 7 = clock)"
proof -
  let ?P = "\<lambda>(p, _ :: u8). OS_TICK_COUNTS f_cpu hz p \<le> OS_TIMER_RANGE timer"
  from assms(1) have f: "List.find ?P (prescalers timer) = Some (p, clock)" and two: "2 \<le> n"
    by (auto simp: OS_TICK_PRESCALER_def assms(3) split: option.splits if_splits)
  have R: "reflp (\<lambda>x y. fst x \<le> (fst y :: nat))" by (simp add: reflp_def)
  have in': "(p, clock) \<in> set (prescalers timer)" "?P (p, clock)"
    using find_in [OF f] by simp_all
  have least: "p \<le> p'" if "(p', c') \<in> set (prescalers timer)"
      "OS_TICK_COUNTS f_cpu hz p' \<le> OS_TIMER_RANGE timer" for p' c'
    using find_first [OF f prescalers_sorted R that(1)] that(2) by simp
  define q where "q = p * hz"
  have q: "0 < q" using prescalers_positive [OF in'(1)] assms(2) by (simp add: q_def)
  define a where "a = f_cpu + q div 2"
  have n: "n = a div q" by (simp add: assms(3) OS_TICK_COUNTS_def q_def a_def)
  have "n * q \<le> a" unfolding n by simp
  moreover have "a < Suc n * q" unfolding n using q by (simp add: dividend_less_div_times)
  ultimately have bnd: "2 * n * q \<le> 2 * f_cpu + q \<and> 2 * f_cpu \<le> 2 * n * q + q + 1"
    unfolding a_def mult_Suc by (simp add: mult.assoc) linarith
  have "n \<le> 65536" using in'(2) by (auto simp: OS_TIMER_RANGE_def assms(3) split: if_splits)
  moreover obtain m where m: "n = Suc m" using two by (cases n) auto
  ultimately have ocr: "unat (of_nat m :: u16) = m" by (simp add: unsigned_of_nat take_bit_nat_eq_self)
  have "(x OR clock) AND 7 = clock" if "x = 0 \<or> x = 8" for x :: u8
    using in'(1) that by (auto simp: prescalers_def split: if_splits)
  then have "\<exists>t. osPortTickStart timer f_cpu hz = Some t \<and> unat (OCRA t) + 1 = n \<and> TCCRB t AND 7 = clock"
    by (simp add: osPortTickStart_def assms(1) assms(3) [symmetric] m ocr)
  then show ?thesis
    using in' least two bnd by (auto simp: assms(3) q_def)
qed

theorem tick_prescaler_witness:
  "OS_TICK_PRESCALER 0 16000000 1000 = Some (64, 3) \<and> OS_TICK_COUNTS 16000000 1000 64 = 250 \<and>
   (\<exists>t. osPortTickStart 0 16000000 1000 = Some t \<and> unat (OCRA t) + 1 = 250)"
proof -
  have n: "250 = OS_TICK_COUNTS 16000000 1000 64" by (simp add: OS_TICK_COUNTS_def)
  have p: "OS_TICK_PRESCALER 0 16000000 1000 = Some (64, 3)"
    by (simp add: OS_TICK_PRESCALER_def prescalers_def OS_TICK_COUNTS_def OS_TIMER_RANGE_def)
  show ?thesis using tick_prescaler [OF p _ n] p n by auto
qed

end
