(* ===== verification/Context_Switch.thy ===== *)
theory Context_Switch
  imports Port
begin

text \<open>
  What the instructions of \<open>osPortSwitch\<close> do, and why a task that gets the processor back goes
  on as if it had only called a function: its registers, its stack pointer and its return
  address are the ones it was switched out with, whatever has run in between, as long as
  nobody has written to its saved context.
\<close>

section \<open>Sequences of instructions\<close>

lemma exec_simps [simp]:
  "exec [] c = c" "exec (i # is) c = exec is (exec1 i c)"
  by (simp_all add: exec_def)

lemma exec_append: "exec (is @ js) c = exec js (exec is c)"
  by (induction "is" arbitrary: c) simp_all

lemma exec_pushes:
  "exec (map Push rs) c = c\<lparr>ram_of := snd (pushes (SP c) (map (reg c) rs) (ram_of c)),
     SP := SP c - of_nat (length rs)\<rparr>"
  by (induction rs arbitrary: c) (simp_all add: algebra_simps)

lemma exec_pops:
  assumes "distinct rs" and "length rs < 65536"
  shows "ram_of (exec (map Pop rs) c) = ram_of c"
    and "SP (exec (map Pop rs) c) = SP c + of_nat (length rs)"
    and "pc (exec (map Pop rs) c) = pc c" and "iflag (exec (map Pop rs) c) = iflag c"
    and "r \<notin> set rs \<Longrightarrow> reg (exec (map Pop rs) c) r = reg c r"
    and "i < length rs \<Longrightarrow> reg (exec (map Pop rs) c) (rs ! i) = ram_of c (SP c + 1 + of_nat i)"
proof -
  show "ram_of (exec (map Pop rs) c) = ram_of c" "SP (exec (map Pop rs) c) = SP c + of_nat (length rs)"
    "pc (exec (map Pop rs) c) = pc c" "iflag (exec (map Pop rs) c) = iflag c"
    by (induction rs arbitrary: c) (simp_all add: set_reg_def algebra_simps)
  have other: "r \<notin> set rs \<Longrightarrow> reg (exec (map Pop rs) c) r = reg c r" for r rs c
    by (induction rs arbitrary: c) (simp_all add: set_reg_def)
  then show "r \<notin> set rs \<Longrightarrow> reg (exec (map Pop rs) c) r = reg c r" .
  show "i < length rs \<Longrightarrow> reg (exec (map Pop rs) c) (rs ! i) = ram_of c (SP c + 1 + of_nat i)"
    using assms(1)
  proof (induction rs arbitrary: c i)
    case Nil
    then show ?case by simp
  next
    case (Cons r rs)
    show ?case
    proof (cases i)
      case 0
      then show ?thesis using Cons.prems by (simp add: other set_reg_def)
    next
      case (Suc k)
      then show ?thesis using Cons by (simp add: set_reg_def algebra_simps)
    qed
  qed
qed

section \<open>The switch\<close>

definition switch_stack :: "instr list" where
  "switch_stack =
     [Movw 30 22, In_SP_L 0, Std_Z 0 0, In_SP_H 0, Std_Z 1 0,
      Movw 30 24, Ldd_Z 0 0, Out_SP_L 0, Ldd_Z 0 1, Out_SP_H 0, Ldd_Z 24 2]"

lemma osPortSwitch_parts:
  "osPortSwitch = map Push saved_regs @ switch_stack @ map Pop (rev saved_regs) @ [Ret]"
  by (simp add: osPortSwitch_def saved_regs_def switch_stack_def)

lemma out_sp:
  "push_bit 8 (ucast h) OR ((push_bit 8 (drop_bit 8 p) OR ucast l) AND 0xff) = push_bit 8 (ucast (h :: u8)) OR (ucast (l :: u8) :: u16)"
  for p :: u16
proof -
  have mask: "(0xff :: u16) = mask 8" by (simp add: mask_eq_exp_minus_1)
  show ?thesis
    unfolding mask by (rule bit_word_eqI) (auto simp: bit_simps dest: bit_imp_le_length)
qed

lemma exec_switch_stack:
  fixes c
  defines "r \<equiv> store16 (pair 22 c) (SP c) (ram_of c)" and "c' \<equiv> exec switch_stack c"
  shows "ram_of c' = r" and "SP c' = load16 (pair 24 c) r" and "reg c' 24 = r (pair 24 c + 2)"
    and "pc c' = pc c" and "iflag c' = iflag c"
  by (simp_all add: switch_stack_def r_def c'_def set_reg_def pair_def store16_def load16_def out_sp)

text \<open>
  \<open>parked r p regs ret\<close>: below \<open>p\<close> is free stack, from there on the memory holds the saved
  registers \<open>regs\<close> (the one pushed first on top) and the return address \<open>ret\<close>.
\<close>

definition return_address :: "(addr \<Rightarrow> u8) \<Rightarrow> addr \<Rightarrow> nat" where
  "return_address r p =
     unat (r (p + 1)) * 65536 + unat (r (p + 2)) * 256 + unat (r (p + 3))"

definition parked :: "(addr \<Rightarrow> u8) \<Rightarrow> addr \<Rightarrow> u8 list \<Rightarrow> nat \<Rightarrow> bool" where
  "parked r p regs ret \<longleftrightarrow>
     length regs = 18 \<and> (\<forall>i < 18. r (p + 18 - of_nat i) = regs ! i) \<and> return_address r (p + 18) = ret"

text \<open>What the switch writes: the context on the stack, and the stack pointer into the task.\<close>

definition switch_ram :: "cpu \<Rightarrow> addr \<Rightarrow> u8" where
  "switch_ram c = store16 (pair 22 c) (SP c - 18)
     (snd (pushes (SP c) (map (reg c) saved_regs) (ram_of c)))"

lemma saved_regs_facts: "length saved_regs = 18" "distinct saved_regs" "24 \<notin> set saved_regs"
    "22 \<notin> set saved_regs" "23 \<notin> set saved_regs" "25 \<notin> set saved_regs"
  by (simp_all add: saved_regs_def)

lemma exec_osPortSwitch:
  fixes c
  defines "p \<equiv> load16 (pair 24 c) (switch_ram c)" and "c' \<equiv> exec osPortSwitch c"
  shows "ram_of c' = switch_ram c" and "SP c' = p + 21"
    and "i < 18 \<Longrightarrow> reg c' (saved_regs ! i) = switch_ram c (p + 18 - of_nat i)"
    and "reg c' 24 = switch_ram c (pair 24 c + 2)"
    and "pc c' = return_address (switch_ram c) (p + 18)" and "iflag c' = iflag c"
proof -
  define c1 where "c1 = exec (map Push saved_regs) c"
  define c2 where "c2 = exec switch_stack c1"
  define c3 where "c3 = exec (map Pop (rev saved_regs)) c2"
  have c': "c' = exec1 Ret c3"
    by (simp add: c'_def osPortSwitch_parts exec_append c1_def c2_def c3_def)
  have c1: "SP c1 = SP c - 18" "pair 22 c1 = pair 22 c" "pair 24 c1 = pair 24 c" "pc c1 = pc c" "iflag c1 = iflag c"
    by (simp_all add: c1_def exec_pushes pair_def saved_regs_facts)
  have r: "store16 (pair 22 c1) (SP c1) (ram_of c1) = switch_ram c"
    by (simp add: c1(1,2) switch_ram_def) (simp add: c1_def exec_pushes)
  note c2 = exec_switch_stack [of c1, folded c2_def, unfolded r, unfolded c1]
  have d: "distinct (rev saved_regs)" "length (rev saved_regs) < 65536" by (simp_all add: saved_regs_facts)
  note c3 = exec_pops [OF d, where c = c2, folded c3_def, unfolded c2 length_rev saved_regs_facts(1)]
  have sp: "SP c3 = p + 18" using c3(2) by (simp add: p_def)
  show "ram_of c' = switch_ram c" "iflag c' = iflag c" by (simp_all add: c' c3)
  show "SP c' = p + 21" by (simp add: c' sp)
  show "pc c' = return_address (switch_ram c) (p + 18)" by (simp add: c' c3(1) sp return_address_def)
  show "reg c' 24 = switch_ram c (pair 24 c + 2)"
    using c3(5) [of 24] saved_regs_facts(3) by (simp add: c' c2(3))
  assume i: "i < 18"
  have "rev saved_regs ! (17 - i) = saved_regs ! i" using i by (simp add: rev_nth saved_regs_facts(1))
  moreover have "(1 :: addr) + of_nat (17 - i) = 18 - of_nat i" using i by (simp add: of_nat_diff)
  ultimately show "reg c' (saved_regs ! i) = switch_ram c (p + 18 - of_nat i)"
    using c3(6) [of "17 - i"] i by (simp add: c' p_def algebra_simps)
qed

section \<open>Switching away and back\<close>

definition context_area :: "addr \<Rightarrow> addr set" where
  "context_area p = region (p + 1) 21"

definition touched :: "cpu \<Rightarrow> addr set" where
  "touched c = region (pair 22 c) 2 \<union> pushed (SP c) 18"

lemma context_area_regs: "i < 18 \<Longrightarrow> p + 18 - of_nat i \<in> context_area p"
proof -
  assume i: "i < 18"
  then have "p + 18 - of_nat i = (p + 1) + of_nat (17 - i)" by (simp add: of_nat_diff algebra_simps)
  moreover have "17 - i < 21" by simp
  ultimately show ?thesis unfolding context_area_def region_def by blast
qed

lemma context_area_ret: "i \<in> {1, 2, 3} \<Longrightarrow> p + 18 + of_nat i \<in> context_area p"
proof -
  assume i: "i \<in> {1, 2, 3 :: nat}"
  then have "p + 18 + of_nat i = (p + 1) + of_nat (17 + i)" by (simp add: algebra_simps)
  moreover have "17 + i < 21" using i by auto
  ultimately show ?thesis unfolding context_area_def region_def by blast
qed

lemma parked_cong:
  assumes "\<And>x. x \<in> context_area p \<Longrightarrow> r' x = r x"
  shows "parked r' p regs ret = parked r p regs ret"
proof -
  have "return_address r' (p + 18) = return_address r (p + 18)"
    using assms [OF context_area_ret [of 1 p]] assms [OF context_area_ret [of 2 p]]
      assms [OF context_area_ret [of 3 p]] by (simp add: return_address_def)
  moreover have "i < 18 \<Longrightarrow> r' (p + 18 - of_nat i) = r (p + 18 - of_nat i)" for i
    by (rule assms [OF context_area_regs])
  ultimately show ?thesis by (auto simp: parked_def)
qed

lemma switch_ram_other: "x \<notin> touched c \<Longrightarrow> switch_ram c x = ram_of c x"
  by (simp add: switch_ram_def touched_def store16_other pushes_other saved_regs_facts)

lemma load16_cong: "(\<And>x. x \<in> region a 2 \<Longrightarrow> r' x = r x) \<Longrightarrow> load16 a r' = load16 a r"
  by (simp add: load16_def region_2)

lemma pushed_low: "i \<in> {1, 2, 3} \<Longrightarrow> p + of_nat i \<notin> pushed p 18"
proof
  assume i: "i \<in> {1, 2, 3 :: nat}" and "p + of_nat i \<in> pushed p 18"
  then obtain j where j: "j < 18" "p + of_nat i = p - of_nat j" by (auto simp: pushed_def)
  then have "p + (of_nat (i + j) :: addr) = p + of_nat 0" by (simp add: algebra_simps)
  then have "i + j = 0" using of_nat_u16_inj [of "i + j" 0] i j(1) by auto
  then show False using i by auto
qed

lemma switch_saves:
  assumes apart: "region (pair 22 c) 2 \<inter> context_area (SP c - 18) = {}"
  shows "parked (switch_ram c) (SP c - 18) (map (reg c) saved_regs) (return_address (ram_of c) (SP c))"
    and "load16 (pair 22 c) (switch_ram c) = SP c - 18"
proof -
  let ?p = "SP c - 18" and ?r = "snd (pushes (SP c) (map (reg c) saved_regs) (ram_of c))"
  show "load16 (pair 22 c) (switch_ram c) = SP c - 18" by (simp add: switch_ram_def)
  have same: "switch_ram c x = ?r x" if "x \<in> context_area ?p" for x
    using that apart unfolding switch_ram_def by (intro store16_other) auto
  have "?r (?p + 18 - of_nat i) = map (reg c) saved_regs ! i" if "i < 18" for i
    using pushes_nth [of i "map (reg c) saved_regs" "SP c" "ram_of c"] that by (simp add: saved_regs_facts)
  moreover have "?r (SP c + of_nat i) = ram_of c (SP c + of_nat i)" if "i \<in> {1, 2, 3}" for i
    using pushed_low [OF that] by (intro pushes_other) (simp add: saved_regs_facts)
  from this [of 1] this [of 2] this [of 3]
  have "return_address ?r (?p + 18) = return_address (ram_of c) (SP c)" by (simp add: return_address_def)
  ultimately have "parked ?r ?p (map (reg c) saved_regs) (return_address (ram_of c) (SP c))"
    by (simp add: parked_def saved_regs_facts)
  then show "parked (switch_ram c) ?p (map (reg c) saved_regs) (return_address (ram_of c) (SP c))"
    using parked_cong [OF same] by simp
qed

lemma switch_restores:
  assumes park: "parked (ram_of c) p regs ret" and p: "load16 (pair 24 c) (ram_of c) = p"
    and apart: "touched c \<inter> (context_area p \<union> region (pair 24 c) 3) = {}"
    and c': "c' = exec osPortSwitch c"
  shows "map (reg c') saved_regs = regs" and "SP c' = p + 21" and "pc c' = ret"
    and "reg c' 24 = ram_of c (pair 24 c + 2)"
proof -
  have r3: "pair 24 c + 2 \<in> region (pair 24 c) 3" unfolding region_def by (rule CollectI, rule exI [of _ 2]) simp
  have same: "switch_ram c x = ram_of c x" if "x \<in> context_area p \<union> region (pair 24 c) 3" for x
    using that apart by (intro switch_ram_other) auto
  have "load16 (pair 24 c) (switch_ram c) = p"
    using p load16_cong [of "pair 24 c" "switch_ram c" "ram_of c"] same region_mono [of 2 3 "pair 24 c"] by auto
  note e = exec_osPortSwitch [where c = c, folded c', unfolded this]
  have "parked (switch_ram c) p regs ret" using park parked_cong [of p "switch_ram c" "ram_of c"] same by auto
  then have len: "length regs = 18" and i: "\<And>i. i < 18 \<Longrightarrow> switch_ram c (p + 18 - of_nat i) = regs ! i"
    and ret: "return_address (switch_ram c) (p + 18) = ret" by (simp_all add: parked_def)
  show "map (reg c') saved_regs = regs"
    using e(3) i len by (intro nth_equalityI) (simp_all add: saved_regs_facts)
  show "SP c' = p + 21" "pc c' = ret" using e(2,5) ret by simp_all
  show "reg c' 24 = ram_of c (pair 24 c + 2)" using e(4) same r3 by simp
qed

text \<open>
  C27. A task that calls \<open>osPortSwitch\<close> and gets the processor back later goes on as after any
  call: the registers a function has to preserve, the stack pointer and the return address are
  the ones of the call, and the value returned is the \<open>result\<close> member the task has been given
  meanwhile. Whatever has run in between may have done anything but write to the saved context
  and the stack pointer of the task (its stack and its control block belong to the task).
\<close>

theorem switch_round_trip:
  assumes "region (pair 22 c) 2 \<inter> context_area (SP c - 18) = {}"
    and "c1 = exec osPortSwitch c"
    and "pair 24 c2 = pair 22 c"
    and "\<And>x. x \<in> region (pair 22 c) 2 \<union> context_area (SP c - 18) \<Longrightarrow> ram_of c2 x = ram_of c1 x"
    and "touched c2 \<inter> (context_area (SP c - 18) \<union> region (pair 22 c) 3) = {}"
    and "c3 = exec osPortSwitch c2"
  shows "map (reg c3) saved_regs = map (reg c) saved_regs \<and> SP c3 = SP c + 3 \<and>
    pc c3 = return_address (ram_of c) (SP c) \<and> reg c3 24 = ram_of c2 (pair 22 c + 2)"
proof -
  have r: "ram_of c1 = switch_ram c" using exec_osPortSwitch(1) [where c = c] assms(2) by simp
  have "parked (ram_of c2) (SP c - 18) (map (reg c) saved_regs) (return_address (ram_of c) (SP c))"
    using switch_saves(1) [OF assms(1)] parked_cong [of "SP c - 18" "ram_of c2" "switch_ram c"] assms(4) r by auto
  moreover have "load16 (pair 24 c2) (ram_of c2) = SP c - 18"
    using switch_saves(2) [OF assms(1)] load16_cong [of "pair 22 c" "ram_of c2" "switch_ram c"] assms(3,4) r by auto
  ultimately show ?thesis
    using switch_restores [of c2 "SP c - 18" _ _ c3] assms(3,5,6) by simp
qed

definition here :: cpu where
  "here = \<lparr>reg = (\<lambda>r. if r = 22 then 0 else if r = 23 then 4 else of_nat r), SP = 0x1000,
     ram_of = (\<lambda>a. ucast a), pc = 0, iflag = False\<rparr>"

definition there :: cpu where
  "there = (exec osPortSwitch here)\<lparr>reg := (\<lambda>r. if r = 25 then 4 else if r = 23 then 5 else 0), SP := 0x1500\<rparr>"

lemma region_num: "region a (numeral n) = insert a (region (a + 1) (pred_numeral n))"
  by (simp add: numeral_eq_Suc region_Suc)

lemma pushed_num: "pushed p (numeral n) = insert p (pushed (p - 1) (pred_numeral n))"
  by (simp add: numeral_eq_Suc pushed_Suc)

theorem switch_round_trip_witness:
  "map (reg (exec osPortSwitch there)) saved_regs = map (reg here) saved_regs \<and>
   SP (exec osPortSwitch there) = 0x1003 \<and> pc (exec osPortSwitch there) = 0x010203"
proof -
  have a: "region (pair 22 here) 2 \<inter> context_area (SP here - 18) = {}"
    by (simp add: pair_def here_def context_area_def region_num region_Suc)
  have b: "pair 24 there = pair 22 here" by (simp add: pair_def here_def there_def)
  have c: "touched there \<inter> (context_area (SP here - 18) \<union> region (pair 22 here) 3) = {}"
    by (simp add: pair_def here_def there_def touched_def context_area_def region_num region_Suc
        pushed_num pushed_Suc)
  show ?thesis
    using switch_round_trip [OF a refl b _ c refl]
    by (simp add: there_def) (simp add: here_def return_address_def)
qed

section \<open>The start of a task\<close>

lemma unat_bytes: "unat (ucast (drop_bit 8 w) :: u8) * 256 + unat (ucast w :: u8) = unat (w :: u16)"
proof -
  have "unat w < 2 ^ LENGTH(16)" by (rule unsigned_less)
  then have "unat (ucast (drop_bit 8 w) :: u8) = unat w div 256"
    by (simp add: unsigned_ucast_eq take_bit_eq_mod unsigned_drop_bit_eq drop_bit_eq_div unat_div)
  moreover have "unat (ucast w :: u8) = unat w mod 256"
    by (simp add: unsigned_ucast_eq take_bit_eq_mod)
  ultimately show ?thesis by simp
qed

lemma frame_parked:
  assumes "(p, r) = osPortStackInit exit start stack_top fn param r0"
  shows "p = stack_top - 27"
    and "parked r p ([ucast param, ucast (drop_bit 8 param)] @ replicate 16 0) (unat start)"
    and "return_address r (p + 21) = unat fn" and "return_address r (p + 24) = unat exit"
proof -
  let ?f = "frame exit start fn param"
  have pr: "pushes stack_top ?f r0 = (p, r)" using assms by (simp add: osPortStackInit_pushes)
  show p: "p = stack_top - 27" using pushes_fst [of stack_top ?f r0] by (simp add: pr)
  have "r (stack_top - of_nat i) = ?f ! i" if "i < 27" for i
    using pushes_nth [of i ?f stack_top r0] that by (simp add: pr)
  then have r: "r (p + of_nat (27 - i)) = ?f ! i" if "i < 27" for i
    using that by (simp add: p of_nat_diff)
  have word: "return_address r (p + of_nat k) = unat w"
    if "k \<le> 24" "?f ! (26 - k) = 0" "?f ! (25 - k) = ucast (drop_bit 8 w)" "?f ! (24 - k) = ucast w" for k and w :: u16
    using r [of "26 - k"] r [of "25 - k"] r [of "24 - k"] that unat_bytes [of w]
    by (simp add: return_address_def algebra_simps)
  have "?f ! 9 = ucast param" "?f ! 10 = ucast (drop_bit 8 param)" "\<And>i. 11 \<le> i \<Longrightarrow> i < 27 \<Longrightarrow> ?f ! i = 0"
    by (simp_all add: frame_def nth_Cons' nth_append)
  have f: "([ucast param, ucast (drop_bit 8 param)] @ replicate 16 0) ! i = ?f ! (9 + i)" if "i < 18" for i
    using that by (auto simp: frame_def nth_Cons' nth_append)
  have "r (p + 18 - of_nat i) = ([ucast param, ucast (drop_bit 8 param)] @ replicate 16 0) ! i" if "i < 18" for i
    using r [of "9 + i"] f [OF that] that by (simp add: of_nat_diff algebra_simps)
  then show "parked r p ([ucast param, ucast (drop_bit 8 param)] @ replicate 16 0) (unat start)"
    using word [of 18 start] by (simp add: parked_def frame_def)
  show "return_address r (p + 21) = unat fn" "return_address r (p + 24) = unat exit"
    using word [of 21 fn] word [of 24 exit] by (simp_all add: frame_def)
qed

text \<open>
  C28. The frame \<open>osPortStackInit\<close> builds makes a new task, once it gets the processor, start in
  \<open>osPortTaskStart\<close>, which jumps to the function of the task with its parameter in the
  registers of a first argument and interrupts enabled; when the function returns, it returns
  to \<open>osTaskExit\<close>.
\<close>

theorem task_start:
  assumes "(p, r) = osPortStackInit exit start stack_top fn param r0"
    and "\<And>x. x \<in> region (p + 1) 27 \<Longrightarrow> ram_of c x = r x"
    and "load16 (pair 24 c) (ram_of c) = p"
    and "touched c \<inter> (region (p + 1) 27 \<union> region (pair 24 c) 3) = {}"
    and "c1 = exec osPortSwitch c" and "c2 = exec osPortTaskStart c1"
  shows "pc c1 = unat start \<and> pc c2 = unat fn \<and> pair 24 c2 = param \<and> iflag c2 \<and>
    SP c2 = stack_top - 3 \<and> return_address (ram_of c2) (SP c2) = unat exit"
proof -
  note f = frame_parked [OF assms(1)]
  have sub: "context_area p \<subseteq> region (p + 1) 27" unfolding context_area_def by (rule region_mono) simp
  have "parked (ram_of c) p ([ucast param, ucast (drop_bit 8 param)] @ replicate 16 0) (unat start)"
    using f(2) parked_cong [of p "ram_of c" r] assms(2) sub by auto
  note sw = switch_restores [OF this assms(3) _ assms(5)]
  have b: "map (reg c1) saved_regs = [ucast param, ucast (drop_bit 8 param)] @ replicate 16 0"
    "SP c1 = p + 21" "pc c1 = unat start"
    using sw assms(4) sub by blast+
  have same: "ram_of c1 x = r x" if "x \<in> region (p + 1) 27" for x
    using that assms(2,4) switch_ram_other [of x c] exec_osPortSwitch(1) [where c = c] assms(5) by auto
  have hi: "p + 21 + of_nat i \<in> region (p + 1) 27" if "1 \<le> i" "i \<le> 6" for i
  proof -
    have "p + 21 + of_nat i = (p + 1) + of_nat (20 + i)" by (simp add: algebra_simps)
    moreover have "20 + i < 27" using that by simp
    ultimately show ?thesis unfolding region_def by blast
  qed
  have "return_address (ram_of c1) (p + 21) = unat fn" "return_address (ram_of c1) (p + 24) = unat exit"
    using f(3,4) same [OF hi, of 1] same [OF hi, of 2] same [OF hi, of 3] same [OF hi, of 4]
      same [OF hi, of 5] same [OF hi, of 6] by (simp_all add: return_address_def)
  moreover have "reg c1 2 = ucast param" "reg c1 3 = ucast (drop_bit 8 param)"
    using b(1) by (simp_all add: saved_regs_def)
  moreover have "push_bit 8 (ucast (ucast (drop_bit 8 param) :: u8)) OR ucast (ucast param :: u8) = param"
    using load16_store16 [of 0 param "\<lambda>_. 0"] by (simp add: load16_def store16_def)
  ultimately show ?thesis
    using b f(1) assms(6) by (simp add: osPortTaskStart_def set_reg_def pair_def return_address_def)
qed

definition starter :: cpu where
  "starter = \<lparr>reg = (\<lambda>r. if r = 25 then 5 else if r = 23 then 4 else 0), SP = 0x1500,
     ram_of = store16 0x500 (0x1000 - 27) (snd (osPortStackInit 0x222 0x111 0x1000 0x333 0x4455 (\<lambda>_. 0))),
     pc = 0, iflag = False\<rparr>"

theorem task_start_witness:
  "pc (exec osPortSwitch starter) = 0x111 \<and> pc (exec osPortTaskStart (exec osPortSwitch starter)) = 0x333 \<and>
   pair 24 (exec osPortTaskStart (exec osPortSwitch starter)) = 0x4455"
proof -
  let ?i = "osPortStackInit 0x222 0x111 0x1000 0x333 0x4455 (\<lambda>_. 0)"
  have i: "(0x1000 - 27, snd ?i) = ?i"
    using pushes_fst [of "0x1000" "frame 0x222 0x111 0x333 0x4455" "\<lambda>_. 0"]
    by (simp add: osPortStackInit_pushes prod_eq_iff)
  have a: "ram_of starter x = snd ?i x" if "x \<in> region (0x1000 - 27 + 1) 27" for x
    using that by (auto simp: starter_def store16_def region_num region_Suc)
  have b: "load16 (pair 24 starter) (ram_of starter) = 0x1000 - 27"
    by (simp add: starter_def pair_def)
  have c: "touched starter \<inter> (region (0x1000 - 27 + 1) 27 \<union> region (pair 24 starter) 3) = {}"
    by (simp add: starter_def pair_def touched_def region_num region_Suc pushed_num pushed_Suc)
  show ?thesis
    using task_start [OF i a b c refl refl] by simp
qed

end
