(* ===== verification/Queues.thy ===== *)
theory Queues
  imports Memory
begin

text \<open>\<^verbatim>\<open>system/queue.c\<close>: queues of messages of the same size, copied byte by byte.\<close>

definition osQueueInit :: "addr \<Rightarrow> addr \<Rightarrow> u8 \<Rightarrow> u8 \<Rightarrow> kernel \<Rightarrow> kernel" where
  "osQueueInit queue buf item_size len s =
     queue_upd queue (\<lambda>_. \<lparr>q_waiters = None, buffer = buf, itemSize = item_size,
       q_length = len, q_count = 0, q_head = 0\<rparr>) s"

definition osQueueAppend :: "addr \<Rightarrow> addr \<Rightarrow> kernel \<Rightarrow> kernel" where
  "osQueueAppend queue item s =
     (let q = queues s queue;
          tail = (ucast (q_head q) :: u16) + ucast (q_count q);
          tail = (if ucast (q_length q) \<le> tail then tail - ucast (q_length q) else tail);
          s = ram_upd (memcpy (unat (itemSize q)) (buffer q + tail * ucast (itemSize q)) item) s
      in queue_upd queue (q_count_update (\<lambda>n. n + 1)) s)"

definition osQueuePut :: "addr \<Rightarrow> addr \<Rightarrow> u16 \<Rightarrow> kernel \<Rightarrow> res" where
  "osQueuePut queue item timeout s =
     (let q = queues s queue; task = osCurrentTask s in
      case (if q_count q = 0 then q_waiters q else None) of
        Some waiter \<Rightarrow> do {
          s \<leftarrow> osWake waiter 1 (ram_upd (memcpy (unat (itemSize q)) (wait (tasks s waiter)) item) s);
          Some (Returned (VBool True), s)
        }
      | None \<Rightarrow>
          if q_count q < q_length q then Some (Returned (VBool True), osQueueAppend queue item s)
          else if timeout = OS_NO_WAIT then Some (Returned (VBool False), s)
          else osBlock (Some (QueueHead queue)) timeout (set_wait task item s))"

definition osQueueGet :: "addr \<Rightarrow> addr \<Rightarrow> u16 \<Rightarrow> kernel \<Rightarrow> res" where
  "osQueueGet queue item timeout s =
     (let q = queues s queue; task = osCurrentTask s in
      if q_count q \<noteq> 0 then
        (let s = ram_upd (memcpy (unat (itemSize q)) item
                   (buffer q + ucast (q_head q) * ucast (itemSize q))) s;
             s = queue_upd queue (q_head_update (\<lambda>h. if h + 1 = q_length q then 0 else h + 1)) s;
             s = queue_upd queue (q_count_update (\<lambda>n. n - 1)) s
         in case q_waiters (queues s queue) of
              None \<Rightarrow> Some (Returned (VBool True), s)
            | Some waiter \<Rightarrow> do {
                s \<leftarrow> osWake waiter 1 (osQueueAppend queue (wait (tasks s waiter)) s);
                Some (Returned (VBool True), s)
              })
      else if timeout = OS_NO_WAIT then Some (Returned (VBool False), s)
      else osBlock (Some (QueueHead queue)) timeout (set_wait task item s))"

text \<open>What \<open>osQueueSend\<close> and \<open>osQueueReceive\<close> do once they know whether they succeeded.\<close>

definition osQueue_end :: "val \<Rightarrow> kernel \<Rightarrow> res" where
  "osQueue_end v s =
     leave (osCurrentTask s) (KReturn v) (\<lambda>_ s. Some (Returned v, s)) (osSchedule 0 s)"

definition osQueueSend :: "addr \<Rightarrow> addr \<Rightarrow> u16 \<Rightarrow> kernel \<Rightarrow> res" where
  "osQueueSend queue item timeout s =
     leave (osCurrentTask s) KQueue osQueue_end (osQueuePut queue item timeout s)"

definition osQueueSendFromISR :: "addr \<Rightarrow> addr \<Rightarrow> kernel \<Rightarrow> res" where
  "osQueueSendFromISR queue item s = osQueuePut queue item OS_NO_WAIT s"

definition osQueueReceive :: "addr \<Rightarrow> addr \<Rightarrow> u16 \<Rightarrow> kernel \<Rightarrow> res" where
  "osQueueReceive queue item timeout s =
     leave (osCurrentTask s) KQueue osQueue_end (osQueueGet queue item timeout s)"

definition osQueueReceiveFromISR :: "addr \<Rightarrow> addr \<Rightarrow> kernel \<Rightarrow> res" where
  "osQueueReceiveFromISR queue item s = osQueueGet queue item OS_NO_WAIT s"

definition osQueueCount :: "addr \<Rightarrow> kernel \<Rightarrow> u8" where
  "osQueueCount queue s = q_count (queues s queue)"

text \<open>\<open>sizeof(OsQueue)\<close> is 8; the buffer follows the queue.\<close>

definition osQueueCreate :: "malloc \<Rightarrow> u8 \<Rightarrow> u8 \<Rightarrow> kernel \<Rightarrow> (addr option \<times> kernel) option" where
  "osQueueCreate malloc item_size len s = do {
     (queue, s) \<leftarrow> osMalloc malloc (8 + ucast item_size * ucast len) s;
     case queue of
       None \<Rightarrow> Some (None, s)
     | Some a \<Rightarrow> Some (Some a, osQueueInit a (a + 8) item_size len s)
   }"

definition osQueueDestroy :: "addr option \<Rightarrow> kernel \<Rightarrow> kernel option" where
  "osQueueDestroy queue s = osFree queue s"


section \<open>The messages of a queue\<close>

definition msg :: "addr \<Rightarrow> nat \<Rightarrow> (addr \<Rightarrow> u8) \<Rightarrow> u8 list" where
  "msg a n r = map (\<lambda>j. r (a + of_nat j)) [0..<n]"

definition slot :: "OsQueue \<Rightarrow> nat \<Rightarrow> addr" where
  "slot q i = buffer q + of_nat (i mod unat (q_length q) * unat (itemSize q))"

definition messages :: "OsQueue \<Rightarrow> (addr \<Rightarrow> u8) \<Rightarrow> u8 list list" where
  "messages q r = map (\<lambda>i. msg (slot q (unat (q_head q) + i)) (unat (itemSize q)) r) [0..<unat (q_count q)]"

definition buffer_region :: "OsQueue \<Rightarrow> addr set" where
  "buffer_region q = region (buffer q) (unat (q_length q) * unat (itemSize q))"

lemma msg_cong: "(\<And>x. x \<in> region a n \<Longrightarrow> r' x = r x) \<Longrightarrow> msg a n r' = msg a n r"
  unfolding msg_def region_def by (rule map_cong) auto

lemma msg_memcpy:
  "region dst n \<inter> region src n = {} \<Longrightarrow> n \<le> 65536 \<Longrightarrow> msg dst n (memcpy n dst src r) = msg src n r"
  by (simp add: msg_def memcpy_copied)

lemma slot_region: "q_length q \<noteq> 0 \<Longrightarrow> region (slot q i) (unat (itemSize q)) \<subseteq> buffer_region q"
proof
  fix x assume len: "q_length q \<noteq> 0" and "x \<in> region (slot q i) (unat (itemSize q))"
  then obtain j where j: "j < unat (itemSize q)"
    and x: "x = buffer q + of_nat (i mod unat (q_length q) * unat (itemSize q) + j)"
    by (auto simp: region_def slot_def simp del: of_nat_unat)
  have "i mod unat (q_length q) < unat (q_length q)" using len by (simp add: unat_gt_0)
  then have "i mod unat (q_length q) * unat (itemSize q) + unat (itemSize q) \<le> unat (q_length q) * unat (itemSize q)"
    by (metis Suc_leI add.commute mult_Suc mult_le_mono1)
  with j have "i mod unat (q_length q) * unat (itemSize q) + j < unat (q_length q) * unat (itemSize q)"
    by linarith
  with x show "x \<in> buffer_region q" unfolding buffer_region_def region_def by blast
qed

lemma size_bound: "unat (q_length q) * unat (itemSize q) \<le> 65025"
proof -
  have "unat (q_length q) \<le> 255" "unat (itemSize q) \<le> 255"
    by (rule u8_bound)+
  then have "unat (q_length q) * unat (itemSize q) \<le> 255 * 255" by (rule mult_le_mono)
  then show ?thesis by simp
qed

lemma slots_apart:
  assumes "i mod unat (q_length q) \<noteq> i' mod unat (q_length q)" and len: "q_length q \<noteq> 0"
  shows "region (slot q i) (unat (itemSize q)) \<inter> region (slot q i') (unat (itemSize q)) = {}"
proof (rule ccontr)
  let ?n = "unat (itemSize q)" and ?l = "unat (q_length q)"
  assume "\<not> ?thesis"
  then obtain j j' where j: "j < ?n" "j' < ?n"
    and "buffer q + of_nat (i mod ?l * ?n + j) = buffer q + of_nat (i' mod ?l * ?n + j')"
    by (auto simp: region_def slot_def simp del: of_nat_unat)
  then have eq: "of_nat (i mod ?l * ?n + j) = (of_nat (i' mod ?l * ?n + j') :: u16)" by simp
  have "x mod ?l * ?n + k < 65536" if "k < ?n" for x k
  proof -
    have "x mod ?l < ?l" using len by (simp add: unat_gt_0)
    then have "x mod ?l * ?n + ?n \<le> ?l * ?n"
      by (metis Suc_leI add.commute mult_Suc mult_le_mono1)
    then show ?thesis using that size_bound [of q] by linarith
  qed
  then have "i mod ?l * ?n + j = i' mod ?l * ?n + j'"
    using eq j by (intro of_nat_u16_inj) auto
  then have "(i mod ?l * ?n + j) div ?n = (i' mod ?l * ?n + j') div ?n" by simp
  then show False using assms(1) j by simp
qed

text \<open>The address \<open>osQueueAppend\<close> works out is the slot behind the last message.\<close>

lemma tail_slot:
  assumes h: "q_head q < q_length q" and c: "q_count q < q_length q"
  shows "(let tail = (ucast (q_head q) :: u16) + ucast (q_count q);
              tail = (if ucast (q_length q) \<le> tail then tail - ucast (q_length q) else tail)
          in buffer q + tail * ucast (itemSize q)) = slot q (unat (q_head q) + unat (q_count q))"
proof -
  let ?h = "unat (q_head q)" and ?c = "unat (q_count q)" and ?l = "unat (q_length q)"
  let ?t = "(ucast (q_head q) :: u16) + ucast (q_count q)"
  have hl: "?h < ?l" "?c < ?l" using h c by (simp_all add: word_less_nat_alt)
  have "?l \<le> 255" by (rule u8_bound)
  then have t: "unat ?t = ?h + ?c" using hl by (simp add: unat_word_ariths)
  have "(if ucast (q_length q) \<le> ?t then ?t - ucast (q_length q) else ?t) = of_nat ((?h + ?c) mod ?l)"
  proof (cases "?l \<le> ?h + ?c")
    case True
    then have "(?h + ?c) mod ?l = ?h + ?c - ?l"
      using hl by (simp add: mod_if)
    moreover have "of_nat (?h + ?c - ?l) = (of_nat (?h + ?c) :: u16) - of_nat ?l"
      using True by (rule of_nat_diff)
    ultimately show ?thesis
      using True by (simp add: word_le_nat_alt t)
  next
    case False
    then show ?thesis by (simp add: word_le_nat_alt t)
  qed
  then show ?thesis
    by (simp only: Let_def slot_def) simp
qed

lemma head_slot:
  assumes "q_head q < q_length q"
  shows "buffer q + ucast (q_head q) * ucast (itemSize q) = slot q (unat (q_head q))"
  using assms by (simp add: slot_def word_less_nat_alt)


lemma slot_mod: "i mod unat (q_length q) = j mod unat (q_length q) \<Longrightarrow> slot q i = slot q j"
  by (simp add: slot_def)

lemma slot_cong: "buffer q' = buffer q \<Longrightarrow> itemSize q' = itemSize q \<Longrightarrow> q_length q' = q_length q \<Longrightarrow>
    slot q' i = slot q i"
  by (simp add: slot_def)

lemma messages_cong:
  assumes "\<And>x. x \<in> buffer_region q \<Longrightarrow> r' x = r x" and "q_length q \<noteq> 0"
  shows "messages q r' = messages q r"
  unfolding messages_def
  using assms slot_region [OF assms(2)] by (intro map_cong msg_cong) auto

lemma messages_length [simp]: "length (messages q r) = unat (q_count q)"
  by (simp add: messages_def)

lemma count_Suc: "q_count q < q_length q \<Longrightarrow> unat (q_count q + 1) = Suc (unat (q_count q))"
  using u8_bound [of "q_length q"] by (simp add: unat_add_lem [THEN iffD1] word_less_nat_alt)

lemma append_messages:
  assumes q: "q = queues s x" and h: "q_head q < q_length q" and c: "q_count q < q_length q"
    and item: "region item (unat (itemSize q)) \<inter> buffer_region q = {}"
    and s': "s' = osQueueAppend x item s"
  shows "messages (queues s' x) (ram s') = messages q (ram s) @ [msg item (unat (itemSize q)) (ram s)]"
    and "s' = queue_upd x (q_count_update (\<lambda>n. n + 1)) (ram_upd (\<lambda>_. ram s') s)"
    and "\<And>a. a \<notin> buffer_region q \<Longrightarrow> ram s' a = ram s a"
proof -
  let ?n = "unat (itemSize q)" and ?h = "unat (q_head q)" and ?c = "unat (q_count q)" and ?l = "unat (q_length q)"
  let ?tail = "slot q (?h + ?c)"
  have len: "q_length q \<noteq> 0" using h by auto
  have hl: "?c < ?l" using c by (simp add: word_less_nat_alt)
  have eq: "s' = queue_upd x (q_count_update (\<lambda>n. n + 1)) (ram_upd (memcpy ?n ?tail item) s)"
    unfolding s' osQueueAppend_def q [symmetric] Let_def tail_slot [OF h c, symmetric] ..
  then have ram: "ram s' = memcpy ?n ?tail item (ram s)" by simp
  show "s' = queue_upd x (q_count_update (\<lambda>n. n + 1)) (ram_upd (\<lambda>_. ram s') s)"
    unfolding ram by (simp add: eq ram_upd_def)
  have reg: "region ?tail ?n \<subseteq> buffer_region q" by (rule slot_region [OF len])
  show "ram s' a = ram s a" if "a \<notin> buffer_region q" for a
    using that reg unfolding ram by (intro memcpy_other) auto
  have n: "?n \<le> 65536" using u8_bound [of "itemSize q"] by simp
  have new: "msg ?tail ?n (ram s') = msg item ?n (ram s)"
    unfolding ram using reg item n by (intro msg_memcpy) auto
  have old: "msg (slot q (?h + i)) ?n (ram s') = msg (slot q (?h + i)) ?n (ram s)" if "i < ?c" for i
  proof (rule msg_cong)
    fix a assume a: "a \<in> region (slot q (?h + i)) ?n"
    have "(?h + i) mod ?l \<noteq> (?h + ?c) mod ?l"
    proof
      assume "(?h + i) mod ?l = (?h + ?c) mod ?l"
      then have "?l dvd (?h + ?c) - (?h + i)"
        by (metis mod_eq_dvd_iff_nat that add_le_cancel_left less_imp_le)
      then have "?l dvd ?c - i" by simp
      then show False using that hl by (metis dvd_imp_le diff_is_0_eq' less_imp_diff_less not_less zero_less_diff)
    qed
    from slots_apart [OF this len] a show "ram s' a = ram s a"
      unfolding ram by (intro memcpy_other) auto
  qed
  have "messages (queues s' x) (ram s') =
      map (\<lambda>i. msg (slot q (?h + i)) ?n (ram s')) [0..<Suc ?c]"
  proof -
    have "slot (queues s' x) i = slot q i" for i
      by (rule slot_cong) (simp_all add: eq q)
    moreover have "q_head (queues s' x) = q_head q" "itemSize (queues s' x) = itemSize q"
        "unat (q_count (queues s' x)) = Suc ?c"
      using count_Suc [OF c] by (simp_all add: eq q)
    ultimately show ?thesis by (simp only: messages_def)
  qed
  also have "\<dots> = messages q (ram s) @ [msg item ?n (ram s)]"
    by (simp add: messages_def new old)
  finally show "messages (queues s' x) (ram s') = messages q (ram s) @ [msg item ?n (ram s)]" .
qed

lemma take_messages:
  assumes c: "q_count q \<noteq> 0" and h: "q_head q < q_length q"
    and q': "q' = q\<lparr>q_head := (if q_head q + 1 = q_length q then 0 else q_head q + 1), q_count := q_count q - 1\<rparr>"
  shows "messages q r = msg (slot q (unat (q_head q))) (unat (itemSize q)) r # messages q' r"
    and "q_head q' < q_length q'"
proof -
  let ?h = "unat (q_head q)" and ?l = "unat (q_length q)"
  have hl: "?h < ?l" using h by (simp add: word_less_nat_alt)
  then have h1: "unat (q_head q + 1) = Suc ?h"
    using u8_bound [of "q_length q"] by (simp add: unat_add_lem [THEN iffD1])
  have wrap: "q_head q + 1 = q_length q \<longleftrightarrow> Suc ?h = ?l"
    using h1 by (simp add: word_unat_eq_iff)
  have h': "unat (q_head q') = Suc ?h mod ?l"
    using hl h1 wrap by (simp add: q' mod_if)
  show "q_head q' < q_length q'"
    unfolding word_less_nat_alt h' using hl by (simp add: q')
  have c': "unat (q_count q) = Suc (unat (q_count q'))"
    using c by (simp add: q' unat_minus_one unat_gt_0)
  have same: "slot q' (unat (q_head q') + i) = slot q (Suc (?h + i))" for i
  proof -
    have "slot q' (unat (q_head q') + i) = slot q (Suc ?h mod ?l + i)"
      unfolding h' by (rule slot_cong) (simp_all add: q')
    also have "\<dots> = slot q (Suc (?h + i))"
      by (rule slot_mod) (metis add_Suc mod_add_left_eq)
    finally show ?thesis .
  qed
  have "messages q r = map (\<lambda>i. msg (slot q (?h + i)) (unat (itemSize q)) r) (0 # map Suc [0..<unat (q_count q')])"
    unfolding messages_def c' by (simp add: upt_conv_Cons map_Suc_upt del: upt_Suc)
  then show "messages q r = msg (slot q ?h) (unat (itemSize q)) r # messages q' r"
    by (simp add: messages_def same o_def) (simp add: q')
qed


section \<open>The invariant of the kernel\<close>

text \<open>Buffers and messages on their way do not overlap, nor do they hit the end of a stack.\<close>

definition queues_apart :: "addr set \<Rightarrow> kernel \<Rightarrow> bool" where
  "queues_apart A s \<longleftrightarrow>
     (\<forall>q. harmless A s (buffer_region (queues s q))) \<and>
     (\<forall>t \<in> A. \<forall>q. waitList (tasks s t) = Some (QueueHead q) \<longrightarrow>
        harmless A s (region (wait (tasks s t)) (unat (itemSize (queues s q)))) \<and>
        region (wait (tasks s t)) (unat (itemSize (queues s q))) \<inter> buffer_region (queues s q) = {})"

lemma queues_apart_cong:
  assumes "queues_apart A s"
    and "\<And>q. buffer (queues s' q) = buffer (queues s q) \<and> itemSize (queues s' q) = itemSize (queues s q) \<and>
      q_length (queues s' q) = q_length (queues s q)"
    and "\<And>t. stack (tasks s' t) = stack (tasks s t)"
    and "\<And>t q. t \<in> A \<Longrightarrow> waitList (tasks s' t) = Some (QueueHead q) \<Longrightarrow>
      waitList (tasks s t) = Some (QueueHead q) \<and> wait (tasks s' t) = wait (tasks s t)"
  shows "queues_apart A s'"
  using assms unfolding queues_apart_def harmless_def buffer_region_def by auto

lemma queues_apart_calm:
  assumes "queues_apart A s" and "calm s s'"
  shows "queues_apart A s'"
proof (rule queues_apart_cong [OF assms(1)])
  show "buffer (queues s' q) = buffer (queues s q) \<and> itemSize (queues s' q) = itemSize (queues s q) \<and>
      q_length (queues s' q) = q_length (queues s q)" "stack (tasks s' t) = stack (tasks s t)" for q t
    using assms(2) by (simp_all add: calm_but_def)
  show "waitList (tasks s t) = Some (QueueHead q) \<and> wait (tasks s' t) = wait (tasks s t)"
    if "waitList (tasks s' t) = Some (QueueHead q)" for t q
  proof -
    have "waitList (tasks s' t) \<noteq> None" using that by simp
    then show ?thesis using assms(2) that unfolding calm_but_def by force
  qed
qed

lemma queues_apart_save [simp]: "queues_apart A (save t k s) = queues_apart A s"
  by (simp add: queues_apart_def harmless_def)

lemma rd_queue_upd [simp]: "(\<And>k. q_waiters (f k) = q_waiters k) \<Longrightarrow> rd (queue_upd m f s) = rd s"
proof
  fix c assume "\<And>k. q_waiters (f k) = q_waiters k"
  then show "rd (queue_upd m f s) c = rd s c"
    by (cases "(s, c)" rule: rd.cases) auto
qed

lemma rest_queue_upd [simp]:
  "(\<And>k. q_waiters (f k) = q_waiters k) \<Longrightarrow> rest A (queue_upd m f s) = rest A s"
  by (rule rest_objects) simp_all

lemma objects_ok_queue:
  assumes "objects_ok A s"
    and "tasks s' = tasks s" "semaphores s' = semaphores s" "events s' = events s"
    and "queues s' = (queues s)(q := k)"
    and "q_length k = q_length (queues s q)" and "q_count k \<le> q_length k"
    and "q_head k < q_length k \<or> q_head k = 0"
    and "q_count k = 0 \<or> q_count k = q_length k \<or> (\<forall>t \<in> A. waitList (tasks s t) \<noteq> Some (QueueHead q))"
  shows "objects_ok A s'"
  using assms unfolding objects_ok_def by auto

lemma queues_apart_upds:
  assumes "queues_apart A s"
  shows "queues_apart A (ram_upd g s)"
    and "(\<And>k. buffer (f k) = buffer k \<and> itemSize (f k) = itemSize k \<and> q_length (f k) = q_length k) \<Longrightarrow>
      queues_apart A (queue_upd q f s)"
  by (rule queues_apart_cong [OF assms]; simp)+

lemma rest_append:
  assumes r: "rest A s" and ap: "queues_apart A s"
    and h: "q_head (queues s x) < q_length (queues s x)" and c: "q_count (queues s x) < q_length (queues s x)"
    and item: "region item (unat (itemSize (queues s x))) \<inter> buffer_region (queues s x) = {}"
    and s': "s' = osQueueAppend x item s"
  shows "rest A s'" and "queues_apart A s'"
    and "messages (queues s' x) (ram s') =
      messages (queues s x) (ram s) @ [msg item (unat (itemSize (queues s x))) (ram s)]"
    and "tasks s' = tasks s" and "semaphores s' = semaphores s" and "events s' = events s"
    and "osCurrentTask s' = osCurrentTask s" and "rd s' = rd s"
    and "\<And>a. a \<notin> buffer_region (queues s x) \<Longrightarrow> ram s' a = ram s a"
    and "queues s' = (queues s)(x := q_count_update (\<lambda>n. n + 1) (queues s x))"
proof -
  let ?q = "queues s x"
  note app = append_messages [OF refl h c item s']
  have eq: "s' = queue_upd x (q_count_update (\<lambda>n. n + 1)) (ram_upd (\<lambda>_. ram s') s)" by (rule app(2))
  show "messages (queues s' x) (ram s') = messages ?q (ram s) @ [msg item (unat (itemSize ?q)) (ram s)]"
    by (rule app(1))
  show "\<And>a. a \<notin> buffer_region ?q \<Longrightarrow> ram s' a = ram s a" by (rule app(3))
  have "rest A (ram_upd (\<lambda>_. ram s') s)"
    by (rule rest_ram_upd [OF r, of "buffer_region ?q"])
      (use ap app(3) in \<open>auto simp: queues_apart_def\<close>)
  then show "rest A s'" by (subst eq) simp
  show "queues_apart A s'"
    by (subst eq) (intro queues_apart_upds ap; simp)
  show "tasks s' = tasks s" "semaphores s' = semaphores s" "events s' = events s"
      "osCurrentTask s' = osCurrentTask s" "rd s' = rd s"
      "queues s' = (queues s)(x := q_count_update (\<lambda>n. n + 1) ?q)"
    by (subst eq, simp)+
qed

lemma queue_head:
  assumes "objects_ok A s" and "q_length (queues s q) \<noteq> 0"
  shows "q_head (queues s q) < q_length (queues s q)"
proof -
  have "q_head (queues s q) < q_length (queues s q) \<or> q_head (queues s q) = 0"
    using assms(1) by (simp add: objects_ok_def)
  then show ?thesis using assms(2) by (auto simp: word_gt_0)
qed

section \<open>Sending\<close>

text \<open>The state is one every task can go on from, whether or not the caller waits.\<close>

definition goes_on :: "addr set \<Rightarrow> addr \<Rightarrow> outcome \<Rightarrow> kernel \<Rightarrow> bool" where
  "goes_on A c r s \<longleftrightarrow>
     (case r of
        Returned _ \<Rightarrow> rest A s \<and> osCurrentTask s = c
      | Switched \<Rightarrow> rest A (save c KQueue s) \<and> top_runs A s) \<and>
     objects_ok A s \<and> queues_apart A s"

text \<open>The caller waits for the queue, with the address of its message in \<open>wait\<close>.\<close>

lemma wait_for_queue:
  assumes r: "rest A s" and ok: "objects_ok A s" and ap: "queues_apart A s" and c: "c = osCurrentTask s"
    and time: "timeout \<noteq> OS_NO_WAIT"
    and q: "q_count (queues s q) = 0 \<or> q_count (queues s q) = q_length (queues s q)"
    and item: "harmless A s (region item (unat (itemSize (queues s q))))"
      "region item (unat (itemSize (queues s q))) \<inter> buffer_region (queues s q) = {}"
  shows "returns (osBlock (Some (QueueHead q)) timeout (set_wait c item s))
    (\<lambda>(r, s'). goes_on A c r s' \<and>
      (if c = osIdleTask s then r = Returned (VBool False)
       else r = Switched \<and> waitList (tasks s' c) = Some (QueueHead q) \<and> wait (tasks s' c) = item \<and>
         (timeout \<noteq> OS_WAIT_FOREVER \<longrightarrow> wake (tasks s' c) = osTicks s + timeout)))"
proof -
  let ?s = "set_wait c item s"
  have none: "waitList (tasks s c) = None" using running_waits_for_nothing [OF r] c by simp
  have r1: "rest A ?s" using r by simp
  have ok1: "objects_ok A ?s" using ok none by (auto simp: objects_ok_def)
  have ap1: "queues_apart A ?s"
    by (rule queues_apart_cong [OF ap]) (use none in \<open>auto split: if_splits\<close>)
  have good: "objects_ok A s' \<and> queues_apart A s'" if b: "blocked c (Some (QueueHead q)) timeout ?s s'" for s'
  proof
    show "objects_ok A s'" by (rule objects_ok_blocked [OF ok1 b]) (use q in auto)
    have calm: "calm_but {c} ?s s'" and w: "waitList (tasks s' c) = Some (QueueHead q)" "wait (tasks s' c) = item"
      using b by (simp_all add: blocked_def)
    have same: "buffer (queues s' x) = buffer (queues s x)" "itemSize (queues s' x) = itemSize (queues s x)"
        "q_length (queues s' x) = q_length (queues s x)" "stack (tasks s' t) = stack (tasks s t)" for x t
      using calm by (auto simp: calm_but_def)
    have hs: "harmless A s' X = harmless A s X" and bs: "buffer_region (queues s' x) = buffer_region (queues s x)" for X x
      by (simp_all add: harmless_def buffer_region_def same)
    have other: "waitList (tasks s t) = Some (QueueHead x) \<and> wait (tasks s' t) = wait (tasks s t)"
      if "t \<noteq> c" "waitList (tasks s' t) = Some (QueueHead x)" for t x
      using calm that unfolding calm_but_def by (metis fun_upd_other insert_iff empty_iff option.distinct(1) task_upd_simps(1))
    show "queues_apart A s'"
      unfolding queues_apart_def hs bs same
    proof (intro conjI allI ballI impI)
      fix t x assume t: "t \<in> A" "waitList (tasks s' t) = Some (QueueHead x)"
      show "harmless A s (region (wait (tasks s' t)) (unat (itemSize (queues s x))))"
           "region (wait (tasks s' t)) (unat (itemSize (queues s x))) \<inter> buffer_region (queues s x) = {}"
        using t other [of t x] ap item w by (cases "t = c"; auto simp: queues_apart_def)+
    qed (use ap in \<open>simp add: queues_apart_def\<close>)
  qed
  show ?thesis
    using block_rest_simple [OF r1 _ time, of c "Some (QueueHead q)" KQueue] c good r1 ok1 ap1
    by (auto simp: goes_on_def blocked_def elim!: returns_mono split: if_splits)
qed

lemma osQueuePut_rest:
  assumes r: "rest A s" and ok: "objects_ok A s" and ap: "queues_apart A s" and c: "c = osCurrentTask s"
    and Q: "Q = queues s q" and n: "n = unat (itemSize Q)"
    and item: "harmless A s (region item n)" "region item n \<inter> buffer_region Q = {}"
    and waiters: "\<And>t. t \<in> A \<Longrightarrow> waitList (tasks s t) = Some (QueueHead q) \<Longrightarrow>
      region (wait (tasks s t)) n \<inter> region item n = {}"
  shows "returns (osQueuePut q item timeout s)
    (\<lambda>(r, s'). goes_on A c r s' \<and>
      (case (if q_count Q = 0 then q_waiters Q else None) of
         Some w \<Rightarrow> r = Returned (VBool True) \<and>
           msg (wait (tasks s w)) n (ram s') = msg item n (ram s) \<and>
           result (tasks s' w) = 1 \<and> state (tasks s' w) = OS_TASK_READY \<and> waitList (tasks s' w) = None \<and>
           q_count (queues s' q) = 0
       | None \<Rightarrow>
           if q_count Q < q_length Q
           then r = Returned (VBool True) \<and>
             messages (queues s' q) (ram s') = messages Q (ram s) @ [msg item n (ram s)]
           else if timeout = OS_NO_WAIT then r = Returned (VBool False) \<and> s' = s
           else if c = osIdleTask s then r = Returned (VBool False)
           else r = Switched \<and> waitList (tasks s' c) = Some (QueueHead q) \<and> wait (tasks s' c) = item \<and>
             (timeout \<noteq> OS_WAIT_FOREVER \<longrightarrow> wake (tasks s' c) = osTicks s + timeout)))"
proof (cases "if q_count Q = 0 then q_waiters Q else None")
  case (Some w)
  then have empty: "q_count Q = 0" and "rd s (Head (QueueHead q)) = Some w"
    by (simp_all add: Q split: if_splits)
  note w = queue.most_important [OF r this(2)]
  define s1 where "s1 = ram_upd (memcpy n (wait (tasks s w)) item) s"
  have apw: "harmless A s (region (wait (tasks s w)) n)" "region (wait (tasks s w)) n \<inter> buffer_region Q = {}"
    using ap w(1,2) by (auto simp: queues_apart_def Q n)
  have r1: "rest A s1" unfolding s1_def
    by (rule rest_ram_upd [OF r apw(1)]) (rule memcpy_other)
  have "rd s1 (Head (QueueHead q)) = Some w" using Some by (simp add: s1_def Q split: if_splits)
  note wake = queue.hand_over [OF r1 this, of 1]
  have ok1: "objects_ok A s1" using ok by (simp add: s1_def)
  have ap1: "queues_apart A s1" unfolding s1_def by (rule queues_apart_upds(1) [OF ap])
  have n': "n \<le> 65536" using u8_bound [of "itemSize Q"] by (simp add: n)
  have m: "msg (wait (tasks s w)) n (ram s1) = msg item n (ram s)"
    unfolding s1_def using waiters [OF w(1,2)] n' by (simp add: msg_memcpy)
  have "goes_on A c (Returned (VBool True)) s' \<and> msg (wait (tasks s w)) n (ram s') = msg item n (ram s) \<and>
      result (tasks s' w) = 1 \<and> state (tasks s' w) = OS_TASK_READY \<and> waitList (tasks s' w) = None \<and>
      q_count (queues s' q) = 0"
    if s': "rest A s'" "data_eq (woken w 1 s1) s'" for s'
    using s'(1) objects_ok_wake [OF ok1 s'(2)] queues_apart_calm [OF ap1 woken_calm [OF s'(2)]] m c empty
    by (simp add: goes_on_def data_eqD [OF s'(2)]) (simp add: woken_def s1_def Q)
  then show ?thesis
    using wake Some by (auto simp: osQueuePut_def Q [symmetric] s1_def [symmetric] n [symmetric] Let_def
        elim!: returns_mono)
next
  case None
  have le: "q_count Q \<le> q_length Q" using ok by (simp add: objects_ok_def Q)
  show ?thesis
  proof (cases "q_count Q < q_length Q")
    case True
    have w: "q_count Q + 1 = q_length Q \<or> (\<forall>t \<in> A. waitList (tasks s t) \<noteq> Some (QueueHead q))"
    proof (cases "q_count Q = 0")
      case True
      then have "rd s (Head (QueueHead q)) = None" using None by (simp add: Q)
      then show ?thesis using queue.nobody [OF r] by blast
    next
      case False
      then show ?thesis using ok \<open>q_count Q < q_length Q\<close> unfolding objects_ok_def Q by auto
    qed
    have "q_length (queues s q) \<noteq> 0" using True by (auto simp: Q)
    note h = queue_head [OF ok this]
    note a = rest_append [OF r ap h True [unfolded Q] item(2) [unfolded n Q] refl]
    have "objects_ok A (osQueueAppend q item s)"
      by (rule objects_ok_queue [OF ok a(4-6,10)])
        (use h w inc_le [OF True] in \<open>auto simp: Q\<close>)
    then show ?thesis
      using None True a(1-7) c by (simp add: osQueuePut_def Q [symmetric] n goes_on_def Let_def)
  next
    case False
    then have full: "q_count (queues s q) = 0 \<or> q_count (queues s q) = q_length (queues s q)"
      using le by (simp add: Q)
    show ?thesis
    proof (cases "timeout = OS_NO_WAIT")
      case True
      then show ?thesis
        using None False r ok ap c by (simp add: osQueuePut_def Q [symmetric] goes_on_def Let_def)
    next
      case time: False
      then show ?thesis
        using None False wait_for_queue [OF r ok ap c time full] item
        by (simp add: osQueuePut_def Q [symmetric] n c [symmetric] Let_def)
    qed
  qed
qed


section \<open>Receiving\<close>

lemma osQueueGet_rest:
  assumes r: "rest A s" and ok: "objects_ok A s" and ap: "queues_apart A s" and c: "c = osCurrentTask s"
    and Q: "Q = queues s q" and n: "n = unat (itemSize Q)"
    and item: "harmless A s (region item n)" "region item n \<inter> buffer_region Q = {}"
    and waiters: "\<And>t. t \<in> A \<Longrightarrow> waitList (tasks s t) = Some (QueueHead q) \<Longrightarrow>
      region (wait (tasks s t)) n \<inter> region item n = {}"
  shows "returns (osQueueGet q item timeout s)
    (\<lambda>(r, s'). goes_on A c r s' \<and>
      (if q_count Q \<noteq> 0
       then r = Returned (VBool True) \<and> msg item n (ram s') = hd (messages Q (ram s)) \<and>
         (case q_waiters Q of
            None \<Rightarrow> messages (queues s' q) (ram s') = tl (messages Q (ram s))
          | Some w \<Rightarrow>
              messages (queues s' q) (ram s') =
                tl (messages Q (ram s)) @ [msg (wait (tasks s w)) n (ram s)] \<and>
              result (tasks s' w) = 1 \<and> state (tasks s' w) = OS_TASK_READY \<and> waitList (tasks s' w) = None)
       else if timeout = OS_NO_WAIT then r = Returned (VBool False) \<and> s' = s
       else if c = osIdleTask s then r = Returned (VBool False)
       else r = Switched \<and> waitList (tasks s' c) = Some (QueueHead q) \<and> wait (tasks s' c) = item \<and>
         (timeout \<noteq> OS_WAIT_FOREVER \<longrightarrow> wake (tasks s' c) = osTicks s + timeout)))"
proof (cases "q_count Q = 0")
  case True
  show ?thesis
  proof (cases "timeout = OS_NO_WAIT")
    case timeout: True
    then show ?thesis
      using True r ok ap c by (simp add: osQueueGet_def Q [symmetric] goes_on_def Let_def)
  next
    case time: False
    have "q_count (queues s q) = 0 \<or> q_count (queues s q) = q_length (queues s q)" using True by (simp add: Q)
    from wait_for_queue [OF r ok ap c time this] show ?thesis
      using True time item by (simp add: osQueueGet_def Q [symmetric] n c [symmetric] Let_def)
  qed
next
  case False
  define s1 where "s1 = ram_upd (memcpy n item (buffer Q + ucast (q_head Q) * ucast (itemSize Q))) s"
  define s2 where "s2 = queue_upd q (q_count_update (\<lambda>n. n - 1))
    (queue_upd q (q_head_update (\<lambda>h. if h + 1 = q_length Q then 0 else h + 1)) s1)"
  define Q2 where "Q2 = Q\<lparr>q_head := (if q_head Q + 1 = q_length Q then 0 else q_head Q + 1), q_count := q_count Q - 1\<rparr>"
  have le: "q_count Q \<le> q_length Q" using ok by (simp add: objects_ok_def Q)
  have len: "q_length Q \<noteq> 0" using False le by auto
  have h: "q_head Q < q_length Q" using queue_head [OF ok] len by (simp add: Q)
  note take_messages = take_messages [OF False h Q2_def]
  have n': "n \<le> 65536" using u8_bound [of "itemSize Q"] by (simp add: n)
  have Q2_eq: "Q2 = q_count_update (\<lambda>n. n - 1) (q_head_update (\<lambda>h. if h + 1 = q_length Q then 0 else h + 1) Q)"
    by (cases Q) (simp add: Q2_def)
  have s2: "queues s2 = (queues s)(q := Q2)" "tasks s2 = tasks s" "ram s2 = ram s1"
      "semaphores s2 = semaphores s" "events s2 = events s" "osCurrentTask s2 = osCurrentTask s" "rd s2 = rd s"
    by (simp_all add: s2_def s1_def Q2_eq Q)
  have r1: "rest A s1" unfolding s1_def
    by (rule rest_ram_upd [OF r item(1)]) (rule memcpy_other)
  then have r2: "rest A s2" by (simp add: s2_def)
  have ap2: "queues_apart A s2"
    unfolding s2_def s1_def by (intro queues_apart_upds ap; simp)
  have reg: "region (slot Q (unat (q_head Q))) n \<subseteq> buffer_region Q"
    unfolding n by (rule slot_region [OF len])
  have ms: "messages Q (ram s1) = messages Q (ram s)"
    using item(2) by (intro messages_cong len) (auto simp: s1_def intro!: memcpy_other)
  have hd: "msg item n (ram s1) = hd (messages Q (ram s))"
    unfolding take_messages(1) s1_def using item(2) reg n'
    by (simp add: head_slot [OF h] n [symmetric]) (intro msg_memcpy; auto)
  have tl: "messages Q2 (ram s2) = tl (messages Q (ram s))"
    using take_messages(1) [of "ram s1"] by (simp add: s2 ms [symmetric])
  have Q2: "q_length Q2 = q_length Q" "itemSize Q2 = itemSize Q" "q_head Q2 < q_length Q2"
      "buffer_region Q2 = buffer_region Q" "q_count Q2 = q_count Q - 1" "q_waiters Q2 = q_waiters Q"
    using take_messages(2) by (simp_all add: Q2_def buffer_region_def)
  have less: "q_count Q2 < q_count Q"
    using False by (simp add: Q2 word_less_nat_alt unat_minus_one unat_gt_0)
  have unfold: "osQueueGet q item timeout s =
      (case q_waiters Q of
         None \<Rightarrow> Some (Returned (VBool True), s2)
       | Some w \<Rightarrow> do {
           s \<leftarrow> osWake w 1 (osQueueAppend q (wait (tasks s2 w)) s2);
           Some (Returned (VBool True), s)
         })"
    using False by (simp add: osQueueGet_def Let_def Q [symmetric] n s2_def s1_def split: option.split)
  show ?thesis
  proof (cases "q_waiters Q")
    case None
    then have "rd s (Head (QueueHead q)) = None" by (simp add: Q)
    then have "\<forall>t \<in> A. waitList (tasks s t) \<noteq> Some (QueueHead q)" using queue.nobody [OF r] by blast
    then have "objects_ok A s2"
      by (intro objects_ok_queue [OF ok s2(2,4,5,1)])
        (use Q2 less le in \<open>auto simp: Q intro: less_imp_le order_trans\<close>)
    then show ?thesis
      using False None r2 ap2 hd tl c
      unfolding unfold by (simp add: s2 Q2 goes_on_def)
  next
    case (Some w)
    then have rdw: "rd s (Head (QueueHead q)) = Some w" by (simp add: Q)
    note w = queue.most_important [OF r rdw]
    have full: "q_count Q = q_length Q"
      using ok w(1,2) False unfolding objects_ok_def Q by blast
    have apw: "region (wait (tasks s w)) n \<inter> buffer_region Q = {}"
      using ap w(1,2) by (auto simp: queues_apart_def Q n)
    define s3 where "s3 = osQueueAppend q (wait (tasks s2 w)) s2"
    have q2: "queues s2 q = Q2" by (simp add: s2)
    have "q_count Q2 < q_length Q2" using less full Q2(1) by simp
    note a = rest_append [OF r2 ap2, of q, unfolded q2, OF Q2(3) this _ s3_def]
    have it: "region (wait (tasks s2 w)) (unat (itemSize Q2)) \<inter> buffer_region Q2 = {}"
      using apw by (simp add: s2 Q2 n)
    note a = a [OF it]
    have rd3: "rd s3 (Head (QueueHead q)) = Some w" using rdw by (simp add: a(8) s2 del: rd.simps)
    note wake = queue.hand_over [OF a(1) rd3, of 1]
    have cnt: "q_count Q2 + 1 = q_length Q" using full by (simp add: Q2)
    have "objects_ok A s3"
      by (rule objects_ok_queue [OF ok, of _ q "q_count_update (\<lambda>n. n + 1) Q2"])
        (use cnt Q2 in \<open>simp_all add: a s2 Q\<close>)
    note ok3 = objects_ok_wake [OF this]
    have m: "msg (wait (tasks s w)) n (ram s2) = msg (wait (tasks s w)) n (ram s)"
      using waiters [OF w(1,2)] by (intro msg_cong) (auto simp: s2 s1_def intro!: memcpy_other)
    have ms3: "messages (queues s3 q) (ram s3) = tl (messages Q (ram s)) @ [msg (wait (tasks s w)) n (ram s)]"
      using a(3) tl m by (simp add: s2 Q2 n)
    have item3: "msg item n (ram s3) = hd (messages Q (ram s))"
      unfolding hd [symmetric] s2(3) [symmetric] using item(2) by (intro msg_cong a(9)) (auto simp: Q2)
    have "goes_on A c (Returned (VBool True)) s' \<and> msg item n (ram s') = hd (messages Q (ram s)) \<and>
        messages (queues s' q) (ram s') = tl (messages Q (ram s)) @ [msg (wait (tasks s w)) n (ram s)] \<and>
        result (tasks s' w) = 1 \<and> state (tasks s' w) = OS_TASK_READY \<and> waitList (tasks s' w) = None"
      if s': "rest A s'" "data_eq (woken w 1 s3) s'" for s'
    proof -
      note d = data_eqD [OF s'(2)]
      have "ram s' = ram s3" by (simp add: d) (simp add: woken_def)
      moreover have "messages (queues s' q) r = messages (queues s3 q) r" for r
        by (simp add: messages_def slot_def d) (simp add: woken_def)
      ultimately show ?thesis
        using s'(1) ok3 [OF s'(2)] queues_apart_calm [OF a(2) woken_calm [OF s'(2)]] ms3 item3 c
        by (simp add: goes_on_def d a(7) s2) (simp add: woken_def)
    qed
    then show ?thesis
      using False Some wake
      unfolding unfold by (auto simp: s3_def [symmetric] elim!: returns_mono)
  qed
qed

section \<open>The calls of the tasks\<close>

definition queue_called :: "addr set \<Rightarrow> kernel \<Rightarrow> bool" where
  "queue_called A s \<longleftrightarrow> rest A s \<and> objects_ok A s \<and> queues_apart A s \<and> top_runs A s"

lemma osQueue_end_rest:
  assumes "rest A s" and "objects_ok A s" and "queues_apart A s"
  shows "returns (osQueue_end v s) (\<lambda>(r, s'). queue_called A s')"
  using schedule_ok [OF assms(1,2), of 0 "KReturn v" v] queues_apart_calm [OF assms(3)]
  by (auto simp: osQueue_end_def queue_called_def elim!: returns_mono)

lemma queue_call:
  assumes "returns m (\<lambda>(r, s'). goes_on A c r s' \<and> P r s')"
  shows "returns (leave c KQueue osQueue_end m) (\<lambda>(r, s'). queue_called A s')"
  using assms osQueue_end_rest
  by (auto simp: returns_leave goes_on_def queue_called_def split: outcome.split elim!: returns_mono)

end
