(* ===== verification/Events.thy ===== *)
theory Events
  imports Memory
begin

text \<open>\<^verbatim>\<open>system/event.c\<close>: eight flags tasks can wait for.\<close>

definition osEventInit :: "addr \<Rightarrow> kernel \<Rightarrow> kernel" where
  "osEventInit event s = event_upd event (\<lambda>_. \<lparr>e_waiters = None, e_flags = 0\<rparr>) s"

definition osEventMatch :: "u8 \<Rightarrow> u8 \<Rightarrow> u8 \<Rightarrow> u8" where
  "osEventMatch flags wanted options =
     (let flags = flags AND wanted in
      if options AND OS_EVENT_ALL \<noteq> 0 \<and> flags \<noteq> wanted then 0 else flags)"

definition osEventWait :: "addr \<Rightarrow> u8 \<Rightarrow> u8 \<Rightarrow> u16 \<Rightarrow> kernel \<Rightarrow> res" where
  "osEventWait event flags options timeout s =
     (let matched = osEventMatch (e_flags (events s event)) flags options in
      if matched \<noteq> 0 then
        Some (Returned (VByte matched),
          if options AND OS_EVENT_KEEP = 0
          then event_upd event (e_flags_update (\<lambda>f. f AND NOT matched)) s else s)
      else if timeout \<noteq> OS_NO_WAIT then
        (let task = osCurrentTask s;
             s = set_wait task (set_wait_flags flags (wait (tasks s task))) s;
             s = set_wait task (set_wait_options options (wait (tasks s task))) s
         in leave task KEventWait
              (\<lambda>v s. Some (Returned (VByte (if v = VBool True then wait_flags (wait (tasks s task)) else matched)), s))
              (osBlock (Some (EventHead event)) timeout s))
      else Some (Returned (VByte matched), s))"

partial_function (option) osEventSetFromISR_loop :: "addr \<Rightarrow> addr option \<Rightarrow> kernel \<Rightarrow> kernel option" where
  "osEventSetFromISR_loop event task s =
     (case task of
        None \<Rightarrow> Some s
      | Some t \<Rightarrow>
          let next = tnext (tasks s t);
              options = wait_options (wait (tasks s t));
              matched = osEventMatch (e_flags (events s event)) (wait_flags (wait (tasks s t))) options
          in if matched \<noteq> 0 then
               (let s = (if options AND OS_EVENT_KEEP = 0
                         then event_upd event (e_flags_update (\<lambda>f. f AND NOT matched)) s else s);
                    s = set_wait t (set_wait_flags matched (wait (tasks s t))) s
                in Option.bind (osWake t 1 s) (osEventSetFromISR_loop event next))
             else osEventSetFromISR_loop event next s)"

definition osEventSetFromISR :: "addr \<Rightarrow> u8 \<Rightarrow> kernel \<Rightarrow> kernel option" where
  "osEventSetFromISR event flags s =
     (let s = event_upd event (e_flags_update (\<lambda>f. f OR flags)) s
      in osEventSetFromISR_loop event (e_waiters (events s event)) s)"

definition osEventSet :: "addr \<Rightarrow> u8 \<Rightarrow> kernel \<Rightarrow> res" where
  "osEventSet event flags s = do {
     s \<leftarrow> osEventSetFromISR event flags s;
     leave (osCurrentTask s) (KReturn VVoid) (\<lambda>_ s. Some (Returned VVoid, s)) (osSchedule 0 s)
   }"

definition osEventClear :: "addr \<Rightarrow> u8 \<Rightarrow> kernel \<Rightarrow> kernel" where
  "osEventClear event flags s = event_upd event (e_flags_update (\<lambda>f. f AND NOT flags)) s"

definition osEventGet :: "addr \<Rightarrow> kernel \<Rightarrow> u8" where
  "osEventGet event s = e_flags (events s event)"

text \<open>\<open>sizeof(OsEvent)\<close> is 3.\<close>

definition osEventCreate :: "malloc \<Rightarrow> kernel \<Rightarrow> (addr option \<times> kernel) option" where
  "osEventCreate malloc s = do {
     (event, s) \<leftarrow> osMalloc malloc 3 s;
     case event of
       None \<Rightarrow> Some (None, s)
     | Some a \<Rightarrow> Some (Some a, osEventInit a s)
   }"

definition osEventDestroy :: "addr option \<Rightarrow> kernel \<Rightarrow> kernel option" where
  "osEventDestroy event s = osFree event s"


section \<open>Matching\<close>

lemma osEventMatch_iff: "osEventMatch f w p \<noteq> 0 \<longleftrightarrow> event_match f w p"
  by (auto simp: osEventMatch_def event_match_def Let_def)

text \<open>Whoever does not match the flags does not match fewer flags.\<close>

lemma event_match_fewer:
  assumes "event_match (f AND g) w p" shows "event_match f w p"
proof (cases "p AND OS_EVENT_ALL \<noteq> 0")
  case True
  with assms have fw: "(f AND g) AND w = w" "w \<noteq> 0" by (auto simp: event_match_def)
  then have "f AND w = f AND ((f AND g) AND w)" by simp
  also have "\<dots> = (f AND g) AND w" by (simp add: and.assoc)
  finally show ?thesis using True fw by (simp add: event_match_def)
next
  case False
  with assms have "(f AND g) AND w \<noteq> 0" by (auto simp: event_match_def)
  moreover have "(f AND g) AND w = g AND (f AND w)" by (simp add: ac_simps)
  ultimately have "f AND w \<noteq> 0" by auto
  with False show ?thesis by (simp add: event_match_def)
qed

section \<open>Waiting\<close>

lemma rd_event_upd [simp]: "(\<And>k. e_waiters (f k) = e_waiters k) \<Longrightarrow> rd (event_upd m f s) = rd s"
proof
  fix c assume "\<And>k. e_waiters (f k) = e_waiters k"
  then show "rd (event_upd m f s) c = rd s c"
    by (cases "(s, c)" rule: rd.cases) auto
qed

lemma kernel_inv_event_upd [simp]:
  "(\<And>k. e_waiters (f k) = e_waiters k) \<Longrightarrow> kernel_inv L TL OL A (event_upd m f s) = kernel_inv L TL OL A s"
  by (rule kernel_inv_objects) simp_all

lemma rest_event_upd [simp]:
  "(\<And>k. e_waiters (f k) = e_waiters k) \<Longrightarrow> rest A (event_upd m f s) = rest A s"
  by (simp add: rest_def)

lemma objects_ok_fewer_flags:
  "objects_ok A s \<Longrightarrow> objects_ok A (event_upd e (e_flags_update (\<lambda>f. f AND g)) s)"
  unfolding objects_ok_def by (auto dest: event_match_fewer)

lemma osEventWait_rest:
  assumes r: "rest A s" and ok: "objects_ok A s" and c: "c = osCurrentTask s"
    and m: "m = osEventMatch (e_flags (events s e)) flags options"
  shows "returns (osEventWait e flags options timeout s)
    (\<lambda>(r, s'). rest A s' \<and> objects_ok A s' \<and>
      (if m \<noteq> 0
       then r = Returned (VByte m) \<and> s' = (if options AND OS_EVENT_KEEP = 0
         then event_upd e (e_flags_update (\<lambda>f. f AND NOT m)) s else s)
       else if timeout = OS_NO_WAIT
       then r = Returned (VByte 0) \<and> s' = s
       else if c = osIdleTask s
       then r = Returned (VByte 0) \<and> events s' = events s
       else r = Switched \<and> waitList (tasks s' c) = Some (EventHead e) \<and>
         wait_flags (wait (tasks s' c)) = flags \<and> wait_options (wait (tasks s' c)) = options \<and>
         (timeout \<noteq> OS_WAIT_FOREVER \<longrightarrow> wake (tasks s' c) = osTicks s + timeout) \<and> top_runs A s'))"
proof (cases "m \<noteq> 0")
  case True
  then show ?thesis
    using r ok objects_ok_fewer_flags [OF ok, of e "NOT m"] m by (simp add: osEventWait_def Let_def)
next
  case no: False
  show ?thesis
  proof (cases "timeout = OS_NO_WAIT")
    case True
    then show ?thesis using no r ok m by (simp add: osEventWait_def Let_def)
  next
    case False
    define s1 where "s1 = set_wait c (set_wait_options options (wait (tasks
      (set_wait c (set_wait_flags flags (wait (tasks s c))) s) c)))
      (set_wait c (set_wait_flags flags (wait (tasks s c))) s)"
    have r1: "rest A s1" using r by (simp add: s1_def)
    have w1: "wait_flags (wait (tasks s1 c)) = flags" "wait_options (wait (tasks s1 c)) = options"
      and e1: "events s1 = events s" and i1: "osCurrentTask s1 = osCurrentTask s" "osIdleTask s1 = osIdleTask s"
        "osTicks s1 = osTicks s"
      by (simp_all add: s1_def)
    have ok1: "objects_ok A s1"
      using ok running_waits_for_nothing [OF r] c by (auto simp: objects_ok_def s1_def)
    have "objects_ok A s'" if "blocked c (Some (EventHead e)) timeout s1 s'" for s'
      by (rule objects_ok_blocked [OF ok1 that])
        (use no m in \<open>auto simp: w1 e1 osEventMatch_iff [symmetric]\<close>)
    then have blk: "returns (osBlock (Some (EventHead e)) timeout s1)
      (\<lambda>(r, s'). if c = osIdleTask s then r = Returned (VBool False) \<and> s' = s1
         else r = Switched \<and> rest A (save c KEventWait s') \<and> objects_ok A s' \<and> top_runs A s' \<and>
           blocked c (Some (EventHead e)) timeout s1 s')"
      using block_rest_simple [OF r1 _ False, of c "Some (EventHead e)" KEventWait] c
      by (auto simp: i1 elim!: returns_mono)
    have unfold: "osEventWait e flags options timeout s =
        leave c KEventWait (\<lambda>v s. Some (Returned (VByte (if v = VBool True
          then wait_flags (wait (tasks s c)) else m)), s)) (osBlock (Some (EventHead e)) timeout s1)"
      using no False m [symmetric] by (simp add: osEventWait_def s1_def Let_def c [symmetric] cong: if_cong)
    show ?thesis
      unfolding unfold returns_leave
      by (rule returns_mono [OF blk]) (use no False r1 ok1 e1 w1 i1 in
          \<open>auto simp: blocked_def split: if_splits\<close>)
  qed
qed

lemma osEventClear_rest:
  assumes "rest A s" and "objects_ok A s"
  shows "rest A (osEventClear e flags s)" and "objects_ok A (osEventClear e flags s)"
  using assms objects_ok_fewer_flags [of A s e "NOT flags"] by (simp_all add: osEventClear_def)


section \<open>Setting flags\<close>

text \<open>
  The waiters in the order they are served: each one that matches takes its flags, unless
  it keeps them. The result are the flags left and who got which flags.
\<close>

fun serve :: "kernel \<Rightarrow> u8 \<Rightarrow> addr list \<Rightarrow> u8 \<times> (addr \<times> u8) list" where
  "serve s f [] = (f, [])"
| "serve s f (t # ts) =
     (let p = wait_options (wait (tasks s t));
          m = osEventMatch f (wait_flags (wait (tasks s t))) p
      in if m \<noteq> 0 then
           (let (f', r) = serve s (if p AND OS_EVENT_KEEP = 0 then f AND NOT m else f) ts
            in (f', (t, m) # r))
         else serve s f ts)"

lemma serve_cong:
  "(\<And>t. t \<in> set ts \<Longrightarrow> wait (tasks s' t) = wait (tasks s t)) \<Longrightarrow> serve s' f ts = serve s f ts"
  by (induction ts arbitrary: f) (auto simp: Let_def)

lemma serve_served: "snd (serve s f (t # ts)) = snd (serve s f ts) \<or>
    (\<exists>m g. snd (serve s f (t # ts)) = (t, m) # snd (serve s g ts))"
  by (auto simp: Let_def split: prod.split) (metis snd_conv)+

lemma serve_set: "fst ` set (snd (serve s f ts)) \<subseteq> set ts"
proof (induction ts arbitrary: f)
  case Nil
  then show ?case by simp
next
  case (Cons t ts)
  consider "snd (serve s f (t # ts)) = snd (serve s f ts)"
    | m g where "snd (serve s f (t # ts)) = (t, m) # snd (serve s g ts)"
    using serve_served by blast
  then show ?case
  proof cases
    case 1
    then show ?thesis unfolding 1 using Cons [of f] by auto
  next
    case 2
    then show ?thesis unfolding 2 using Cons [of g] by auto
  qed
qed

lemma serve_fewer: "\<exists>g. fst (serve s f ts) = f AND g"
proof (induction ts arbitrary: f)
  case Nil
  have "f = f AND - 1" by simp
  then show ?case by (metis fst_conv serve.simps(1))
next
  case (Cons t ts)
  let ?m = "osEventMatch f (wait_flags (wait (tasks s t))) (wait_options (wait (tasks s t)))"
  obtain g where g: "fst (serve s (f AND NOT ?m) ts) = (f AND NOT ?m) AND g" using Cons by blast
  obtain g' where g': "fst (serve s f ts) = f AND g'" using Cons by blast
  have "fst (serve s f (t # ts)) \<in> {fst (serve s (f AND NOT ?m) ts), fst (serve s f ts)}"
    by (auto simp: Let_def split: prod.split)
  then show ?case
    using g g' by (auto simp: and.assoc)
qed

lemma serve_leaves:
  "t \<in> set ts \<Longrightarrow> t \<notin> fst ` set (snd (serve s f ts)) \<Longrightarrow>
   \<not> event_match (fst (serve s f ts)) (wait_flags (wait (tasks s t))) (wait_options (wait (tasks s t)))"
proof (induction ts arbitrary: f)
  case Nil
  then show ?case by simp
next
  case (Cons x ts)
  let ?p = "wait_options (wait (tasks s x))"
  let ?m = "osEventMatch f (wait_flags (wait (tasks s x))) ?p"
  show ?case
  proof (cases "?m = 0")
    case True
    then have eq: "serve s f (x # ts) = serve s f ts" by (simp add: Let_def)
    show ?thesis
    proof (cases "t \<in> set ts")
      case True
      then show ?thesis using Cons eq by simp
    next
      case False
      then have "t = x" using Cons.prems by simp
      then have "\<not> event_match f (wait_flags (wait (tasks s t))) (wait_options (wait (tasks s t)))"
        using True by (simp add: osEventMatch_iff [symmetric])
      then show ?thesis
        using serve_fewer [of s f ts] event_match_fewer unfolding eq by metis
    qed
  next
    case False
    let ?f = "if ?p AND OS_EVENT_KEEP = 0 then f AND NOT ?m else f"
    have eq: "serve s f (x # ts) = (fst (serve s ?f ts), (x, ?m) # snd (serve s ?f ts))"
      using False by (simp add: Let_def split: prod.split)
    have "t \<noteq> x" using Cons.prems(2) unfolding eq by simp
    then show ?thesis
      using Cons.IH [of ?f] Cons.prems unfolding eq by simp
  qed
qed

definition event_frame :: "addr \<Rightarrow> addr set \<Rightarrow> kernel \<Rightarrow> kernel \<Rightarrow> bool" where
  "event_frame e S s s' \<longleftrightarrow>
     (\<forall>t. t \<notin> S \<longrightarrow> waitList (tasks s' t) = waitList (tasks s t) \<and> wait (tasks s' t) = wait (tasks s t) \<and>
        state (tasks s' t) = state (tasks s t) \<and> result (tasks s' t) = result (tasks s t)) \<and>
     (\<forall>t. priority (tasks s' t) = priority (tasks s t)) \<and>
     (\<forall>x. x \<noteq> e \<longrightarrow> e_flags (events s' x) = e_flags (events s x)) \<and>
     (\<forall>x. s_count (semaphores s' x) = s_count (semaphores s x) \<and>
        s_limit (semaphores s' x) = s_limit (semaphores s x) \<and>
        q_length (queues s' x) = q_length (queues s x) \<and>
        q_count (queues s' x) = q_count (queues s x) \<and>
        q_head (queues s' x) = q_head (queues s x)) \<and>
     osCurrentTask s' = osCurrentTask s \<and> osIdleTask s' = osIdleTask s \<and> cont s' = cont s"

lemma event_frame_trans:
  "event_frame e S s s' \<Longrightarrow> event_frame e S' s' s'' \<Longrightarrow> event_frame e (S \<union> S') s s''"
  unfolding event_frame_def by auto

definition served :: "addr \<Rightarrow> kernel \<Rightarrow> u8 \<times> (addr \<times> u8) list \<Rightarrow> kernel \<Rightarrow> bool" where
  "served e s x s' \<longleftrightarrow>
     e_flags (events s' e) = fst x \<and> event_frame e (fst ` set (snd x)) s s' \<and>
     (\<forall>(t, m) \<in> set (snd x). waitList (tasks s' t) = None \<and> state (tasks s' t) = OS_TASK_READY \<and>
        result (tasks s' t) = 1 \<and> wait_flags (wait (tasks s' t)) = m)"

lemma served_step:
  assumes d: "data_eq (woken t 1 (set_wait t (set_wait_flags m (wait (tasks s t))) s1)) s3"
    and s1: "s1 = s \<or> s1 = event_upd e (e_flags_update g) s"
  shows "event_frame e {t} s s3" and "e_flags (events s3 e) = e_flags (events s1 e)"
    and "waitList (tasks s3 t) = None \<and> state (tasks s3 t) = OS_TASK_READY \<and>
      result (tasks s3 t) = 1 \<and> wait_flags (wait (tasks s3 t)) = m"
  using s1 by (auto simp: event_frame_def data_eqD [OF d] woken_def)

lemma osEventSetFromISR_loop:
  assumes "kernel_inv L TL OL A s" and "L (EventHead e) = pre @ ws"
  shows "returns (osEventSetFromISR_loop e (first ws) s)
    (\<lambda>s'. \<exists>L' TL'. kernel_inv L' TL' OL A s' \<and> served e s (serve s (e_flags (events s e)) ws) s')"
  using assms
proof (induction ws arbitrary: pre L TL s)
  case Nil
  then show ?case
    by (subst osEventSetFromISR_loop.simps) (auto simp: served_def event_frame_def)
next
  case (Cons t ws)
  note K = Cons.prems(1) and L = Cons.prems(2)
  have R: "repr L TL s" and inv: "data_inv {} L TL OL A s" using K by (simp_all add: kernel_inv_def)
  have "chain (rd s) Next (Head (EventHead e)) (pre @ t # ws)"
    using R L by (metis repr_def lists_def)
  then have nxt: "tnext (tasks s t) = first ws"
    by (metis chain_suffix chain_first rd.simps(7))
  let ?p = "wait_options (wait (tasks s t))"
  let ?m = "osEventMatch (e_flags (events s e)) (wait_flags (wait (tasks s t))) ?p"
  show ?case
  proof (cases "?m = 0")
    case True
    have "returns (osEventSetFromISR_loop e (first ws) s)
        (\<lambda>s'. \<exists>L' TL'. kernel_inv L' TL' OL A s' \<and> served e s (serve s (e_flags (events s e)) ws) s')"
      using Cons.IH [OF K, of "pre @ [t]"] L by simp
    then show ?thesis
      using True nxt by (subst osEventSetFromISR_loop.simps) (simp add: Let_def)
  next
    case False
    define s1 where "s1 = (if ?p AND OS_EVENT_KEEP = 0
      then event_upd e (e_flags_update (\<lambda>f. f AND NOT ?m)) s else s)"
    define s2 where "s2 = set_wait t (set_wait_flags ?m (wait (tasks s t))) s1"
    have s1: "s1 = s \<or> s1 = event_upd e (e_flags_update (\<lambda>f. f AND NOT ?m)) s" by (simp add: s1_def)
    have K2: "kernel_inv L TL OL A s2" using K by (auto simp: s2_def s1_def)
    have tL: "t \<in> set (L (EventHead e))" by (simp add: L)
    then have tA: "t \<in> A" using inv by (auto simp: data_inv_def placed_def dest: spec [of _ "EventHead e"])
    have pl: "task_placed L TL s t" using inv tA by (simp add: data_inv_def placed_def)
    then have wl: "waitList (tasks s t) = Some (EventHead e)"
      using tL unfolding task_placed_def by blast
    then have "state (tasks s t) AND OS_TASK_STATE = OS_TASK_BLOCKED"
      using pl by (simp add: task_placed_def)
    then have st: "state (tasks s2 t) \<noteq> OS_TASK_READY" "state (tasks s2 t) \<noteq> OS_TASK_DEAD"
        "state (tasks s2 t) \<noteq> OS_TASK_RUNNING"
      using s1 by (auto simp: s2_def)
    have wl2: "waitList (tasks s2 t) = Some (EventHead e)" using wl s1 by (auto simp: s2_def)
    let ?L = "made_ready s2 t (unwaited s2 t L)" and ?TL = "untimed s2 t TL"
    have dist: "distinct (pre @ t # ws)"
      using inv L unfolding data_inv_def placed_def by metis
    then have L3: "?L (EventHead e) = pre @ ws"
      by (simp add: made_ready_def unwaited_def wl2 L remove1_append)
    have one: "returns (osEventSetFromISR_loop e (first ws) s3)
        (\<lambda>s'. \<exists>L' TL'. kernel_inv L' TL' OL A s' \<and> served e s (serve s (e_flags (events s e)) (t # ws)) s')"
      if s3: "kernel_inv ?L ?TL OL A s3" "data_eq (woken t 1 s2) s3" for s3
    proof -
      note step = served_step [OF s3(2) [unfolded s2_def] s1]
      let ?f = "if ?p AND OS_EVENT_KEEP = 0 then e_flags (events s e) AND NOT ?m else e_flags (events s e)"
      have "e_flags (events s3 e) = ?f" using step(2) by (simp add: s1_def)
      moreover have "serve s3 f ws = serve s f ws" for f
        using step(1) dist by (intro serve_cong) (auto simp: event_frame_def)
      ultimately have serve3: "serve s3 (e_flags (events s3 e)) ws = serve s ?f ws" by simp
      have eq: "serve s (e_flags (events s e)) (t # ws) = (fst (serve s ?f ws), (t, ?m) # snd (serve s ?f ws))"
        using False by (simp add: Let_def split: prod.split)
      have "t \<notin> fst ` set (snd (serve s ?f ws))"
      proof -
        have "t \<notin> set ws" using dist by simp
        then show ?thesis using serve_set by blast
      qed
      then have "served e s (serve s (e_flags (events s e)) (t # ws)) s'"
        if "served e s3 (serve s ?f ws) s'" for s'
        using that step event_frame_trans [OF step(1), of "fst ` set (snd (serve s ?f ws))" s']
        unfolding eq served_def by (auto simp: event_frame_def)
      then show ?thesis
        using Cons.IH [OF s3(1) L3] unfolding serve3 by (auto elim!: returns_mono)
    qed
    have unfold: "osEventSetFromISR_loop e (first (t # ws)) s =
        Option.bind (osWake t 1 s2) (osEventSetFromISR_loop e (first ws))"
      using False nxt by (subst osEventSetFromISR_loop.simps) (simp add: Let_def s2_def s1_def)
    show ?thesis
      unfolding unfold returns_bind
      by (rule returns_mono [OF wake_kernel_inv [OF K2 tA st]]) (use one in blast)
  qed
qed


lemma event_frame_objects_ok:
  assumes ok: "objects_ok A s" and fr: "event_frame e S s s'"
    and S: "\<And>t. t \<in> S \<Longrightarrow> waitList (tasks s' t) = None"
    and e: "\<And>t. t \<in> A \<Longrightarrow> t \<notin> S \<Longrightarrow> waitList (tasks s t) = Some (EventHead e) \<Longrightarrow>
      \<not> event_match (e_flags (events s' e)) (wait_flags (wait (tasks s t))) (wait_options (wait (tasks s t)))"
  shows "objects_ok A s'"
proof -
  have t: "waitList (tasks s' t) = Some h \<Longrightarrow>
      t \<notin> S \<and> waitList (tasks s t) = Some h \<and> wait (tasks s' t) = wait (tasks s t)" for t h
    using fr S by (cases "t \<in> S") (auto simp: event_frame_def)
  have o: "s_count (semaphores s' x) = s_count (semaphores s x)"
      "s_limit (semaphores s' x) = s_limit (semaphores s x)"
      "q_length (queues s' x) = q_length (queues s x)" "q_count (queues s' x) = q_count (queues s x)"
      "q_head (queues s' x) = q_head (queues s x)" for x
    using fr by (auto simp: event_frame_def)
  show ?thesis
    unfolding objects_ok_def o
  proof (intro conjI ballI allI impI)
    fix t x assume A: "t \<in> A" "waitList (tasks s' t) = Some (EventHead x)"
    have w: "wait (tasks s' t) = wait (tasks s t)" "t \<notin> S" "waitList (tasks s t) = Some (EventHead x)"
      using t [OF A(2)] by auto
    show "\<not> event_match (e_flags (events s' x)) (wait_flags (wait (tasks s' t))) (wait_options (wait (tasks s' t)))"
    proof (cases "x = e")
      case True
      then show ?thesis using e [of t] A w by simp
    next
      case False
      then have "e_flags (events s' x) = e_flags (events s x)" using fr by (simp add: event_frame_def)
      then show ?thesis using ok A w by (auto simp: objects_ok_def)
    qed
  qed (use ok t in \<open>auto simp: objects_ok_def\<close>)
qed

lemma osEventSetFromISR_rest:
  assumes r: "rest A s" and ok: "objects_ok A s"
  shows "returns (osEventSetFromISR e flags s)
    (\<lambda>s'. rest A s' \<and> objects_ok A s' \<and> osCurrentTask s' = osCurrentTask s \<and>
      (\<exists>ws. distinct ws \<and> set ws = {t \<in> A. waitList (tasks s t) = Some (EventHead e)} \<and>
        sorted_wrt (\<lambda>x y. priority (tasks s y) \<le> priority (tasks s x)) ws \<and>
        served e s (serve s (e_flags (events s e) OR flags) ws) s'))"
proof -
  from r obtain L TL OL where K: "kernel_inv L TL OL A s" by (auto simp: rest_def)
  have inv: "data_inv {} L TL OL A s" using K by (simp add: kernel_inv_def)
  define s1 where "s1 = event_upd e (e_flags_update (\<lambda>f. f OR flags)) s"
  define ws where "ws = L (EventHead e)"
  have K1: "kernel_inv L TL OL A s1" using K by (simp add: s1_def)
  have "e_waiters (events s1 e) = first ws"
    using K1 lists_head [of L s1 "EventHead e"] by (simp add: kernel_inv_def repr_def ws_def)
  moreover have "serve s1 f ws = serve s f ws" for f
    by (rule serve_cong) (simp add: s1_def)
  moreover have "e_flags (events s1 e) = e_flags (events s e) OR flags" by (simp add: s1_def)
  ultimately have loop: "returns (osEventSetFromISR e flags s)
      (\<lambda>s'. \<exists>L' TL'. kernel_inv L' TL' OL A s' \<and> served e s1 (serve s (e_flags (events s e) OR flags) ws) s')"
    using osEventSetFromISR_loop [OF K1, of e "[]" ws] by (simp add: osEventSetFromISR_def s1_def ws_def)
  have in_ws: "t \<in> A \<Longrightarrow> t \<in> set ws \<longleftrightarrow> waitList (tasks s t) = Some (EventHead e)" for t
    using inv unfolding data_inv_def placed_def task_placed_def ws_def by blast
  have ws: "distinct ws" "set ws = {t \<in> A. waitList (tasks s t) = Some (EventHead e)}"
      "sorted_wrt (\<lambda>x y. priority (tasks s y) \<le> priority (tasks s x)) ws"
  proof -
    show "distinct ws" using inv unfolding data_inv_def placed_def ws_def by blast
    have "set ws \<subseteq> A" using inv unfolding data_inv_def placed_def ws_def by blast
    then show "set ws = {t \<in> A. waitList (tasks s t) = Some (EventHead e)}"
      using in_ws by auto
    show "sorted_wrt (\<lambda>x y. priority (tasks s y) \<le> priority (tasks s x)) ws"
      using inv unfolding data_inv_def prio_sorted_def ws_def by_priority_abs by blast
  qed
  have "rest A s' \<and> objects_ok A s' \<and> osCurrentTask s' = osCurrentTask s \<and>
      served e s (serve s (e_flags (events s e) OR flags) ws) s'"
    if s': "kernel_inv L' TL' OL A s'" "served e s1 (serve s (e_flags (events s e) OR flags) ws) s'" for s' L' TL'
  proof -
    let ?x = "serve s (e_flags (events s e) OR flags) ws"
    have f1: "event_frame e (fst ` set (snd ?x)) s s'"
      using s'(2) by (auto simp: served_def event_frame_def s1_def)
    then have "rest A s'" using r s'(1) by (auto simp: rest_def event_frame_def)
    moreover have "objects_ok A s'"
    proof (rule event_frame_objects_ok [OF ok f1])
      show "waitList (tasks s' t) = None" if "t \<in> fst ` set (snd ?x)" for t
        using that s'(2) by (auto simp: served_def)
      show "\<not> event_match (e_flags (events s' e)) (wait_flags (wait (tasks s t))) (wait_options (wait (tasks s t)))"
        if "t \<in> A" "t \<notin> fst ` set (snd ?x)" "waitList (tasks s t) = Some (EventHead e)" for t
        using serve_leaves [OF _ that(2)] in_ws [OF that(1)] that(3) s'(2) by (simp add: served_def)
    qed
    moreover have "served e s ?x s'"
      using s'(2) f1 by (simp add: served_def)
    ultimately show ?thesis using f1 by (simp add: event_frame_def)
  qed
  then show ?thesis
    using loop ws by (fastforce elim!: returns_mono)
qed

lemma osEventSet_rest:
  assumes r: "rest A s" and ok: "objects_ok A s"
  shows "returns (osEventSet e flags s) (\<lambda>(r, s'). rest A s' \<and> objects_ok A s' \<and> top_runs A s')"
  using osEventSetFromISR_rest [OF r ok, of e flags] schedule_ok
  by (fastforce simp: osEventSet_def elim!: returns_mono)

end
