(* ===== verification/Mutexes.thy ===== *)
theory Mutexes
  imports Memory
begin

text \<open>\<^verbatim>\<open>system/mutex.c\<close>: mutexes with priority inheritance.\<close>

definition osMutexInit :: "addr \<Rightarrow> kernel \<Rightarrow> kernel" where
  "osMutexInit mutex s = mutex_upd mutex (\<lambda>_. \<lparr>m_waiters = None, owner = None, nextOwned = None\<rparr>) s"

definition osMutexOwn :: "addr \<Rightarrow> addr \<Rightarrow> kernel \<Rightarrow> kernel" where
  "osMutexOwn mutex task s =
     (let s = set_owner mutex (Some task) s;
          s = set_nextOwned mutex (tmutexes (tasks s task)) s
      in set_tmutexes task (Some mutex) s)"

text \<open>
  What is left to do once \<open>osBlock\<close> has returned: the owner does not have to hurry because
  of a task that gave up.
\<close>

definition osMutexTryLock_end :: "addr \<Rightarrow> bool \<Rightarrow> kernel \<Rightarrow> res" where
  "osMutexTryLock_end mutex locked s = do {
     s \<leftarrow> (if locked then Some s
           else case owner (mutexes s mutex) of
             None \<Rightarrow> Some s
           | Some task \<Rightarrow> do {
               p \<leftarrow> osInheritedPriority task s;
               if p < priority (tasks s task) then osRequeue task (set_priority task p s) else Some s
             });
     Some (Returned (VBool locked), s)
   }"

definition osMutexTryLock :: "addr \<Rightarrow> u16 \<Rightarrow> kernel \<Rightarrow> res" where
  "osMutexTryLock mutex timeout s =
     (let task = osCurrentTask s in
      case owner (mutexes s mutex) of
        None \<Rightarrow> Some (Returned (VBool True), osMutexOwn mutex task s)
      | Some o' \<Rightarrow>
          if timeout = OS_NO_WAIT then Some (Returned (VBool False), s)
          else do {
            s \<leftarrow> osPriorityRaise o' (priority (tasks s task)) s;
            let s = set_state task (state (tasks s task) OR OS_TASK_MUTEX) s;
            leave task (KMutexTryLock mutex)
              (\<lambda>v. osMutexTryLock_end mutex (v = VBool True))
              (osBlock (Some (MutexHead mutex)) timeout s)
          })"

definition osMutexLock :: "addr \<Rightarrow> kernel \<Rightarrow> res" where
  "osMutexLock mutex s = osMutexTryLock mutex OS_WAIT_FOREVER s"

definition osMutexPass :: "addr \<Rightarrow> kernel \<Rightarrow> kernel option" where
  "osMutexPass mutex s =
     (case m_waiters (mutexes s mutex) of
        Some waiter \<Rightarrow> osWake waiter 1 (osMutexOwn mutex waiter s)
      | None \<Rightarrow> Some (set_owner mutex None s))"

partial_function (option) osMutexReleaseAll :: "addr \<Rightarrow> kernel \<Rightarrow> kernel option" where
  "osMutexReleaseAll task s =
     (case tmutexes (tasks s task) of
        None \<Rightarrow> Some s
      | Some mutex \<Rightarrow>
          Option.bind (osMutexPass mutex (set_tmutexes task (nextOwned (mutexes s mutex)) s))
            (osMutexReleaseAll task))"

definition osMutexDisown :: "addr \<Rightarrow> addr \<Rightarrow> kernel \<Rightarrow> kernel option" where
  "osMutexDisown mutex task s = do {
     (owned, it) \<leftarrow> walk (ord s) NextOwned (\<lambda>it. it \<noteq> mutex) (OwnedBy task);
     case it of
       None \<Rightarrow> Some s
     | Some _ \<Rightarrow> Some (owr owned (nextOwned (mutexes s mutex)) s)
   }"

definition osMutexUnlock :: "addr \<Rightarrow> kernel \<Rightarrow> res" where
  "osMutexUnlock mutex s =
     (let task = osCurrentTask s in
      if owner (mutexes s mutex) = Some task then do {
        s \<leftarrow> osMutexDisown mutex task s;
        s \<leftarrow> osMutexPass mutex s;
        p \<leftarrow> osInheritedPriority task s;
        let s = set_priority task p s;
        leave task (KReturn VVoid) (\<lambda>_ s. Some (Returned VVoid, s)) (osSchedule 0 s)
      } else Some (Returned VVoid, s))"

text \<open>\<open>sizeof(OsMutex)\<close> is 6.\<close>

definition osMutexCreate :: "malloc \<Rightarrow> kernel \<Rightarrow> (addr option \<times> kernel) option" where
  "osMutexCreate malloc s = do {
     (mutex, s) \<leftarrow> osMalloc malloc 6 s;
     case mutex of
       None \<Rightarrow> Some (None, s)
     | Some a \<Rightarrow> Some (Some a, osMutexInit a s)
   }"

definition osMutexDestroy :: "addr option \<Rightarrow> kernel \<Rightarrow> kernel option" where
  "osMutexDestroy mutex s = osFree mutex s"


section \<open>Changing owners\<close>

text \<open>The invariant while mutex \<open>m\<close> has been taken off the list of its owner.\<close>

definition owners_but ::
  "addr \<Rightarrow> addr set \<Rightarrow> (head \<Rightarrow> addr list) \<Rightarrow> (addr \<Rightarrow> addr list) \<Rightarrow> addr set \<Rightarrow> kernel \<Rightarrow> bool" where
  "owners_but m X L OL A s \<longleftrightarrow>
     (\<forall>t \<in> A. chain (ord s) NextOwned (OwnedBy t) (OL t)) \<and>
     (\<forall>t x. x \<in> set (OL t) \<longleftrightarrow> x \<noteq> m \<and> owner (mutexes s x) = Some t) \<and>
     (\<forall>x t. owner (mutexes s x) = Some t \<longrightarrow> t \<in> A) \<and>
     (\<forall>x. x \<noteq> m \<longrightarrow> (\<forall>t \<in> A - X. owner (mutexes s x) = Some t \<longrightarrow> state (tasks s t) \<noteq> OS_TASK_DEAD)) \<and>
     (\<forall>x. L (MutexHead x) \<noteq> [] \<longrightarrow> owner (mutexes s x) \<noteq> None)"

definition data_but ::
  "addr \<Rightarrow> addr set \<Rightarrow> (head \<Rightarrow> addr list) \<Rightarrow> addr list \<Rightarrow> (addr \<Rightarrow> addr list) \<Rightarrow> addr set \<Rightarrow> kernel \<Rightarrow> bool" where
  "data_but m X L TL OL A s \<longleftrightarrow>
     placed X L TL A s \<and> prio_sorted L s \<and> timed_sorted TL s \<and> owners_but m X L OL A s \<and>
     no_inversion L s \<and> bounded A s \<and> idle_ok X A s \<and> canaries A s \<and> osCurrentTask s \<in> A"

text \<open>What an assignment to the links between mutexes leaves alone.\<close>

lemma owr_simps [simp]:
  "waitList (tasks (owr c v s) t) = waitList (tasks s t)"
  "wake (tasks (owr c v s) t) = wake (tasks s t)"
  "wait (tasks (owr c v s) t) = wait (tasks s t)"
  "state (tasks (owr c v s) t) = state (tasks s t)"
  "result (tasks (owr c v s) t) = result (tasks s t)"
  "priority (tasks (owr c v s) t) = priority (tasks s t)"
  "basePriority (tasks (owr c v s) t) = basePriority (tasks s t)"
  "stack (tasks (owr c v s) t) = stack (tasks s t)"
  "owner (mutexes (owr c v s) m) = owner (mutexes s m)"
  "semaphores (owr c v s) = semaphores s" "queues (owr c v s) = queues s" "events (owr c v s) = events s"
  "osTicks (owr c v s) = osTicks s" "osIdleTask (owr c v s) = osIdleTask s"
  "osCurrentTask (owr c v s) = osCurrentTask s" "ram (owr c v s) = ram s" "cont (owr c v s) = cont s"
  by (cases "(c, v, s)" rule: owr.cases; simp)+

lemma repr_owr [simp]: "repr L TL (owr c v s) = repr L TL s"
proof (cases c)
  case (OwnedBy t)
  then show ?thesis by simp
next
  case (NextOwned m)
  have "rd (set_nextOwned m v s) = rd s"
  proof
    fix d show "rd (set_nextOwned m v s) d = rd s d" by (cases "(s, d)" rule: rd.cases) auto
  qed
  moreover have "trd (set_nextOwned m v s) = trd s" by (rule trd_cong) simp_all
  ultimately show ?thesis by (simp only: NextOwned owr.simps repr_def lists_def timer_list_def)
qed

lemma rd_mutex_upd [simp]: "(\<And>k. m_waiters (f k) = m_waiters k) \<Longrightarrow> rd (mutex_upd m f s) = rd s"
proof
  fix c assume "\<And>k. m_waiters (f k) = m_waiters k"
  then show "rd (mutex_upd m f s) c = rd s c"
    by (cases "(s, c)" rule: rd.cases) auto
qed

lemma repr_mutex_upd [simp]:
  "(\<And>k. m_waiters (f k) = m_waiters k) \<Longrightarrow> repr L TL (mutex_upd m f s) = repr L TL s"
proof -
  have "trd (mutex_upd m f s) = trd s" by (rule trd_cong) simp_all
  then show "(\<And>k. m_waiters (f k) = m_waiters k) \<Longrightarrow> ?thesis"
    by (simp add: repr_def lists_def timer_list_def)
qed

text \<open>The parts of the invariant that do not depend on who owns what.\<close>

lemma parts_cong:
  assumes m: "\<And>t. waitList (tasks s' t) = waitList (tasks s t)"
      "\<And>t. wake (tasks s' t) = wake (tasks s t)" "\<And>t. state (tasks s' t) = state (tasks s t)"
      "\<And>t. priority (tasks s' t) = priority (tasks s t)"
      "\<And>t. basePriority (tasks s' t) = basePriority (tasks s t)"
      "\<And>t. stack (tasks s' t) = stack (tasks s t)"
      "osIdleTask s' = osIdleTask s" "osTicks s' = osTicks s" "ram s' = ram s"
  shows "placed X L TL A s' = placed X L TL A s" "prio_sorted L s' = prio_sorted L s"
    "timed_sorted TL s' = timed_sorted TL s" "bounded A s' = bounded A s"
    "idle_ok X A s' = idle_ok X A s" "canaries A s' = canaries A s" "not_due TL s' = not_due TL s"
    "running R A s' = running R A s"
proof -
  have eq: "left s' = left s" "by_priority s' = by_priority s" "task_placed L TL s' = task_placed L TL s"
    by (simp_all add: by_priority_def left_def task_placed_def fun_eq_iff m)
  have t: "by_time s' = by_time s" by (simp add: by_time_def fun_eq_iff eq)
  show "placed X L TL A s' = placed X L TL A s" "prio_sorted L s' = prio_sorted L s"
    "timed_sorted TL s' = timed_sorted TL s" "bounded A s' = bounded A s"
    "idle_ok X A s' = idle_ok X A s" "canaries A s' = canaries A s" "not_due TL s' = not_due TL s"
    "running R A s' = running R A s"
    by (simp_all add: placed_def prio_sorted_def timed_sorted_def bounded_def idle_ok_def canaries_def
        not_due_def running_def m eq t)
qed

lemma wakes_owr [simp]: "wakes s (owr c v s)"
  by (cases "(c, v, s)" rule: owr.cases) (auto simp: wakes_def calm_but_def)

lemma disown_data:
  assumes inv: "data_inv X L TL OL A s" and t: "owner (mutexes s m) = Some t"
    and ms: "OL t = pre @ m # post"
    and s1: "s1 = owr (cell_after NextOwned (OwnedBy t) pre) (nextOwned (mutexes s m)) s"
  shows "data_but m X L TL (OL(t := pre @ post)) A s1"
proof -
  have own: "owners X L OL A s" using inv by (simp add: data_inv_def)
  then have ch: "x \<in> A \<Longrightarrow> chain (ord s) NextOwned (OwnedBy x) (OL x)" for x
    by (simp add: owners_def)
  have mem: "x \<in> set (OL y) \<longleftrightarrow> owner (mutexes s x) = Some y" for x y
    using own by (simp add: owners_def)
  have tA: "t \<in> A" using own t by (auto simp: owners_def)
  have dist: "distinct (pre @ m # post)" using chain_distinct [OF ch [OF tA]] ms by simp
  have "chain (ord s1) NextOwned (OwnedBy x) ((OL(t := pre @ post)) x)" if x: "x \<in> A" for x
  proof (cases "x = t")
    case True
    have "chain (ord (owr (cell_after NextOwned (OwnedBy t) pre) (ord s (NextOwned m)) s))
        NextOwned (OwnedBy t) (pre @ post)"
      by (rule owned.splice_out) (use ch [OF tA] ms in auto)
    then show ?thesis using True by (simp add: s1)
  next
    case False
    have "set pre \<inter> set (OL x) = {}"
    proof -
      have "set pre \<subseteq> set (OL t)" by (auto simp: ms)
      then show ?thesis using mem False by fastforce
    qed
    then have "chain (ord s1) NextOwned (OwnedBy x) (OL x)"
      unfolding s1 using ch [OF x] False
      by (intro owned.other_list owned.cell_after_other) (auto simp: cell_after_def)
    then show ?thesis using False by simp
  qed
  moreover have "x \<in> set ((OL(t := pre @ post)) y) \<longleftrightarrow> x \<noteq> m \<and> owner (mutexes s1 x) = Some y" for x y
    using mem [of x y] ms dist t by (auto simp: s1)
  moreover have "\<forall>x. L (MutexHead x) \<noteq> [] \<longrightarrow> owner (mutexes s1 x) \<noteq> None"
      "\<forall>x y. owner (mutexes s1 x) = Some y \<longrightarrow> y \<in> A"
      "\<forall>x. x \<noteq> m \<longrightarrow> (\<forall>y \<in> A - X. owner (mutexes s1 x) = Some y \<longrightarrow> state (tasks s1 y) \<noteq> OS_TASK_DEAD)"
    using own unfolding owners_def by (simp_all add: s1)
  ultimately have "owners_but m X L (OL(t := pre @ post)) A s1"
    unfolding owners_but_def by blast
  moreover have "no_inversion L s1"
    using inv by (simp add: data_inv_def no_inversion_def s1)
  ultimately show ?thesis
    using inv parts_cong [of s1 s] by (simp add: data_but_def data_inv_def s1)
qed

lemma data_but_free:
  "data_inv X L TL OL A s \<Longrightarrow> owner (mutexes s m) = None \<Longrightarrow> data_but m X L TL OL A s"
  by (auto simp: data_inv_def data_but_def owners_def owners_but_def)

lemma osMutexOwn_eq:
  "osMutexOwn m w s = owr (OwnedBy w) (Some m) (owr (NextOwned m) (tmutexes (tasks s w)) (set_owner m (Some w) s))"
  by (simp add: osMutexOwn_def Let_def)

lemma osMutexOwn_simps [simp]:
  "waitList (tasks (osMutexOwn m w s) t) = waitList (tasks s t)"
  "wake (tasks (osMutexOwn m w s) t) = wake (tasks s t)"
  "wait (tasks (osMutexOwn m w s) t) = wait (tasks s t)"
  "state (tasks (osMutexOwn m w s) t) = state (tasks s t)"
  "result (tasks (osMutexOwn m w s) t) = result (tasks s t)"
  "priority (tasks (osMutexOwn m w s) t) = priority (tasks s t)"
  "basePriority (tasks (osMutexOwn m w s) t) = basePriority (tasks s t)"
  "stack (tasks (osMutexOwn m w s) t) = stack (tasks s t)"
  "owner (mutexes (osMutexOwn m w s) x) = (if x = m then Some w else owner (mutexes s x))"
  "semaphores (osMutexOwn m w s) = semaphores s" "queues (osMutexOwn m w s) = queues s"
  "events (osMutexOwn m w s) = events s"
  "osTicks (osMutexOwn m w s) = osTicks s" "osIdleTask (osMutexOwn m w s) = osIdleTask s"
  "osCurrentTask (osMutexOwn m w s) = osCurrentTask s" "ram (osMutexOwn m w s) = ram s"
  "cont (osMutexOwn m w s) = cont s"
  "repr L TL (osMutexOwn m w s) = repr L TL s"
  by (simp_all add: osMutexOwn_eq del: owr.simps)

lemma own_data:
  assumes inv: "data_but m X L TL OL A s" and w: "w \<in> A" "w \<notin> X \<Longrightarrow> state (tasks s w) \<noteq> OS_TASK_DEAD"
    and top: "\<And>x. x \<in> set (L (MutexHead m)) \<Longrightarrow> priority (tasks s x) \<le> priority (tasks s w)"
  shows "data_inv X L TL (OL(w := m # OL w)) A (osMutexOwn m w s)"
proof -
  let ?s = "osMutexOwn m w s" and ?base = "set_owner m (Some w) s"
  have own: "owners_but m X L OL A s" using inv by (simp add: data_but_def)
  have ord0: "ord ?base = ord s" by (rule ord_cong) auto
  have ch: "x \<in> A \<Longrightarrow> chain (ord ?base) NextOwned (OwnedBy x) (OL x)" for x
    using own by (simp add: owners_but_def ord0)
  have mem: "x \<in> set (OL y) \<longleftrightarrow> x \<noteq> m \<and> owner (mutexes s x) = Some y" for x y
    using own by (simp add: owners_but_def)
  have "chain (ord ?s) NextOwned (OwnedBy x) ((OL(w := m # OL w)) x)" if x: "x \<in> A" for x
  proof (cases "x = w")
    case True
    have "tmutexes (tasks s w) = first (OL w)" using chain_first [OF ch [OF w(1)]] by simp
    then have eq: "?s = owr (OwnedBy w) (Some m) (owr (NextOwned m) (first (OL w)) ?base)"
      by (simp only: osMutexOwn_eq)
    have "chain (ord (owr (cell_after NextOwned (OwnedBy w) []) (Some m)
        (owr (NextOwned m) (first (OL w)) ?base))) NextOwned (OwnedBy w) ([] @ m # OL w)"
      using ch [OF w(1)] mem [of m w] by (intro owned.splice_in) auto
    then show ?thesis
      by (simp only: eq True cell_after_simps append_Nil fun_upd_same)
  next
    case False
    then have "chain (ord ?s) NextOwned (OwnedBy x) (OL x)"
      unfolding osMutexOwn_eq using ch [OF x] mem [of m x] by (intro owned.other_list) auto
    then show ?thesis using False by simp
  qed
  moreover have "x \<in> set ((OL(w := m # OL w)) y) \<longleftrightarrow> owner (mutexes ?s x) = Some y" for x y
    using mem [of x y] by auto
  moreover have "\<forall>x. L (MutexHead x) \<noteq> [] \<longrightarrow> owner (mutexes ?s x) \<noteq> None"
      "\<forall>x y. owner (mutexes ?s x) = Some y \<longrightarrow> y \<in> A"
      "\<forall>x. \<forall>y \<in> A - X. owner (mutexes ?s x) = Some y \<longrightarrow> state (tasks ?s y) \<noteq> OS_TASK_DEAD"
    using own w unfolding owners_but_def by simp_all
  ultimately have "owners X L (OL(w := m # OL w)) A ?s"
    unfolding owners_def by blast
  moreover have "no_inversion L ?s"
    using inv top by (auto simp: data_but_def no_inversion_def)
  ultimately show ?thesis
    using inv parts_cong [of ?s s] by (simp add: data_but_def data_inv_def)
qed

lemma unown_data:
  assumes inv: "data_but m X L TL OL A s" and nobody: "L (MutexHead m) = []"
  shows "data_inv X L TL OL A (set_owner m None s)"
proof -
  let ?s = "set_owner m None s"
  have own: "owners_but m X L OL A s" using inv by (simp add: data_but_def)
  have "ord ?s = ord s" by (rule ord_cong) auto
  then have "owners X L OL A ?s"
    using own nobody unfolding owners_def owners_but_def by auto
  moreover have "no_inversion L ?s"
    using inv by (auto simp: data_but_def no_inversion_def)
  ultimately show ?thesis
    using inv parts_cong [of ?s s] by (simp add: data_but_def data_inv_def)
qed


section \<open>Handing a mutex over\<close>

lemma owned_list:
  assumes inv: "data_inv X L TL OL A s" and o': "owner (mutexes s m) = Some t"
  obtains pre post where "OL t = pre @ m # post" and "t \<in> A"
    and "chain (ord s) NextOwned (OwnedBy t) (pre @ m # post)"
proof -
  have own: "owners X L OL A s" using inv by (simp add: data_inv_def)
  then have "m \<in> set (OL t)" "t \<in> A" using o' by (auto simp: owners_def)
  then obtain pre post where "OL t = pre @ m # post" by (meson split_list)
  moreover from this have "chain (ord s) NextOwned (OwnedBy t) (pre @ m # post)"
    using own \<open>t \<in> A\<close> unfolding owners_def by metis
  ultimately show ?thesis using that \<open>t \<in> A\<close> by blast
qed

text \<open>
  \<open>osMutexPass\<close> while tasks in \<open>X\<close> are being moved; none of them waits for anything.
\<close>

lemma osMutexPass_inv:
  assumes R: "repr L TL s" and inv: "data_but m X L TL OL A s" and X: "\<And>x. x \<in> X \<Longrightarrow> absent x L TL"
  shows "returns (osMutexPass m s)
    (\<lambda>s'. \<exists>L' TL' OL'. repr L' TL' s' \<and> data_inv X L' TL' OL' A s' \<and>
       (\<forall>x \<in> X. absent x L' TL') \<and> set TL' \<subseteq> set TL \<and> wakes s s' \<and>
       (case L (MutexHead m) of
          [] \<Rightarrow> s' = set_owner m None s \<and> L' = L \<and> OL' = OL
        | w # _ \<Rightarrow> data_eq (woken w 1 (osMutexOwn m w s)) s' \<and> OL' = OL(w := m # OL w)))"
proof (cases "L (MutexHead m)")
  case Nil
  then have "m_waiters (mutexes s m) = None"
    using R lists_head [of L s "MutexHead m"] by (simp add: repr_def)
  then show ?thesis
    using Nil R X unown_data [OF inv Nil]
    by (auto simp: osMutexPass_def wakes_def calm_but_def)
next
  case (Cons w ws)
  have rdw: "m_waiters (mutexes s m) = Some w"
    using R Cons lists_head [of L s "MutexHead m"] by (simp add: repr_def)
  have wL: "w \<in> set (L (MutexHead m))" by (simp add: Cons)
  then have wX: "w \<notin> X" using X by (auto simp: absent_def)
  have wA: "w \<in> A" using inv wL by (auto simp: data_but_def placed_def dest: spec [of _ "MutexHead m"])
  have "task_placed L TL s w" using inv wA wX by (simp add: data_but_def placed_def)
  then have "state (tasks s w) AND OS_TASK_STATE = OS_TASK_BLOCKED"
    using wL by (auto simp: task_placed_def)
  then have st: "state (tasks s w) \<noteq> OS_TASK_READY" "state (tasks s w) \<noteq> OS_TASK_DEAD" by auto
  have wl: "waitList (tasks s w) \<noteq> None"
    using wL \<open>task_placed L TL s w\<close> by (auto simp: task_placed_def)
  have own: "wakes s (osMutexOwn m w s)"
    by (simp add: wakes_def calm_but_def) (simp add: osMutexOwn_def Let_def)
  have wk: "wakes s s'" if "data_eq (woken w 1 (osMutexOwn m w s)) s'" for s'
    using wl by (intro wakes_trans [OF own] wakes_woken [OF _ that]) simp
  have "sorted_wrt (by_priority s) (L (MutexHead m))"
    using inv by (simp add: data_but_def prio_sorted_def)
  then have top: "x \<in> set (L (MutexHead m)) \<Longrightarrow> priority (tasks s x) \<le> priority (tasks s w)" for x
    unfolding Cons by (auto simp: by_priority_def)
  let ?s = "osMutexOwn m w s"
  have inv1: "data_inv X L TL (OL(w := m # OL w)) A ?s"
    by (rule own_data [OF inv wA st(2) top])
  have R1: "repr L TL ?s" using R by simp
  have st1: "state (tasks ?s w) \<noteq> OS_TASK_READY" "state (tasks ?s w) \<noteq> OS_TASK_DEAD" using st by simp_all
  have X': "absent x (made_ready ?s w (unwaited ?s w L)) (untimed ?s w TL)" if "x \<in> X" for x
    using X [OF that] that wX
    by (auto simp: absent_def made_ready_def unwaited_def untimed_def split: option.split
        dest: set_remove1_subset [THEN subsetD])
  have T': "set (untimed ?s w TL) \<subseteq> set TL"
    by (auto simp: untimed_def dest: set_remove1_subset [THEN subsetD])
  show ?thesis
    using osWake_inv [OF R1 inv1 wA wX st1, of 1] rdw Cons X' T' wk
    by (fastforce simp: osMutexPass_def elim!: returns_mono)
qed

text \<open>Taking the mutex off the list of its owner, wherever it is.\<close>

lemma osMutexDisown_inv:
  assumes R: "repr L TL s" and inv: "data_inv X L TL OL A s" and o': "owner (mutexes s m) = Some t"
  shows "returns (osMutexDisown m t s)
    (\<lambda>s'. repr L TL s' \<and> data_but m X L TL (OL(t := remove1 m (OL t))) A s' \<and> wakes s s' \<and>
       (\<forall>x. owner (mutexes s' x) = owner (mutexes s x)))"
proof -
  obtain pre post where ms: "OL t = pre @ m # post"
    and ch: "chain (ord s) NextOwned (OwnedBy t) (pre @ m # post)"
    using owned_list [OF inv o'] by metis
  have pre: "m \<notin> set pre" using chain_distinct [OF ch] by auto
  have tw: "takeWhile (\<lambda>it. it \<noteq> m) (pre @ m # post) = pre" "dropWhile (\<lambda>it. it \<noteq> m) (pre @ m # post) = m # post"
    using pre by (auto simp: takeWhile_append dropWhile_append)
  have "osMutexDisown m t s = Some (owr (cell_after NextOwned (OwnedBy t) pre) (nextOwned (mutexes s m)) s)"
    using walk_chain [OF ch, of "\<lambda>it. it \<noteq> m"] by (simp add: osMutexDisown_def tw)
  moreover have "data_but m X L TL (OL(t := pre @ post)) A
      (owr (cell_after NextOwned (OwnedBy t) pre) (nextOwned (mutexes s m)) s)"
    by (rule disown_data [OF inv o' ms refl])
  moreover have "remove1 m (OL t) = pre @ post" using pre by (simp add: ms remove1_append)
  ultimately show ?thesis using R by (simp add: wakes_owr)
qed

section \<open>Mutexes of a task that is gone\<close>

text \<open>Whoever is woken up by it owns the mutex it has been waiting for.\<close>

definition handed :: "addr \<Rightarrow> kernel \<Rightarrow> kernel \<Rightarrow> bool" where
  "handed t s s' \<longleftrightarrow>
     (\<forall>m. owner (mutexes s m) \<noteq> Some t \<longrightarrow> owner (mutexes s' m) = owner (mutexes s m)) \<and>
     (\<forall>x. x \<noteq> t \<longrightarrow>
        waitList (tasks s' x) = waitList (tasks s x) \<and> result (tasks s' x) = result (tasks s x) \<or>
        (\<exists>m. waitList (tasks s x) = Some (MutexHead m) \<and> waitList (tasks s' x) = None \<and>
           result (tasks s' x) \<noteq> 0 \<and> owner (mutexes s' m) = Some x))"

lemma handed_refl [simp]: "handed t s s"
  by (simp add: handed_def)

lemma handed_trans: "handed t s s' \<Longrightarrow> handed t s' s'' \<Longrightarrow> handed t s s''"
proof -
  assume a: "handed t s s'" and b: "handed t s' s''"
  have kept: "owner (mutexes s'' m) = Some x" if "owner (mutexes s' m) = Some x" "x \<noteq> t" for m x
    using b that by (simp add: handed_def)
  have one: "waitList (tasks s2 x) = waitList (tasks s1 x) \<and> result (tasks s2 x) = result (tasks s1 x) \<or>
      (\<exists>m. waitList (tasks s1 x) = Some (MutexHead m) \<and> waitList (tasks s2 x) = None \<and>
         result (tasks s2 x) \<noteq> 0 \<and> owner (mutexes s2 m) = Some x)"
    if "handed t s1 s2" "x \<noteq> t" for s1 s2 x
    using that unfolding handed_def by blast
  have "waitList (tasks s'' x) = waitList (tasks s x) \<and> result (tasks s'' x) = result (tasks s x) \<or>
      (\<exists>m. waitList (tasks s x) = Some (MutexHead m) \<and> waitList (tasks s'' x) = None \<and>
         result (tasks s'' x) \<noteq> 0 \<and> owner (mutexes s'' m) = Some x)"
    if x: "x \<noteq> t" for x
    using one [OF a x] one [OF b x] kept [OF _ x] by fastforce
  then show ?thesis using a b by (simp add: handed_def)
qed

lemma handed_pass:
  assumes inv: "data_inv {t} L TL OL A s" and t: "absent t L TL" and o': "owner (mutexes s m) = Some t"
    and c: "case L (MutexHead m) of [] \<Rightarrow> s' = set_owner m None (set_tmutexes t v s)
      | w # _ \<Rightarrow> data_eq (woken w 1 (osMutexOwn m w (set_tmutexes t v s))) s'"
  shows "handed t s s'"
proof (cases "L (MutexHead m)")
  case Nil
  then show ?thesis using c o' by (simp add: handed_def)
next
  case (Cons w ws)
  then have w: "w \<in> set (L (MutexHead m))" by simp
  then have "w \<in> A - {t}"
    using inv t by (auto simp: data_inv_def placed_def absent_def)
  then have "task_placed L TL s w" using inv by (simp add: data_inv_def placed_def)
  then have "waitList (tasks s w) = Some (MutexHead m)" using w unfolding task_placed_def by blast
  then show ?thesis
    using c Cons o' by (auto simp: handed_def data_eqD woken_def)
qed

text \<open>The loop ends: every turn takes a mutex off the list of the task.\<close>

lemma osMutexReleaseAll_inv:
  assumes "repr L TL s" and "data_inv {t} L TL OL A s" and "absent t L TL" and "t \<in> A"
  shows "returns (osMutexReleaseAll t s)
    (\<lambda>s'. \<exists>L' TL' OL'. repr L' TL' s' \<and> data_inv {t} L' TL' OL' A s' \<and> absent t L' TL' \<and>
       set TL' \<subseteq> set TL \<and> wakes s s' \<and> handed t s s' \<and> OL' t = [])"
  using assms
proof (induction "OL t" arbitrary: L TL OL s)
  case Nil
  have "chain (ord s) NextOwned (OwnedBy t) (OL t)"
    using Nil.prems by (simp add: data_inv_def owners_def)
  then have "tmutexes (tasks s t) = None" using Nil.hyps by (metis chain.simps(1) ord.simps(1))
  moreover have "OL t = []" using Nil.hyps by simp
  ultimately show ?case
    using Nil.prems by (subst osMutexReleaseAll.simps) auto
next
  case (Cons m ms)
  note R = Cons.prems(1) and inv = Cons.prems(2) and t = Cons.prems(3,4)
  have OL: "OL t = [] @ m # ms" using Cons.hyps(2) by simp
  have own: "owners {t} L OL A s" using inv by (simp add: data_inv_def)
  then have "chain (ord s) NextOwned (OwnedBy t) (OL t)" using t by (simp add: owners_def)
  then have tm: "tmutexes (tasks s t) = Some m" by (simp add: OL)
  have o': "owner (mutexes s m) = Some t" using own OL unfolding owners_def by (metis append_Nil list.set_intros(1))
  let ?s = "owr (OwnedBy t) (nextOwned (mutexes s m)) s"
  have but: "data_but m {t} L TL (OL(t := ms)) A ?s"
    using disown_data [OF inv o' OL refl] by simp
  have R1: "repr L TL ?s" using R by simp
  have pass: "returns (osMutexPass m ?s)
    (\<lambda>s'. \<exists>L' TL' OL'. repr L' TL' s' \<and> data_inv {t} L' TL' OL' A s' \<and> absent t L' TL' \<and>
       set TL' \<subseteq> set TL \<and> wakes s s' \<and> handed t s s' \<and> OL' t = ms)"
  proof (rule returns_mono [OF osMutexPass_inv [OF R1 but]])
    show "absent x L TL" if "x \<in> {t}" for x using that t by simp
    fix s' assume "\<exists>L' TL' OL'. repr L' TL' s' \<and> data_inv {t} L' TL' OL' A s' \<and>
       (\<forall>x \<in> {t}. absent x L' TL') \<and> set TL' \<subseteq> set TL \<and> wakes ?s s' \<and>
       (case L (MutexHead m) of
          [] \<Rightarrow> s' = set_owner m None ?s \<and> L' = L \<and> OL' = OL(t := ms)
        | w # _ \<Rightarrow> data_eq (woken w 1 (osMutexOwn m w ?s)) s' \<and> OL' = (OL(t := ms))(w := m # (OL(t := ms)) w))"
    then obtain L' TL' OL' where *: "repr L' TL' s'" "data_inv {t} L' TL' OL' A s'" "absent t L' TL'"
        "set TL' \<subseteq> set TL" "wakes ?s s'"
      and c: "case L (MutexHead m) of [] \<Rightarrow> s' = set_owner m None ?s \<and> L' = L \<and> OL' = OL(t := ms)
        | w # _ \<Rightarrow> data_eq (woken w 1 (osMutexOwn m w ?s)) s' \<and> OL' = (OL(t := ms))(w := m # (OL(t := ms)) w)"
      by auto
    have "OL' t = ms"
    proof (cases "L (MutexHead m)")
      case Nil
      then show ?thesis using c by simp
    next
      case (Cons w ws)
      then have "w \<noteq> t" using t(1) by (auto simp: absent_def dest: spec [of _ "MutexHead m"])
      then show ?thesis using c Cons by simp
    qed
    moreover have "wakes s s'" using wakes_trans [OF wakes_owr *(5)] .
    moreover have "handed t s s'"
      by (rule handed_pass [OF inv t(1) o']) (use c in \<open>auto split: list.splits\<close>)
    ultimately show "\<exists>L' TL' OL'. repr L' TL' s' \<and> data_inv {t} L' TL' OL' A s' \<and> absent t L' TL' \<and>
       set TL' \<subseteq> set TL \<and> wakes s s' \<and> handed t s s' \<and> OL' t = ms"
      using * by blast
  qed
  have unfold: "osMutexReleaseAll t s = Option.bind (osMutexPass m ?s) (osMutexReleaseAll t)"
    using tm by (subst osMutexReleaseAll.simps) simp
  have step: "returns (osMutexReleaseAll t s1)
    (\<lambda>s'. \<exists>L' TL' OL'. repr L' TL' s' \<and> data_inv {t} L' TL' OL' A s' \<and> absent t L' TL' \<and>
       set TL' \<subseteq> set TL \<and> wakes s s' \<and> handed t s s' \<and> OL' t = [])"
    if s1: "repr L1 TL1 s1" "data_inv {t} L1 TL1 OL1 A s1" "absent t L1 TL1" "set TL1 \<subseteq> set TL"
      "wakes s s1" "handed t s s1" "OL1 t = ms" for s1 L1 TL1 OL1
    by (rule returns_mono [OF Cons.hyps(1) [OF s1(7) [symmetric] s1(1-3) t(2)]])
      (use s1(4-6) wakes_trans handed_trans in blast)
  show ?case
    unfolding unfold returns_bind by (rule returns_mono [OF pass]) (use step in blast)
qed


section \<open>Unlocking\<close>

lemma running_wakes:
  assumes pl: "\<And>x. x \<in> A - X \<Longrightarrow> task_placed L TL s x" and w: "wakes s s'"
    and run: "running R A s" and X: "\<And>x. x \<in> X \<Longrightarrow> waitList (tasks s x) = None"
  shows "running R A s'"
  unfolding running_def
proof
  fix x assume x: "x \<in> A"
  have nr: "state (tasks s x) \<noteq> OS_TASK_RUNNING" if "waitList (tasks s x) \<noteq> None"
    using pl [of x] X [of x] x that by (cases "x \<in> X") (auto simp: task_placed_def)
  have "state (tasks s' x) = state (tasks s x) \<or>
      waitList (tasks s x) \<noteq> None \<and> state (tasks s' x) = OS_TASK_READY"
    by (rule wakesD(9) [OF w])
  then show "state (tasks s' x) = OS_TASK_RUNNING \<longleftrightarrow> x \<in> R"
  proof (elim disjE)
    assume "state (tasks s' x) = state (tasks s x)"
    then show ?thesis using run x by (simp add: running_def)
  next
    assume "waitList (tasks s x) \<noteq> None \<and> state (tasks s' x) = OS_TASK_READY"
    moreover have "state (tasks s x) = OS_TASK_RUNNING \<longleftrightarrow> x \<in> R" using run x by (simp add: running_def)
    ultimately show ?thesis using nr by simp
  qed
qed

lemma kernel_inv_wakes:
  assumes K: "kernel_inv L TL OL A s" and w: "wakes s s'"
    and s': "repr L' TL' s'" "data_inv {} L' TL' OL' A s'" "set TL' \<subseteq> set TL"
  shows "kernel_inv L' TL' OL' A s'"
proof -
  have pl: "x \<in> A - {} \<Longrightarrow> task_placed L TL s x" for x
    using K by (simp add: kernel_inv_def data_inv_def placed_def)
  have "running {osCurrentTask s} A s'"
    by (rule running_wakes [of A "{}", OF pl w]) (use K in \<open>simp_all add: kernel_inv_def\<close>)
  moreover have "not_due TL' s'"
    using wakes_not_due [OF w _ s'(3)] K by (simp add: kernel_inv_def)
  ultimately show ?thesis
    using s' wakesD(3) [OF w] by (simp add: kernel_inv_def)
qed

text \<open>The priority of the current task, which is on no list.\<close>

lemma kernel_inv_own_priority:
  assumes K: "kernel_inv L TL OL A s" and c: "c = osCurrentTask s" and p: "p = inherited L (OL c) s c"
  shows "kernel_inv L TL OL A (set_priority c p s)"
proof -
  have inv: "data_inv {} L TL OL A s" using K by (simp add: kernel_inv_def)
  then have base: "base_inv L TL OL A s" "bounded A s" "no_inversion L s" by (simp_all add: data_inv_base)
  note cur = current_detached [OF K, folded c]
  note b = inherited_bounds [OF base(1), where t = c]
  have hi: "p \<le> priority (tasks s c)" unfolding p by (rule b(3) [OF base(2,3) cur(4)])
  have "priority (tasks s c) \<le> OS_PRIORITY_MAX" using base(2) cur(4) by (simp add: bounded_def)
  then have "data_inv {c} L TL OL A (set_priority c p s)"
    using cur(1,2) hi b(1,2) by (intro data_inv_moving) (auto simp: p intro: order_trans)
  then have "data_inv {} L TL OL A (set_priority c p s)"
    using cur by (intro arrive_aside) auto
  moreover have "not_due TL (set_priority c p s)"
    using K by (auto simp: kernel_inv_def not_due_def left_def)
  ultimately show ?thesis
    using K by (auto simp: kernel_inv_def running_def)
qed

lemma osMutexUnlock_rest:
  assumes r: "rest A s" and ok: "objects_ok A s"
  shows "returns (osMutexUnlock m s)
    (\<lambda>(r, s'). rest A s' \<and> objects_ok A s' \<and>
      (if owner (mutexes s m) = Some (osCurrentTask s)
       then top_runs A s' \<and> owner (mutexes s' m) = m_waiters (mutexes s m) \<and>
         (\<forall>x. x \<noteq> m \<longrightarrow> owner (mutexes s' x) = owner (mutexes s x))
       else r = Returned VVoid \<and> s' = s))"
proof (cases "owner (mutexes s m) = Some (osCurrentTask s)")
  case False
  then show ?thesis using r ok by (simp add: osMutexUnlock_def)
next
  case True
  define c where "c = osCurrentTask s"
  from r obtain L TL OL where K: "kernel_inv L TL OL A s" by (auto simp: rest_def)
  have R: "repr L TL s" and inv: "data_inv {} L TL OL A s" using K by (simp_all add: kernel_inv_def)
  have w: "m_waiters (mutexes s m) = first (L (MutexHead m))"
    using R lists_head [of L s "MutexHead m"] by (simp add: repr_def)
  have o': "owner (mutexes s m) = Some c" using True by (simp add: c_def)
  define OL1 where "OL1 = OL(c := remove1 m (OL c))"
  define good where "good s' \<longleftrightarrow> (\<exists>L' TL' OL'. kernel_inv L' TL' OL' A s') \<and> wakes s s' \<and>
      owner (mutexes s' m) = m_waiters (mutexes s m) \<and> (\<forall>x. x \<noteq> m \<longrightarrow> owner (mutexes s' x) = owner (mutexes s x))" for s'
  have pass: "returns (osMutexPass m s1) good"
    if s1: "repr L TL s1" "data_but m {} L TL OL1 A s1" "wakes s s1" "\<forall>x. owner (mutexes s1 x) = owner (mutexes s x)" for s1
  proof (rule returns_mono [OF osMutexPass_inv [OF s1(1,2)]])
    fix s' assume "\<exists>L' TL' OL'. repr L' TL' s' \<and> data_inv {} L' TL' OL' A s' \<and>
       (\<forall>x \<in> {}. absent x L' TL') \<and> set TL' \<subseteq> set TL \<and> wakes s1 s' \<and>
       (case L (MutexHead m) of
          [] \<Rightarrow> s' = set_owner m None s1 \<and> L' = L \<and> OL' = OL1
        | w # _ \<Rightarrow> data_eq (woken w 1 (osMutexOwn m w s1)) s' \<and> OL' = OL1(w := m # OL1 w))"
    then obtain L' TL' OL' where *: "repr L' TL' s'" "data_inv {} L' TL' OL' A s'" "set TL' \<subseteq> set TL" "wakes s1 s'"
      and case': "case L (MutexHead m) of [] \<Rightarrow> s' = set_owner m None s1
        | w # _ \<Rightarrow> data_eq (woken w 1 (osMutexOwn m w s1)) s'"
      by (cases "L (MutexHead m)") auto
    have "wakes s s'" by (rule wakes_trans [OF s1(3) *(4)])
    moreover from this have "kernel_inv L' TL' OL' A s'" by (rule kernel_inv_wakes [OF K _ *(1-3)])
    moreover have "owner (mutexes s' m) = m_waiters (mutexes s m) \<and>
        (\<forall>x. x \<noteq> m \<longrightarrow> owner (mutexes s' x) = owner (mutexes s x))"
      using case' s1(4) unfolding w by (cases "L (MutexHead m)") (auto simp: data_eqD woken_def)
    ultimately show "good s'" unfolding good_def by blast
  qed simp
  have tail: "returns (do {
        p \<leftarrow> osInheritedPriority c s2;
        let s = set_priority c p s2;
        leave c (KReturn VVoid) (\<lambda>_ s. Some (Returned VVoid, s)) (osSchedule 0 s)
      }) (\<lambda>(r, s'). rest A s' \<and> objects_ok A s' \<and> top_runs A s' \<and>
        owner (mutexes s' m) = m_waiters (mutexes s m) \<and> (\<forall>x. x \<noteq> m \<longrightarrow> owner (mutexes s' x) = owner (mutexes s x)))"
    if g: "good s2" for s2
  proof -
    obtain L' TL' OL' where K2: "kernel_inv L' TL' OL' A s2" using g by (auto simp: good_def)
    have w2: "wakes s s2" using g by (simp add: good_def)
    have c2: "osCurrentTask s2 = c" "cont s2 = cont s" using w2 by (simp_all add: wakes_def c_def)
    define p where "p = inherited L' (OL' c) s2 c"
    let ?s = "set_priority c p s2"
    have p: "osInheritedPriority c s2 = Some p"
      unfolding p_def using current_detached(6) [OF K2] K2 c2
      by (intro osInheritedPriority_spec [of L' TL']) (simp_all add: kernel_inv_def)
    have K3: "kernel_inv L' TL' OL' A ?s"
      by (rule kernel_inv_own_priority [OF K2 _ p_def]) (simp add: c2)
    have r3: "rest A ?s" using K3 r c2 by (auto simp: rest_def c_def)
    have calm: "calm s ?s" using w2 by (auto simp: wakes_def calm_but_def)
    have ok3: "objects_ok A ?s" by (rule objects_ok_calm [OF ok calm])
    show ?thesis
      using schedule_ok [OF r3 ok3, of 0 "KReturn VVoid" VVoid] p g c2
      by (auto simp: good_def same_owners_def Let_def elim!: returns_mono)
  qed
  have unfold: "osMutexUnlock m s = Option.bind (osMutexDisown m c s) (\<lambda>s. Option.bind (osMutexPass m s) (\<lambda>s. do {
        p \<leftarrow> osInheritedPriority c s;
        let s = set_priority c p s;
        leave c (KReturn VVoid) (\<lambda>_ s. Some (Returned VVoid, s)) (osSchedule 0 s)
      }))"
    using True by (simp add: osMutexUnlock_def c_def Let_def)
  have "returns (osMutexUnlock m s) (\<lambda>(r, s'). rest A s' \<and> objects_ok A s' \<and> top_runs A s' \<and>
        owner (mutexes s' m) = m_waiters (mutexes s m) \<and> (\<forall>x. x \<noteq> m \<longrightarrow> owner (mutexes s' x) = owner (mutexes s x)))"
    unfolding unfold returns_bind [of "osMutexDisown m c s"] returns_bind [of "osMutexPass m _"]
  proof (rule returns_mono [OF osMutexDisown_inv [OF R inv o']])
    fix s1 assume s1: "repr L TL s1 \<and> data_but m {} L TL (OL(c := remove1 m (OL c))) A s1 \<and> wakes s s1 \<and>
       (\<forall>x. owner (mutexes s1 x) = owner (mutexes s x))"
    show "returns (osMutexPass m s1) (\<lambda>s2. returns (do {
        p \<leftarrow> osInheritedPriority c s2;
        let s = set_priority c p s2;
        leave c (KReturn VVoid) (\<lambda>_ s. Some (Returned VVoid, s)) (osSchedule 0 s)
      }) (\<lambda>(r, s'). rest A s' \<and> objects_ok A s' \<and> top_runs A s' \<and>
        owner (mutexes s' m) = m_waiters (mutexes s m) \<and> (\<forall>x. x \<noteq> m \<longrightarrow> owner (mutexes s' x) = owner (mutexes s x))))"
      by (rule returns_mono [OF pass tail]) (use s1 in \<open>auto simp: OL1_def\<close>)
  qed
  then show ?thesis using True by (auto elim!: returns_mono)
qed


section \<open>Locking\<close>

lemma osMutexTryLock_end_rest:
  assumes r: "rest A s" and ok: "objects_ok A s"
  shows "returns (osMutexTryLock_end m b s)
    (\<lambda>(r, s'). r = Returned (VBool b) \<and> rest A s' \<and> objects_ok A s' \<and>
       osCurrentTask s' = osCurrentTask s \<and> same_owners s s')"
proof (cases "b \<or> owner (mutexes s m) = None")
  case True
  then show ?thesis using r ok by (auto simp: osMutexTryLock_end_def same_owners_def)
next
  case False
  then obtain t where t: "owner (mutexes s m) = Some t" and b: "\<not> b" by auto
  from r obtain L TL OL where K: "kernel_inv L TL OL A s" by (auto simp: rest_def)
  have R: "repr L TL s" and own: "owners {} L OL A s"
    using K by (simp_all add: kernel_inv_def data_inv_def)
  have tA: "t \<in> A" "state (tasks s t) \<noteq> OS_TASK_DEAD" and "chain (ord s) NextOwned (OwnedBy t) (OL t)"
    using own t unfolding owners_def by auto
  then have p: "osInheritedPriority t s = Some (inherited L (OL t) s t)"
    by (intro osInheritedPriority_spec [OF R])
  show ?thesis
    using lower_rest [OF r K tA refl] b t p objects_ok_calm [OF ok]
    by (auto simp: osMutexTryLock_end_def elim!: returns_mono)
qed

lemma osMutexTryLock_free:
  assumes r: "rest A s" and ok: "objects_ok A s" and free: "owner (mutexes s m) = None"
  shows "rest A (osMutexOwn m (osCurrentTask s) s)" and "objects_ok A (osMutexOwn m (osCurrentTask s) s)"
proof -
  let ?s = "osMutexOwn m (osCurrentTask s) s"
  from r obtain L TL OL where K: "kernel_inv L TL OL A s" by (auto simp: rest_def)
  have R: "repr L TL s" and inv: "data_inv {} L TL OL A s" using K by (simp_all add: kernel_inv_def)
  have empty: "L (MutexHead m) = []"
    using inv free unfolding data_inv_def owners_def by blast
  have c: "osCurrentTask s \<in> A" "state (tasks s (osCurrentTask s)) \<noteq> OS_TASK_DEAD"
    using rest_current [OF r] by auto
  have "data_inv {} L TL (OL(osCurrentTask s := m # OL (osCurrentTask s))) A ?s"
    by (rule own_data [OF data_but_free [OF inv free] c]) (simp add: empty)
  moreover have "not_due TL ?s" "running {osCurrentTask s} A ?s"
    using K parts_cong [of ?s s] by (simp_all add: kernel_inv_def)
  ultimately have "kernel_inv L TL (OL(osCurrentTask s := m # OL (osCurrentTask s))) A ?s"
    using R by (simp add: kernel_inv_def)
  then show "rest A ?s" using r by (auto simp: rest_def)
  show "objects_ok A ?s" using ok by (simp add: objects_ok_def)
qed

lemma osMutexTryLock_rest:
  assumes r: "rest A s" and ok: "objects_ok A s" and c: "c = osCurrentTask s"
  shows "returns (osMutexTryLock m timeout s)
    (\<lambda>(r, s'). rest A s' \<and> objects_ok A s' \<and>
      (case owner (mutexes s m) of
         None \<Rightarrow> r = Returned (VBool True) \<and> s' = osMutexOwn m c s
       | Some t \<Rightarrow>
           if timeout = OS_NO_WAIT then r = Returned (VBool False) \<and> s' = s
           else same_owners s s' \<and>
             (if c = osIdleTask s then r = Returned (VBool False)
              else r = Switched \<and> waitList (tasks s' c) = Some (MutexHead m) \<and>
                (timeout = OS_WAIT_FOREVER \<longrightarrow> state (tasks s' c) AND OS_TASK_TIMED = 0) \<and>
                cont s' c = Some (KMutexTryLock m) \<and> top_runs A s')))"
proof (cases "owner (mutexes s m)")
  case None
  then show ?thesis
    using osMutexTryLock_free [OF r ok None] c by (simp add: osMutexTryLock_def)
next
  case (Some t)
  show ?thesis
  proof (cases "timeout = OS_NO_WAIT")
    case True
    then show ?thesis using Some r ok by (simp add: osMutexTryLock_def)
  next
    case time: False
    from r obtain L TL OL where K: "kernel_inv L TL OL A s" by (auto simp: rest_def)
    have R: "repr L TL s" and inv: "data_inv {} L TL OL A s" using K by (simp_all add: kernel_inv_def)
    have base: "base_inv L TL OL A s" "bounded A s" "no_inversion L s" using inv by (simp_all add: data_inv_base)
    have tA: "t \<in> A" "state (tasks s t) \<noteq> OS_TASK_DEAD"
      using inv Some unfolding data_inv_def owners_def by auto
    define p where "p = priority (tasks s c)"
    have p: "p \<le> OS_PRIORITY_MAX"
      using base(2) rest_current [OF r] by (simp add: bounded_def p_def c)
    note raise = osPriorityRaise_inv [OF R base(1) no_inversion_but [OF base(3)] tA p bounded_bounded_but [OF base(2)]]
    have blk: "returns (leave c (KMutexTryLock m) (\<lambda>v. osMutexTryLock_end m (v = VBool True))
        (osBlock (Some (MutexHead m)) timeout (set_state c (state (tasks s1 c) OR OS_TASK_MUTEX) s1)))
      (\<lambda>(r, s'). rest A s' \<and> objects_ok A s' \<and> same_owners s s' \<and>
             (if c = osIdleTask s then r = Returned (VBool False)
              else r = Switched \<and> waitList (tasks s' c) = Some (MutexHead m) \<and>
                (timeout = OS_WAIT_FOREVER \<longrightarrow> state (tasks s' c) AND OS_TASK_TIMED = 0) \<and>
                cont s' c = Some (KMutexTryLock m) \<and> top_runs A s'))"
      if s1: "repr L1 TL s1" "data_inv {} L1 TL OL A s1" "raised t p L s L1 s1" for s1 L1
    proof -
      have d: "data_eq (with_priorities (\<lambda>x. priority (tasks s1 x)) s) s1"
        using s1(3) by (simp add: raised_def)
      have K1: "kernel_inv L1 TL OL A s1" by (rule kernel_inv_priorities [OF _ _ s1(1,2) d]) (use K in \<open>simp_all add: kernel_inv_def\<close>)
      have cont0: "\<forall>x \<in> A. x \<noteq> osCurrentTask s \<longrightarrow> cont s x \<noteq> None" using r by (simp add: rest_def)
      note r1 = rest_priorities [OF cont0 K1 d]
      note e = data_eqD [OF d]
      have c1: "c = osCurrentTask s1" using c r1(3) by simp
      note cur = current_detached [OF K1, folded c1]
      have st: "state (tasks s1 c) = OS_TASK_RUNNING" by (rule cur(5))
      define s2 where "s2 = set_state c OS_TASK_MUTEX s1"
      have s2: "set_state c (state (tasks s1 c) OR OS_TASK_MUTEX) s1 = s2" by (simp add: s2_def st)
      have ok1: "objects_ok A s1" by (rule objects_ok_calm [OF ok r1(2)])
      have cont: "\<forall>x \<in> A. x \<noteq> osCurrentTask s1 \<longrightarrow> cont s1 x \<noteq> None" using r1(1) by (simp add: rest_def)
      show ?thesis
      proof (cases "c = osIdleTask s")
        case True
        then have "osBlock (Some (MutexHead m)) timeout s2 = Some (Returned (VBool False), s1)"
        proof -
          have "(tasks s1 c)\<lparr>state := OS_TASK_RUNNING\<rparr> = tasks s1 c"
            using st by (cases "tasks s1 c") simp
          then show ?thesis
            using True c1 e(25) by (simp add: s2_def osBlock_def task_upd_def Let_def)
        qed
        then show ?thesis
          using osMutexTryLock_end_rest [OF r1(1) ok1, of m False] True r1(4) s2
          by (auto simp: returns_leave same_owners_def elim!: returns_mono)
      next
        case False
        have inv2: "data_inv {c} L1 TL OL A s2"
          unfolding s2_def using cur by (intro data_inv_moving_simple) auto
        have R2: "repr L1 TL s2" using s1(1) by (simp add: s2_def)
        have nd2: "not_due TL s2" using K1 by (auto simp: kernel_inv_def not_due_def left_def s2_def)
        have run2: "state (tasks s2 x) \<noteq> OS_TASK_RUNNING" if "x \<in> A - {c}" for x
          using K1 that c1 by (auto simp: kernel_inv_def running_def s2_def)
        have "priority (tasks s1 c) \<le> priority (tasks s1 t)"
        proof -
          have "p \<le> priority (tasks s1 t)" "priority (tasks s1 c) = p"
            using s1(3) by (auto simp: raised_def p_def)
          then show ?thesis by simp
        qed
        then have w2: "may_wait c (Some (MutexHead m)) s2"
          using False cur(3) Some e(12) [of m] e(25) by (auto simp: may_wait_def s2_def)
        have c2: "c = osCurrentTask s2" "\<forall>x \<in> A. x \<noteq> osCurrentTask s2 \<longrightarrow> cont s2 x \<noteq> None"
          using cont c1 by (simp_all add: s2_def)
        have "returns (osBlock (Some (MutexHead m)) timeout s2)
            (\<lambda>(r, s'). r = Switched \<and> rest A (save c (KMutexTryLock m) s') \<and> top_runs A s' \<and>
               blocked c (Some (MutexHead m)) timeout s2 s')"
          by (rule block_rest [OF c2(2) R2 inv2 nd2 run2 c2(1) cur(2) w2 time])
        moreover have "objects_ok A s'" if "blocked c (Some (MutexHead m)) timeout s2 s'" for s'
          by (rule objects_ok_blocked [OF _ that]) (use ok1 in \<open>auto simp: objects_ok_def s2_def split: if_splits\<close>)
        ultimately show ?thesis
          using False r1(4) unfolding s2
          by (auto simp: returns_leave blocked_def same_owners_def s2_def elim!: returns_mono)
      qed
    qed
    show ?thesis
      using raise Some time blk
      by (fastforce simp: osMutexTryLock_def p_def c Let_def elim!: returns_mono)
  qed
qed

end
