(* ===== verification/Tasks.thy ===== *)
theory Tasks
  imports Mutexes Port
begin

text \<open>
  \<^verbatim>\<open>system/tasks.c\<close> (\<open>osTaskReap\<close> is in theory \<open>Memory\<close>): the life of a task.
  \<open>sizeof(OsTask)\<close> is 21 with the default configuration.
\<close>

section \<open>Creation\<close>

definition osTaskPriority :: "u8 \<Rightarrow> u8" where
  "osTaskPriority prio =
     (if prio < OS_PRIORITY_MIN then OS_PRIORITY_MIN
      else if OS_PRIORITY_MAX < prio then OS_PRIORITY_MAX
      else prio)"

abbreviation sizeof_OsTask :: u16 where "sizeof_OsTask \<equiv> 21"

definition OS_TASK_MEMORY :: "u16 \<Rightarrow> u16" where
  "OS_TASK_MEMORY stackSize = stackSize + sizeof_OsTask"

definition OS_STACK_MIN :: u16 where
  "OS_STACK_MIN = OS_CONTEXT_SIZE + 3 * OS_PC_SIZE + 32"

definition zeroed :: OsTask where
  "zeroed = \<lparr>sp = 0, result = 0, tnext = None, waitList = None, timerNext = None, wake = 0, wait = 0,
     state = 0, priority = 0, basePriority = 0, tmutexes = None, stack = 0, dynamic = 0\<rparr>"

text \<open>
  \<open>KStart\<close> is what the frame built by \<open>osPortStackInit\<close> makes the task do once it runs.
  \<open>link\<close> is the pair of code addresses \<open>osPortStackInit\<close> needs.
\<close>

definition osTaskSetup ::
  "u16 \<times> u16 \<Rightarrow> u16 \<Rightarrow> u16 \<Rightarrow> addr option \<Rightarrow> u16 \<Rightarrow> u8 \<Rightarrow> u8 \<Rightarrow> kernel \<Rightarrow> res" where
  "osTaskSetup link fn param memory len prio dyn s =
     (case memory of
        None \<Rightarrow> Some (Returned (VTask None), s)
      | Some mem \<Rightarrow>
          if len < OS_TASK_MEMORY OS_STACK_MIN then Some (Returned (VTask None), s)
          else do {
            let task = mem + len - sizeof_OsTask;
            let s = task_upd task (\<lambda>_. zeroed) s;
            let s = ram_upd (memset (unat (len - sizeof_OsTask)) mem OS_STACK_FILL) s;
            let (p, r) = osPortStackInit (fst link) (snd link) (task - 1) fn param (ram s);
            let s = ram_upd (\<lambda>_. r) s;
            let s = task_upd task (sp_update (\<lambda>_. p)) s;
            let s = task_upd task (stack_update (\<lambda>_. mem)) s;
            let s = task_upd task (dynamic_update (\<lambda>_. dyn)) s;
            let s = set_priority task (osTaskPriority prio) s;
            let s = set_basePriority task (priority (tasks s task)) s;
            let s = save task (KStart fn param) s;
            s \<leftarrow> osReady task s;
            leave (osCurrentTask s) (KReturn (VTask (Some task)))
              (\<lambda>_ s. Some (Returned (VTask (Some task)), s)) (osSchedule 0 s)
          })"

definition osTaskCreate ::
  "u16 \<times> u16 \<Rightarrow> u16 \<Rightarrow> u16 \<Rightarrow> addr option \<Rightarrow> u16 \<Rightarrow> u8 \<Rightarrow> kernel \<Rightarrow> res" where
  "osTaskCreate link fn param memory len prio s = osTaskSetup link fn param memory len prio 0 s"

definition osTaskCreateDynamic ::
  "malloc \<Rightarrow> u16 \<times> u16 \<Rightarrow> u16 \<Rightarrow> u16 \<Rightarrow> u16 \<Rightarrow> u8 \<Rightarrow> kernel \<Rightarrow> res" where
  "osTaskCreateDynamic malloc link fn param stackSize prio s =
     (let len = OS_TASK_MEMORY stackSize; s = s\<lparr>osTaskReaper := True\<rparr> in do {
        s \<leftarrow> osTaskReap s;
        (memory, s) \<leftarrow> osMalloc malloc len s;
        if memory = None then Some (Returned (VTask None), s)
        else do {
          (r, s) \<leftarrow> osTaskSetup link fn param memory len prio 1 s;
          if r = Returned (VTask None) then do {
            s \<leftarrow> osFree memory s;
            Some (r, s)
          } else Some (r, s)
        }
      })"

section \<open>End\<close>

definition osTaskDetach :: "addr \<Rightarrow> kernel \<Rightarrow> kernel option" where
  "osTaskDetach task s =
     (if state (tasks s task) AND OS_TASK_STATE = OS_TASK_READY
      then osListRemove ReadyHead task s else osUnblock task s)"

text \<open>\<open>NULL\<close> stands for the current task.\<close>

definition task_or_current :: "addr option \<Rightarrow> kernel \<Rightarrow> addr" where
  "task_or_current task s = (case task of None \<Rightarrow> osCurrentTask s | Some t \<Rightarrow> t)"

definition osTaskDelete_end :: "kernel \<Rightarrow> res" where
  "osTaskDelete_end s =
     leave (osCurrentTask s) (KReturn VVoid) (\<lambda>_ s. Some (Returned VVoid, s)) (osSchedule 0 s)"

definition osTaskDelete :: "addr option \<Rightarrow> kernel \<Rightarrow> res" where
  "osTaskDelete target s =
     (let task = task_or_current target s; me = osCurrentTask s in
      if task \<noteq> osIdleTask s \<and> state (tasks s task) AND OS_TASK_STATE \<noteq> OS_TASK_DEAD then do {
        s \<leftarrow> osTaskDetach task s;
        let s = set_state task OS_TASK_DEAD s;
        s \<leftarrow> osMutexReleaseAll task s;
        let s = (if dynamic (tasks s task) \<noteq> 0
                 then (set_tnext task (osDeadList s) s)\<lparr>osDeadList := Some task\<rparr> else s);
        if task = osCurrentTask s then do {
          s \<leftarrow> osDispatch s;
          Some (Switched, save me KDelete s)
        } else osTaskDelete_end s
      } else Some (Returned VVoid, s))"

text \<open>\<open>osTaskExit\<close> never returns; its \<open>while(1)\<close> is \<open>None\<close>.\<close>

definition osTaskExit :: "kernel \<Rightarrow> res" where
  "osTaskExit s = do {
     (r, s) \<leftarrow> osTaskDelete None s;
     case r of Switched \<Rightarrow> Some (Switched, s) | Returned _ \<Rightarrow> None
   }"

section \<open>Suspending\<close>

definition osTaskSuspend :: "addr option \<Rightarrow> kernel \<Rightarrow> res" where
  "osTaskSuspend target s =
     (let task = task_or_current target s;
          st = state (tasks s task) AND OS_TASK_STATE in
      if task \<noteq> osIdleTask s \<and> st \<noteq> OS_TASK_SUSPENDED \<and> st \<noteq> OS_TASK_DEAD then do {
        s \<leftarrow> osTaskDetach task s;
        let s = set_result task 0 s;
        let s = set_state task OS_TASK_SUSPENDED s;
        if task = osCurrentTask s then do {
          s \<leftarrow> osDispatch s;
          Some (Switched, save task (KReturn VVoid) s)
        } else Some (Returned VVoid, s)
      } else Some (Returned VVoid, s))"

definition osTaskResumeFromISR :: "addr \<Rightarrow> kernel \<Rightarrow> kernel option" where
  "osTaskResumeFromISR task s =
     (if state (tasks s task) AND OS_TASK_STATE = OS_TASK_SUSPENDED then osReady task s else Some s)"

definition osTaskResume :: "addr \<Rightarrow> kernel \<Rightarrow> res" where
  "osTaskResume task s = do {
     s \<leftarrow> osTaskResumeFromISR task s;
     leave (osCurrentTask s) (KReturn VVoid) (\<lambda>_ s. Some (Returned VVoid, s)) (osSchedule 0 s)
   }"

section \<open>Priorities and queries\<close>

definition osTaskSetPriority :: "addr option \<Rightarrow> u8 \<Rightarrow> kernel \<Rightarrow> res" where
  "osTaskSetPriority target prio s =
     (let prio = osTaskPriority prio; task = task_or_current target s;
          s = set_basePriority task prio s in do {
        prio \<leftarrow> osInheritedPriority task s;
        s \<leftarrow> (if priority (tasks s task) < prio then osPriorityRaise task prio s
              else if prio < priority (tasks s task) then osRequeue task (set_priority task prio s)
              else Some s);
        leave (osCurrentTask s) (KReturn VVoid) (\<lambda>_ s. Some (Returned VVoid, s)) (osSchedule 0 s)
      })"

definition osTaskGetPriority :: "addr option \<Rightarrow> kernel \<Rightarrow> u8" where
  "osTaskGetPriority target s = basePriority (tasks s (task_or_current target s))"

definition osTaskGetState :: "addr option \<Rightarrow> kernel \<Rightarrow> u8" where
  "osTaskGetState target s = state (tasks s (task_or_current target s)) AND OS_TASK_STATE"

definition osTaskCurrent :: "kernel \<Rightarrow> addr" where
  "osTaskCurrent s = osCurrentTask s"

abbreviation RAMEND :: addr where "RAMEND \<equiv> 0x21ff"

function osTaskStackFree_loop :: "addr \<Rightarrow> kernel \<Rightarrow> addr" where
  "osTaskStackFree_loop a s =
     (if a < RAMEND \<and> ram s a = OS_STACK_FILL then osTaskStackFree_loop (a + 1) s else a)"
  by auto
termination
  by (relation "measure (\<lambda>(a, _). unat RAMEND - unat a)")
    (auto simp: word_less_nat_alt unat_add_lem [THEN iffD1])

declare osTaskStackFree_loop.simps [simp del]

definition osTaskStackFree :: "addr option \<Rightarrow> kernel \<Rightarrow> u16" where
  "osTaskStackFree target s =
     (let task = task_or_current target s
      in osTaskStackFree_loop (stack (tasks s task)) s - stack (tasks s task))"

text \<open>What is counted are the bytes nobody has written to, up to the first one somebody has.\<close>

lemma osTaskStackFree_loop_spec:
  fixes s :: kernel
  assumes "a \<le> RAMEND"
  defines "e \<equiv> osTaskStackFree_loop a s"
  shows "a \<le> e" and "e \<le> RAMEND" and "\<And>x. a \<le> x \<Longrightarrow> x < e \<Longrightarrow> ram s x = OS_STACK_FILL"
    and "e = RAMEND \<or> ram s e \<noteq> OS_STACK_FILL"
proof -
  have "a \<le> osTaskStackFree_loop a s \<and> osTaskStackFree_loop a s \<le> RAMEND \<and>
      (\<forall>x. a \<le> x \<longrightarrow> x < osTaskStackFree_loop a s \<longrightarrow> ram s x = OS_STACK_FILL) \<and>
      (osTaskStackFree_loop a s = RAMEND \<or> ram s (osTaskStackFree_loop a s) \<noteq> OS_STACK_FILL)"
    using assms(1)
  proof (induction a s rule: osTaskStackFree_loop.induct)
    case (1 a s)
    show ?case
    proof (cases "a < RAMEND \<and> ram s a = OS_STACK_FILL")
      case False
      then show ?thesis using 1 by (subst (1 2 3 4 5) osTaskStackFree_loop.simps) auto
    next
      case True
      then have eq: "osTaskStackFree_loop a s = osTaskStackFree_loop (a + 1) s"
        by (subst osTaskStackFree_loop.simps) simp
      have "a + 1 \<le> RAMEND" using True by (simp add: inc_le)
      note IH = 1(1) [OF True this]
      have "a \<le> a + 1" using True by (simp add: word_le_nat_alt word_less_nat_alt unat_add_lem [THEN iffD1])
      moreover have "x = a \<or> a + 1 \<le> x" if "a \<le> x" for x
        using that inc_le [of a x] by (auto simp: order_le_less)
      moreover note IH
      moreover have "ram s a = OS_STACK_FILL" using True by simp
      ultimately show ?thesis unfolding eq by (blast intro: order_trans)
    qed
  qed
  then show "a \<le> e" "e \<le> RAMEND" "\<And>x. a \<le> x \<Longrightarrow> x < e \<Longrightarrow> ram s x = OS_STACK_FILL"
    "e = RAMEND \<or> ram s e \<noteq> OS_STACK_FILL" by (simp_all add: e_def)
qed


section \<open>Setting a priority\<close>

lemma osTaskPriority_bounds: "OS_PRIORITY_MIN \<le> osTaskPriority p" "osTaskPriority p \<le> OS_PRIORITY_MAX"
    "OS_PRIORITY_MIN \<le> p \<Longrightarrow> p \<le> OS_PRIORITY_MAX \<Longrightarrow> osTaskPriority p = p"
  by (auto simp: osTaskPriority_def word_less_nat_alt word_le_nat_alt not_less Suc_le_eq unat_gt_0 unat_eq_0)

lemma base_inv_set_base [simp]: "base_inv L TL OL A (set_basePriority t b s) = base_inv L TL OL A s"
proof -
  let ?s = "set_basePriority t b s"
  have "by_priority ?s = by_priority s" "left ?s = left s" "task_placed L TL ?s = task_placed L TL s"
    by (auto simp: by_priority_def left_def task_placed_def fun_eq_iff)
  moreover from this have "by_time ?s = by_time s" by (simp add: by_time_def fun_eq_iff)
  moreover have "ord ?s = ord s" "canaries A ?s = canaries A s" by (auto simp: canaries_def)
  moreover have "owners {} L OL A ?s = owners {} L OL A s" "idle_ok {} A ?s = idle_ok {} A s"
    by (auto simp: owners_def idle_ok_def)
  ultimately show ?thesis
    by (simp add: base_inv_def placed_def prio_sorted_def timed_sorted_def)
qed

lemma no_inversion_set_base [simp]: "no_inversion L (set_basePriority t b s) = no_inversion L s"
proof -
  have "priority (tasks (set_basePriority t b s) x) = priority (tasks s x)" for x by simp
  then show ?thesis by (simp only: no_inversion_def task_upd_simps(2))
qed

lemma osTaskSetPriority_rest:
  assumes r: "rest A s" and ok: "objects_ok A s" and t: "t = task_or_current target s" "t \<in> A"
    and alive: "state (tasks s t) \<noteq> OS_TASK_DEAD"
  shows "returns (osTaskSetPriority target prio s)
    (\<lambda>(r, s'). rest A s' \<and> objects_ok A s' \<and> top_runs A s' \<and> same_owners s s')"
proof -
  define b where "b = osTaskPriority prio"
  define s1 where "s1 = set_basePriority t b s"
  from r obtain L TL OL where K: "kernel_inv L TL OL A s" by (auto simp: rest_def)
  have R: "repr L TL s1" and inv: "data_inv {} L TL OL A s" using K by (simp_all add: kernel_inv_def s1_def)
  then have base: "base_inv L TL OL A s1" and bnd: "bounded A s" and pi: "no_inversion L s1"
    by (simp_all add: data_inv_base s1_def)
  define q where "q = inherited L (OL t) s1 t"
  note bounds = inherited_bounds [OF base, where t = t, folded q_def]
  have b1: "basePriority (tasks s1 t) = b" by (simp add: s1_def)
  have p1: "priority (tasks s1 x) = priority (tasks s x)" for x by (simp add: s1_def)
  have max: "x \<in> A \<Longrightarrow> priority (tasks s1 x) \<le> OS_PRIORITY_MAX" for x
    using bnd by (simp add: bounded_def p1)
  have q: "q \<le> OS_PRIORITY_MAX"
    by (rule bounds(4)) (use max b1 osTaskPriority_bounds(2) [of prio] in \<open>auto simp: b_def\<close>)
  have alive1: "state (tasks s1 t) \<noteq> OS_TASK_DEAD" using alive by (simp add: s1_def)
  have cont: "\<forall>x \<in> A. x \<noteq> osCurrentTask s1 \<longrightarrow> cont s1 x \<noteq> None" using r by (simp add: rest_def s1_def)
  have K1: "not_due TL s1" "running {osCurrentTask s1} A s1"
    using K by (auto simp: kernel_inv_def not_due_def left_def running_def s1_def)
  have ch: "chain (ord s1) NextOwned (OwnedBy t) (OL t)"
    using base t(2) by (simp add: base_inv_def owners_def)
  have calm1: "calm s s1" by (simp add: s1_def calm_but_def)
  have own1: "same_owners s s1" by (simp add: s1_def same_owners_def)
  have mid: "returns (if priority (tasks s1 t) < q then osPriorityRaise t q s1
      else if q < priority (tasks s1 t) then osRequeue t (set_priority t q s1) else Some s1)
      (\<lambda>s'. rest A s' \<and> calm s1 s' \<and> osCurrentTask s' = osCurrentTask s1 \<and> same_owners s1 s')"
  proof (cases "priority (tasks s1 t) < q")
    case True
    have "bounded_but t q A s1"
      using bnd max bounds(1) by (auto simp: bounded_but_def bounded_def s1_def)
    note raise = osPriorityRaise_inv [OF R base no_inversion_but [OF pi] t(2) alive1 q this]
    have "rest A s' \<and> calm s1 s' \<and> osCurrentTask s' = osCurrentTask s1 \<and> same_owners s1 s'"
      if s': "repr L' TL s'" "data_inv {} L' TL OL A s'" "raised t q L s1 L' s'" for s' L'
    proof -
      have d: "data_eq (with_priorities (\<lambda>x. priority (tasks s' x)) s1) s'"
        using s'(3) by (simp add: raised_def)
      from rest_priorities [OF cont kernel_inv_priorities [OF K1 s'(1,2) d] d] show ?thesis by simp
    qed
    then show ?thesis using True raise by (auto elim!: returns_mono)
  next
    case False
    have "bounded A s1"
      using bnd False bounds(1) by (auto simp: bounded_def s1_def not_less intro: order_trans)
    then have "data_inv {} L TL OL A s1" using base pi by (simp add: data_inv_base)
    then have K2: "kernel_inv L TL OL A s1" using R K1 by (simp add: kernel_inv_def)
    then have r1: "rest A s1" using cont by (auto simp: rest_def)
    show ?thesis
      using False lower_rest [OF r1 K2 t(2) alive1 q_def] by (auto elim!: returns_mono)
  qed
  have unfold: "osTaskSetPriority target prio s = Option.bind
      (if priority (tasks s1 t) < q then osPriorityRaise t q s1
      else if q < priority (tasks s1 t) then osRequeue t (set_priority t q s1) else Some s1)
      (\<lambda>s. leave (osCurrentTask s) (KReturn VVoid) (\<lambda>_ s. Some (Returned VVoid, s)) (osSchedule 0 s))"
    unfolding osTaskSetPriority_def Let_def t(1) [symmetric] b_def [symmetric] s1_def [symmetric]
    using osInheritedPriority_spec [OF R ch] by (simp only: q_def [symmetric] Option.bind.simps)
  show ?thesis
    unfolding unfold returns_bind
  proof (rule returns_mono [OF mid])
    fix s2 assume s2: "rest A s2 \<and> calm s1 s2 \<and> osCurrentTask s2 = osCurrentTask s1 \<and> same_owners s1 s2"
    then have "objects_ok A s2" using ok calm1 objects_ok_calm by blast
    with s2 show "returns (leave (osCurrentTask s2) (KReturn VVoid) (\<lambda>_ s. Some (Returned VVoid, s)) (osSchedule 0 s2))
        (\<lambda>(r, s'). rest A s' \<and> objects_ok A s' \<and> top_runs A s' \<and> same_owners s s')"
      using schedule_ok [of A s2 0 "KReturn VVoid" VVoid] own1
      by (auto simp: same_owners_def elim!: returns_mono)
  qed
qed


section \<open>Detaching\<close>

lemma valid_state:
  assumes "x \<in> valid_states"
  shows "x AND OS_TASK_STATE = OS_TASK_READY \<longleftrightarrow> x = OS_TASK_READY"
    and "x AND OS_TASK_STATE = OS_TASK_SUSPENDED \<longleftrightarrow> x = OS_TASK_SUSPENDED"
    and "x AND OS_TASK_STATE = OS_TASK_DEAD \<longleftrightarrow> x = OS_TASK_DEAD"
  using assms by (auto simp: valid_states_def)

lemma placed_state: "data_inv {} L TL OL A s \<Longrightarrow> t \<in> A \<Longrightarrow> state (tasks s t) \<in> valid_states"
  by (simp add: data_inv_def placed_def task_placed_def)

lemma data_inv_unwait:
  assumes "data_inv {t} L TL OL A s" and "t \<in> A" "absent t L TL"
  shows "data_inv {t} L TL OL A (set_waitList t v s)" "data_inv {t} L TL OL A (set_state t x s)"
    "data_inv {t} L TL OL A (set_result t r s)"
  using assms by (auto intro!: data_inv_moving_simple)

lemma calm_unwait [simp]: "calm s (set_waitList t None s)"
  by (simp add: calm_but_def)

lemma osTaskDetach_inv:
  assumes R: "repr L TL s" and inv: "data_inv {} L TL OL A s" and t: "t \<in> A"
    and alive: "state (tasks s t) \<noteq> OS_TASK_DEAD"
  shows "returns (osTaskDetach t s)
    (\<lambda>s'. \<exists>L' TL'. repr L' TL' s' \<and> data_inv {t} L' TL' OL A s' \<and> absent t L' TL' \<and>
       set TL' \<subseteq> set TL \<and> data_eq (set_waitList t None s) s')"
proof (cases "state (tasks s t) = OS_TASK_READY")
  case True
  note d = detach_ready [OF inv t True]
  have "data_inv {t} (L(ReadyHead := remove1 t (L ReadyHead))) TL OL A s'" if "data_eq s s'" for s'
    using d(1) parts_data_eq(12) [OF that] by simp
  moreover have "returns (osListRemove ReadyHead t s)
      (\<lambda>s'. repr (L(ReadyHead := remove1 t (L ReadyHead))) TL s' \<and> data_eq s s')"
    using osListRemove_spec [of L s ReadyHead t] R timer_list_relinked relinked_data_eq
    by (auto simp: repr_def elim!: returns_mono)
  ultimately show ?thesis
    using True d(2,3) by (auto simp: osTaskDetach_def elim!: returns_mono)
next
  case False
  then have st: "state (tasks s t) AND OS_TASK_STATE \<noteq> OS_TASK_READY"
    using valid_state(1) [OF placed_state [OF inv t]] by simp
  note d = detach_blocked [OF inv t _ False alive, simplified]
  have "data_inv {t} (unwaited s t L) (untimed s t TL) OL A s'"
    if "data_eq (set_waitList t None s) s'" for s'
    using data_inv_unwait(1) [OF d(1) t d(2)] parts_data_eq(12) [OF that] by simp
  moreover have "set (untimed s t TL) \<subseteq> set TL"
    by (auto simp: untimed_def dest: set_remove1_subset [THEN subsetD])
  ultimately show ?thesis
    using st osUnblock_spec [OF R, of t] d(2) by (auto simp: osTaskDetach_def elim!: returns_mono)
qed

lemma detached_not_due:
  "not_due TL s \<Longrightarrow> set TL' \<subseteq> set TL \<Longrightarrow> data_eq (set_waitList t None s) s' \<Longrightarrow> not_due TL' s'"
  by (auto simp: not_due_def left_def data_eqD)

lemma task_or_current_other: "t = task_or_current target s \<Longrightarrow> t \<noteq> osCurrentTask s \<Longrightarrow> target = Some t"
  by (cases target) (auto simp: task_or_current_def)

section \<open>Suspending and resuming\<close>

definition suspended :: "addr \<Rightarrow> kernel \<Rightarrow> kernel" where
  "suspended t s = set_state t OS_TASK_SUSPENDED (set_result t 0 (set_waitList t None s))"

lemma osTaskSuspend_rest:
  assumes r: "rest A s" and ok: "objects_ok A s" and t: "t = task_or_current target s" "t \<in> A"
    and idle: "t \<noteq> osIdleTask s"
    and st: "state (tasks s t) \<noteq> OS_TASK_SUSPENDED" "state (tasks s t) \<noteq> OS_TASK_DEAD"
  shows "returns (osTaskSuspend target s)
    (\<lambda>(r, s'). rest A s' \<and> objects_ok A s' \<and> state (tasks s' t) = OS_TASK_SUSPENDED \<and>
       result (tasks s' t) = 0 \<and> same_owners s s' \<and>
       (if t = osCurrentTask s then r = Switched \<and> top_runs A s' \<and> cont s' t = Some (KReturn VVoid)
        else r = Returned VVoid \<and> data_eq (suspended t s) s'))"
proof -
  from r obtain L TL OL where K: "kernel_inv L TL OL A s" by (auto simp: rest_def)
  then have R: "repr L TL s" and inv: "data_inv {} L TL OL A s" and nd: "not_due TL s"
    and run: "running {osCurrentTask s} A s" by (simp_all add: kernel_inv_def)
  have cont: "\<forall>x \<in> A. x \<noteq> osCurrentTask s \<longrightarrow> cont s x \<noteq> None" using r by (simp add: rest_def)
  have good: "returns (if t = osCurrentTask s2
      then Option.bind (osDispatch s2) (\<lambda>s. Some (Switched, save t (KReturn VVoid) s))
      else Some (Returned VVoid, s2))
    (\<lambda>(r, s'). rest A s' \<and> objects_ok A s' \<and> state (tasks s' t) = OS_TASK_SUSPENDED \<and>
       result (tasks s' t) = 0 \<and> same_owners s s' \<and>
       (if t = osCurrentTask s then r = Switched \<and> top_runs A s' \<and> cont s' t = Some (KReturn VVoid)
        else r = Returned VVoid \<and> data_eq (suspended t s) s'))"
    if s1: "repr L' TL' s1" "data_inv {t} L' TL' OL A s1" "absent t L' TL'" "set TL' \<subseteq> set TL"
      "data_eq (set_waitList t None s) s1"
      and s2: "s2 = set_state t OS_TASK_SUSPENDED (set_result t 0 s1)" for L' TL' s1 s2
  proof -
    note d = data_eqD [OF s1(5)]
    have R2: "repr L' TL' s2" using s1(1) by (simp add: s2)
    have "data_inv {t} L' TL' OL A s2"
      using s1(2,3) t(2) by (simp add: s2 data_inv_unwait)
    then have inv2: "data_inv {} L' TL' OL A s2"
      using s1(3) t(2) idle by (intro arrive_aside) (auto simp: s2 d)
    have nd2: "not_due TL' s2"
      using detached_not_due [OF nd s1(4,5)] by (simp add: not_due_def left_def s2)
    have eq: "data_eq (suspended t s) s2"
      unfolding suspended_def s2 by (intro data_eq_sets s1(5))
    note e = data_eqD [OF eq]
    have c2: "osCurrentTask s2 = osCurrentTask s" "cont s2 = cont s" by (simp_all add: e suspended_def)
    have own: "same_owners s s2" by (simp add: same_owners_def e suspended_def)
    have "calm s s2" by (rule calm_data_eq [OF _ eq]) (simp add: suspended_def calm_but_def)
    then have ok2: "objects_ok A s2" using objects_ok_calm [OF ok] by blast
    show ?thesis
    proof (cases "t = osCurrentTask s")
      case True
      have "running {} A s2" using run True by (auto simp: running_def e suspended_def)
      then have "returns (osDispatch s2) (\<lambda>s'. \<exists>n. state (tasks s2 n) = OS_TASK_READY \<and>
          data_eq (switched_to n s2) s' \<and> rest A (save t (KReturn VVoid) s') \<and> top_runs A s')"
        using dispatch_rest [OF R2 inv2 nd2] cont c2 True by simp
      moreover have "objects_ok A s'" if "data_eq (switched_to n s2) s'" for s' n
        using objects_ok_calm [OF ok2 calm_data_eq [OF calm_switched that]] .
      moreover have "same_owners s s'" if "data_eq (switched_to n s2) s'" for s' n
        using own that by (simp add: same_owners_def data_eqD switched_to_def)
      moreover have "state (tasks s2 t) = OS_TASK_SUSPENDED" by (simp add: s2)
      ultimately show ?thesis
        using True c2 e(2) by (auto simp: data_eqD switched_to_def suspended_def elim!: returns_mono)
    next
      case False
      have "running {osCurrentTask s2} A s2" using run False c2 by (auto simp: running_def e suspended_def)
      then have "kernel_inv L' TL' OL A s2" using R2 inv2 nd2 by (simp add: kernel_inv_def)
      then have "rest A s2" using cont c2 by (auto simp: rest_def)
      then show ?thesis using False c2 ok2 own eq by (simp add: e suspended_def)
    qed
  qed
  have "state (tasks s t) AND OS_TASK_STATE \<noteq> OS_TASK_SUSPENDED \<and>
      state (tasks s t) AND OS_TASK_STATE \<noteq> OS_TASK_DEAD"
    using st valid_state [OF placed_state [OF inv t(2)]] by simp
  then have "osTaskSuspend target s = Option.bind (osTaskDetach t s) (\<lambda>s1.
      let s2 = set_state t OS_TASK_SUSPENDED (set_result t 0 s1) in if t = osCurrentTask s2
      then Option.bind (osDispatch s2) (\<lambda>s. Some (Switched, save t (KReturn VVoid) s))
      else Some (Returned VVoid, s2))"
    using idle unfolding osTaskSuspend_def t(1) [symmetric] Let_def by simp
  then show ?thesis
    unfolding Let_def
    by (simp only: returns_bind)
      (rule returns_mono [OF osTaskDetach_inv [OF R inv t(2) st(2)]], elim exE conjE, rule good [OF _ _ _ _ _ refl])
qed

lemma osTaskResumeFromISR_rest:
  assumes r: "rest A s" and ok: "objects_ok A s" and t: "t \<in> A"
  shows "returns (osTaskResumeFromISR t s)
    (\<lambda>s'. rest A s' \<and> objects_ok A s' \<and> osCurrentTask s' = osCurrentTask s \<and> same_owners s s' \<and>
       (if state (tasks s t) = OS_TASK_SUSPENDED then data_eq (set_state t OS_TASK_READY s) s' else s' = s))"
proof -
  from r obtain L TL OL where K: "kernel_inv L TL OL A s" by (auto simp: rest_def)
  then have R: "repr L TL s" and inv: "data_inv {} L TL OL A s" and nd: "not_due TL s"
    and run: "running {osCurrentTask s} A s" by (simp_all add: kernel_inv_def)
  note st = valid_state(2) [OF placed_state [OF inv t]]
  show ?thesis
  proof (cases "state (tasks s t) = OS_TASK_SUSPENDED")
    case False
    then show ?thesis using st r ok by (simp add: osTaskResumeFromISR_def same_owners_def)
  next
    case True
    note d = detach_none [OF inv t disjI2 [OF True]]
    have "rest A s' \<and> objects_ok A s' \<and> osCurrentTask s' = osCurrentTask s \<and> same_owners s s'"
      if s': "repr (made_ready s t L) TL s'" "data_inv {} (made_ready s t L) TL OL A s'"
        "data_eq (set_state t OS_TASK_READY s) s'" for s'
    proof -
      note e = data_eqD [OF s'(3)]
      have "t \<noteq> osCurrentTask s" using True rest_current [OF r] by auto
      then have "running {osCurrentTask s'} A s'" using run by (auto simp: running_def e)
      moreover have "not_due TL s'" using nd by (simp add: not_due_def left_def e)
      ultimately have "kernel_inv (made_ready s t L) TL OL A s'" using s' by (simp add: kernel_inv_def)
      then have "rest A s'" using r by (auto simp: rest_def e)
      moreover have "calm s s'" by (rule calm_data_eq [OF _ s'(3)]) (simp add: calm_but_def)
      ultimately show ?thesis
        using objects_ok_calm [OF ok] by (simp add: same_owners_def e)
    qed
    then show ?thesis
      using osReady_inv [OF R d(1) t d(2,3)] True st
      by (auto simp: osTaskResumeFromISR_def elim!: returns_mono)
  qed
qed

lemma osTaskResume_rest:
  assumes r: "rest A s" and ok: "objects_ok A s" and t: "t \<in> A"
  shows "returns (osTaskResume t s)
    (\<lambda>(r, s'). rest A s' \<and> objects_ok A s' \<and> top_runs A s' \<and> same_owners s s')"
  unfolding osTaskResume_def returns_bind
proof (rule returns_mono [OF osTaskResumeFromISR_rest [OF r ok t]], elim conjE)
  fix s1 assume s1: "rest A s1" "objects_ok A s1" "same_owners s s1"
  show "returns (leave (osCurrentTask s1) (KReturn VVoid) (\<lambda>_ s. Some (Returned VVoid, s)) (osSchedule 0 s1))
     (\<lambda>(r, s'). rest A s' \<and> objects_ok A s' \<and> top_runs A s' \<and> same_owners s s')"
    using schedule_ok [OF s1(1,2), of 0 "KReturn VVoid" VVoid] s1(3)
    by (auto simp: same_owners_def elim!: returns_mono)
qed


section \<open>Deleting\<close>

text \<open>
  The list of the tasks whose memory is to be freed: \<open>osTaskDelete\<close> puts a task in front of it,
  which is what \<open>osListInsert\<close> would do with a key nobody has.
\<close>

definition push_dead :: "addr \<Rightarrow> kernel \<Rightarrow> kernel" where
  "push_dead t s =
     (if dynamic (tasks s t) \<noteq> 0 then (set_tnext t (osDeadList s) s)\<lparr>osDeadList := Some t\<rparr> else s)"

definition dead_lists :: "addr \<Rightarrow> kernel \<Rightarrow> (head \<Rightarrow> addr list) \<Rightarrow> head \<Rightarrow> addr list" where
  "dead_lists t s L = (if dynamic (tasks s t) \<noteq> 0 then L(DeadHead := t # L DeadHead) else L)"

lemma push_dead_spec:
  assumes R: "repr L TL s" and t: "absent t L TL"
  shows "repr (dead_lists t s L) TL (push_dead t s)" and "data_eq s (push_dead t s)"
proof -
  let ?s = "wr (Head DeadHead) (Some t) (wr (Next t) (first (L DeadHead)) s)"
  have ch: "chain (rd s) Next (Head h) (L h)" for h using R by (simp add: repr_def lists_def)
  have dl: "osDeadList s = first (L DeadHead)" using chain_first [OF ch [of DeadHead]] by simp
  have rel: "relinked s ?s" by (rule relinked_trans [OF relinked_wr relinked_wr])
  have front: "chain (rd ?s) Next (Head DeadHead) (t # L DeadHead)"
    using tl.splice_in [of s "Head DeadHead" "[]" "L DeadHead" t] ch t by (simp add: absent_def)
  have "chain (rd ?s) Next (Head h) (L h)" if "h \<noteq> DeadHead" for h
    using ch t that by (intro tl.other_list) (auto simp: absent_def)
  then have "lists (L(DeadHead := t # L DeadHead)) ?s"
    using R t front by (auto simp: lists_def repr_def absent_def split: if_splits)
  then have "repr (L(DeadHead := t # L DeadHead)) TL ?s"
    using R timer_list_relinked [OF rel] by (simp add: repr_def)
  then show "repr (dead_lists t s L) TL (push_dead t s)" "data_eq s (push_dead t s)"
    using R relinked_data_eq [OF rel] by (simp_all add: push_dead_def dead_lists_def dl)
qed

lemma push_dead_inv:
  assumes inv: "data_inv {t} L TL OL A s" and t: "t \<in> A" "absent t L TL" "t \<noteq> osIdleTask s"
    and dead: "state (tasks s t) = OS_TASK_DEAD" "waitList (tasks s t) = None" "OL t = []"
  shows "data_inv {} (dead_lists t s L) TL OL A s"
proof -
  have own: "owner (mutexes s m) \<noteq> Some t" for m
  proof -
    have "m \<in> set (OL t) \<longleftrightarrow> owner (mutexes s m) = Some t"
      using inv unfolding data_inv_def owners_def by blast
    then show ?thesis by (simp add: dead(3))
  qed
  have "distinct (L DeadHead)" using inv by (simp add: data_inv_def placed_def)
  then show ?thesis
    using t dead own
    by (intro arrive [OF inv]) (auto simp: dead_lists_def task_placed_def valid_states_def absent_def split: if_splits)
qed

text \<open>A task that is detached and dead gives its mutexes away; what follows is a switch or not.\<close>

lemma release_dead:
  assumes R: "repr L TL s" and inv: "data_inv {t} L TL OL A s" and t: "t \<in> A" "absent t L TL" "t \<noteq> osIdleTask s"
    and dead: "state (tasks s t) = OS_TASK_DEAD" "waitList (tasks s t) = None"
    and nd: "not_due TL s" and run: "running C A s"
  shows "returns (osMutexReleaseAll t s)
    (\<lambda>s'. \<exists>L' TL' OL'. repr L' TL' (push_dead t s') \<and> data_inv {} L' TL' OL' A (push_dead t s') \<and>
       not_due TL' (push_dead t s') \<and> running C A (push_dead t s') \<and> wakes s s' \<and>
       data_eq s' (push_dead t s') \<and> state (tasks s' t) = OS_TASK_DEAD \<and>
       (\<forall>m. owner (mutexes s' m) \<noteq> Some t) \<and> handed t s s')"
proof (rule returns_mono [OF osMutexReleaseAll_inv [OF R inv t(2,1)]], elim exE conjE)
  fix s' L' TL' OL'
  assume s': "repr L' TL' s'" "data_inv {t} L' TL' OL' A s'" "absent t L' TL'" "set TL' \<subseteq> set TL"
    "wakes s s'" "handed t s s'" "OL' t = []"
  have wt: "state (tasks s' t) = OS_TASK_DEAD \<and> waitList (tasks s' t) = None"
    using s'(5) dead unfolding wakes_def by metis
  note push = push_dead_spec [OF s'(1,3)]
  have idle: "t \<noteq> osIdleTask s'" using s'(5) t(3) by (simp add: wakes_def calm_but_def)
  have "data_inv {} (dead_lists t s' L') TL' OL' A (push_dead t s')"
    using push_dead_inv [OF s'(2) t(1) s'(3) idle _ _ s'(7)] wt parts_data_eq(12) [OF push(2)] by simp
  moreover have "not_due TL' (push_dead t s')"
    using wakes_not_due [OF s'(5) nd s'(4)] parts_data_eq(5) [OF push(2)] by simp
  moreover have "task_placed L TL s x" if "x \<in> A - {t}" for x
    using inv that by (simp add: data_inv_def placed_def)
  then have "running C A s'"
    using running_wakes [OF _ s'(5) run, of "{t}" L TL] dead(2) by simp
  then have "running C A (push_dead t s')" using parts_data_eq(11) [OF push(2)] by simp
  moreover have "owner (mutexes s' m) \<noteq> Some t" for m
  proof -
    have "m \<in> set (OL' t) \<longleftrightarrow> owner (mutexes s' m) = Some t"
      using s'(2) unfolding data_inv_def owners_def by blast
    then show ?thesis by (simp add: s'(7))
  qed
  ultimately show "\<exists>L' TL' OL'. repr L' TL' (push_dead t s') \<and> data_inv {} L' TL' OL' A (push_dead t s') \<and>
      not_due TL' (push_dead t s') \<and> running C A (push_dead t s') \<and> wakes s s' \<and>
      data_eq s' (push_dead t s') \<and> state (tasks s' t) = OS_TASK_DEAD \<and>
      (\<forall>m. owner (mutexes s' m) \<noteq> Some t) \<and> handed t s s'"
    using push s'(5,6) wt by blast
qed

definition dead :: "addr \<Rightarrow> kernel \<Rightarrow> bool" where
  "dead t s \<longleftrightarrow> state (tasks s t) = OS_TASK_DEAD \<and> (\<forall>m. owner (mutexes s m) \<noteq> Some t)"

lemma delete_end:
  assumes R: "repr L TL s" and inv: "data_inv {} L TL OL A s" and nd: "not_due TL s"
    and run: "running (if t = c then {} else {c}) A s" and c: "c = osCurrentTask s"
    and cont: "\<forall>x \<in> A. x \<noteq> c \<longrightarrow> cont s x \<noteq> None" and ok: "objects_ok A s" and t: "dead t s"
  shows "returns (if t = c
      then Option.bind (osDispatch s) (\<lambda>s. Some (Switched, save c KDelete s)) else osTaskDelete_end s)
    (\<lambda>(r, s'). rest A s' \<and> objects_ok A s' \<and> top_runs A s' \<and> dead t s' \<and> (t = c \<longrightarrow> r = Switched))"
proof (cases "t = c")
  case True
  have ok': "objects_ok A s'" if "data_eq (switched_to n s) s'" for s' n
    using objects_ok_calm [OF ok calm_data_eq [OF calm_switched that]] .
  have dead': "dead t (save c KDelete s')"
    if "data_eq (switched_to n s) s'" "state (tasks s n) = OS_TASK_READY" for s' n
    using that t by (auto simp: dead_def data_eqD switched_to_def)
  have "returns (osDispatch s) (\<lambda>s'. \<exists>n. state (tasks s n) = OS_TASK_READY \<and>
      data_eq (switched_to n s) s' \<and> rest A (save c KDelete s') \<and> top_runs A s')"
    using dispatch_rest [OF R inv nd] run cont True c by simp
  then show ?thesis
    unfolding True using ok' dead'
    by (auto simp: True elim!: returns_mono)
next
  case False
  have "kernel_inv L TL OL A s" using R inv nd run False c by (simp add: kernel_inv_def)
  then have r: "rest A s" using cont c by (auto simp: rest_def)
  have "dead t s'" if "same_owners s s'" "\<forall>x. x \<noteq> c \<longrightarrow> state (tasks s x) \<noteq> OS_TASK_READY \<longrightarrow>
      state (tasks s' x) = state (tasks s x) \<and> waitList (tasks s' x) = waitList (tasks s x)" for s'
    using that t False by (simp add: dead_def same_owners_def)
  then show ?thesis
    using returns_conj [OF schedule_ok [OF r ok, of 0 "KReturn VVoid" VVoid]
        schedule_states [OF r, of 0 "KReturn VVoid" VVoid]] False c
    by (auto simp: osTaskDelete_end_def elim!: returns_mono)
qed

lemma osTaskDelete_rest:
  assumes r: "rest A s" and ok: "objects_ok A s" and t: "t = task_or_current target s" "t \<in> A"
    and idle: "t \<noteq> osIdleTask s" and alive: "state (tasks s t) \<noteq> OS_TASK_DEAD"
  shows "returns (osTaskDelete target s)
    (\<lambda>(r, s'). rest A s' \<and> objects_ok A s' \<and> top_runs A s' \<and> dead t s' \<and>
       (t = osCurrentTask s \<longrightarrow> r = Switched))"
proof -
  define c where "c = osCurrentTask s"
  from r obtain L TL OL where K: "kernel_inv L TL OL A s" by (auto simp: rest_def)
  then have R: "repr L TL s" and inv: "data_inv {} L TL OL A s" and nd: "not_due TL s"
    and run: "running {c} A s" by (simp_all add: kernel_inv_def c_def)
  have cont: "\<forall>x \<in> A. x \<noteq> c \<longrightarrow> cont s x \<noteq> None" using r by (simp add: rest_def c_def)
  have "state (tasks s t) AND OS_TASK_STATE \<noteq> OS_TASK_DEAD"
    using valid_state(3) [OF placed_state [OF inv t(2)]] alive by simp
  then have unfold: "osTaskDelete target s = Option.bind (osTaskDetach t s) (\<lambda>s1.
      Option.bind (osMutexReleaseAll t (set_state t OS_TASK_DEAD s1)) (\<lambda>s2.
        if t = osCurrentTask (push_dead t s2)
        then Option.bind (osDispatch (push_dead t s2)) (\<lambda>s. Some (Switched, save c KDelete s))
        else osTaskDelete_end (push_dead t s2)))"
    using idle unfolding osTaskDelete_def t(1) [symmetric] c_def push_dead_def Let_def by simp
  show ?thesis
    unfolding unfold returns_bind
  proof (rule returns_mono [OF osTaskDetach_inv [OF R inv t(2) alive]], elim exE conjE)
    fix s1 L1 TL1
    assume s1: "repr L1 TL1 s1" "data_inv {t} L1 TL1 OL A s1" "absent t L1 TL1" "set TL1 \<subseteq> set TL"
      "data_eq (set_waitList t None s) s1"
    define sd where "sd = set_state t OS_TASK_DEAD s1"
    note d = data_eqD [OF s1(5)]
    have Rd: "repr L1 TL1 sd" using s1(1) by (simp add: sd_def)
    have invd: "data_inv {t} L1 TL1 OL A sd" using s1(2,3) t(2) by (simp add: sd_def data_inv_unwait)
    have idled: "t \<noteq> osIdleTask sd" using idle by (simp add: sd_def d)
    have dd: "state (tasks sd t) = OS_TASK_DEAD" "waitList (tasks sd t) = None" by (simp_all add: sd_def d)
    have ndd: "not_due TL1 sd"
      using detached_not_due [OF nd s1(4,5)] by (simp add: not_due_def left_def sd_def)
    have rund: "running (if t = c then {} else {c}) A sd" using run by (auto simp: running_def sd_def d)
    have "data_eq (set_state t OS_TASK_DEAD (set_waitList t None s)) sd"
      unfolding sd_def by (intro data_eq_sets s1(5))
    then have "calm s sd" by (rule calm_data_eq [rotated]) (simp add: calm_but_def)
    then have okd: "objects_ok A sd" using objects_ok_calm [OF ok] by blast
    show "returns (osMutexReleaseAll t (set_state t OS_TASK_DEAD s1)) (\<lambda>s2. returns
        (if t = osCurrentTask (push_dead t s2)
         then Option.bind (osDispatch (push_dead t s2)) (\<lambda>s. Some (Switched, save c KDelete s))
         else osTaskDelete_end (push_dead t s2))
        (\<lambda>(r, s'). rest A s' \<and> objects_ok A s' \<and> top_runs A s' \<and> dead t s' \<and>
           (t = osCurrentTask s \<longrightarrow> r = Switched)))"
      unfolding sd_def [symmetric]
    proof (rule returns_mono [OF release_dead [OF Rd invd t(2) s1(3) idled dd ndd rund]], elim exE conjE)
      fix s2 L2 TL2 OL2
      assume s2: "repr L2 TL2 (push_dead t s2)" "data_inv {} L2 TL2 OL2 A (push_dead t s2)"
        "not_due TL2 (push_dead t s2)" "running (if t = c then {} else {c}) A (push_dead t s2)"
        "wakes sd s2" "data_eq s2 (push_dead t s2)" "state (tasks s2 t) = OS_TASK_DEAD"
        "\<forall>m. owner (mutexes s2 m) \<noteq> Some t"
      note p = data_eqD [OF s2(6)]
      have c2: "c = osCurrentTask (push_dead t s2)" and k2: "cont (push_dead t s2) = cont s"
        using s2(5) by (simp_all add: p wakes_def sd_def d c_def)
      have dead2: "dead t (push_dead t s2)" using s2(7,8) by (simp add: dead_def p)
      have cont2: "\<forall>x \<in> A. x \<noteq> c \<longrightarrow> cont (push_dead t s2) x \<noteq> None" using cont k2 by simp
      have ok2: "objects_ok A (push_dead t s2)"
        by (rule objects_ok_calm [OF okd calm_data_eq [OF wakesD(1) [OF s2(5)] s2(6)]])
      from delete_end [OF s2(1-4) c2 cont2 ok2 dead2]
      show "returns (if t = osCurrentTask (push_dead t s2)
         then Option.bind (osDispatch (push_dead t s2)) (\<lambda>s. Some (Switched, save c KDelete s))
         else osTaskDelete_end (push_dead t s2))
        (\<lambda>(r, s'). rest A s' \<and> objects_ok A s' \<and> top_runs A s' \<and> dead t s' \<and>
           (t = osCurrentTask s \<longrightarrow> r = Switched))"
        unfolding c2 [symmetric] c_def [symmetric] .
    qed
  qed
qed


section \<open>Creating\<close>

text \<open>The state in which a new task becomes ready.\<close>

definition task_place :: "addr \<Rightarrow> u16 \<Rightarrow> addr" where
  "task_place mem len = mem + len - sizeof_OsTask"

definition new_tcb :: "addr \<Rightarrow> addr \<Rightarrow> u8 \<Rightarrow> u8 \<Rightarrow> OsTask" where
  "new_tcb p mem prio dyn = zeroed\<lparr>sp := p, stack := mem, dynamic := dyn,
     priority := osTaskPriority prio, basePriority := osTaskPriority prio\<rparr>"

definition new_stack :: "u16 \<times> u16 \<Rightarrow> u16 \<Rightarrow> u16 \<Rightarrow> addr \<Rightarrow> u16 \<Rightarrow> (addr \<Rightarrow> u8) \<Rightarrow> addr \<times> (addr \<Rightarrow> u8)" where
  "new_stack link fn param mem len r =
     pushes (task_place mem len - 1) (frame (fst link) (snd link) fn param)
       (memset (unat (len - sizeof_OsTask)) mem OS_STACK_FILL r)"

definition prepared ::
  "u16 \<times> u16 \<Rightarrow> u16 \<Rightarrow> u16 \<Rightarrow> addr \<Rightarrow> u16 \<Rightarrow> u8 \<Rightarrow> u8 \<Rightarrow> kernel \<Rightarrow> kernel" where
  "prepared link fn param mem len prio dyn s =
     (let (p, r) = new_stack link fn param mem len (ram s); t = task_place mem len
      in save t (KStart fn param) (ram_upd (\<lambda>_. r) (task_upd t (\<lambda>_. new_tcb p mem prio dyn) s)))"

lemma osTaskSetup_prepared:
  assumes "\<not> len < OS_TASK_MEMORY OS_STACK_MIN" and "t = task_place mem len"
  shows "osTaskSetup link fn param (Some mem) len prio dyn s =
    Option.bind (osReady t (prepared link fn param mem len prio dyn s)) (\<lambda>s.
      leave (osCurrentTask s) (KReturn (VTask (Some t))) (\<lambda>_ s. Some (Returned (VTask (Some t)), s)) (osSchedule 0 s))"
proof -
  have "prepared link fn param mem len prio dyn s =
      save t (KStart fn param) (set_basePriority t (osTaskPriority prio) (set_priority t (osTaskPriority prio)
        (task_upd t (dynamic_update (\<lambda>_. dyn)) (task_upd t (stack_update (\<lambda>_. mem))
          (task_upd t (sp_update (\<lambda>_. fst (new_stack link fn param mem len (ram s))))
            (ram_upd (\<lambda>_. snd (new_stack link fn param mem len (ram s)))
              (ram_upd (memset (unat (len - sizeof_OsTask)) mem OS_STACK_FILL) (task_upd t (\<lambda>_. zeroed) s))))))))"
    by (simp add: prepared_def case_prod_unfold Let_def assms(2) save_def ram_upd_def task_upd_def new_tcb_def)
  then show ?thesis
    using assms by (simp add: osTaskSetup_def task_place_def Let_def osPortStackInit_pushes
      new_stack_def case_prod_unfold)
qed

lemma prepared_simps [simp]:
  fixes link fn param mem len s
  defines "t \<equiv> task_place mem len" and "r \<equiv> new_stack link fn param mem len (ram s)"
  shows "tasks (prepared link fn param mem len prio dyn s) = (tasks s)(t := new_tcb (fst r) mem prio dyn)"
    and "mutexes (prepared link fn param mem len prio dyn s) = mutexes s"
    and "semaphores (prepared link fn param mem len prio dyn s) = semaphores s"
    and "queues (prepared link fn param mem len prio dyn s) = queues s"
    and "events (prepared link fn param mem len prio dyn s) = events s"
    and "ram (prepared link fn param mem len prio dyn s) = snd r"
    and "osIdleTask (prepared link fn param mem len prio dyn s) = osIdleTask s"
    and "osCurrentTask (prepared link fn param mem len prio dyn s) = osCurrentTask s"
    and "osTicks (prepared link fn param mem len prio dyn s) = osTicks s"
    and "cont (prepared link fn param mem len prio dyn s) = (cont s)(t := Some (KStart fn param))"
    and "rd (prepared link fn param mem len prio dyn s) = (rd s)(Next t := None)"
    and "trd (prepared link fn param mem len prio dyn s) = (trd s)(TimerNext t := None)"
    and "ord (prepared link fn param mem len prio dyn s) = (ord s)(OwnedBy t := None)"
proof -
  let ?s = "prepared link fn param mem len prio dyn s"
  have eq: "?s = save t (KStart fn param) (ram_upd (\<lambda>_. snd r) (task_upd t (\<lambda>_. new_tcb (fst r) mem prio dyn) s))"
    by (simp add: prepared_def case_prod_unfold Let_def t_def r_def)
  show "tasks ?s = (tasks s)(t := new_tcb (fst r) mem prio dyn)" "mutexes ?s = mutexes s"
    "semaphores ?s = semaphores s" "queues ?s = queues s" "events ?s = events s" "ram ?s = snd r"
    "osIdleTask ?s = osIdleTask s" "osCurrentTask ?s = osCurrentTask s" "osTicks ?s = osTicks s"
    "cont ?s = (cont s)(t := Some (KStart fn param))"
    by (simp_all add: eq)
  have "rd ?s c = ((rd s)(Next t := None)) c" for c
    by (cases "(s, c)" rule: rd.cases) (auto simp: eq new_tcb_def zeroed_def)
  then show "rd ?s = (rd s)(Next t := None)" by (rule ext)
  have "trd ?s c = ((trd s)(TimerNext t := None)) c" for c
    by (cases c) (auto simp: eq new_tcb_def zeroed_def)
  then show "trd ?s = (trd s)(TimerNext t := None)" by (rule ext)
  have "ord ?s c = ((ord s)(OwnedBy t := None)) c" for c
    by (cases c) (auto simp: eq new_tcb_def zeroed_def)
  then show "ord ?s = (ord s)(OwnedBy t := None)" by (rule ext)
qed

lemma stack_min: "\<not> len < OS_TASK_MEMORY OS_STACK_MIN \<longleftrightarrow> 83 \<le> unat len"
  by (simp add: OS_TASK_MEMORY_def OS_STACK_MIN_def not_less word_le_nat_alt)

lemma frame_place:
  assumes "83 \<le> unat len" and "x \<in> pushed (task_place mem len - 1) 27"
  obtains k where "x = mem + of_nat k" and "0 < k" and "k < unat len - 21"
proof -
  from assms(2) obtain i where i: "i < 27" "x = task_place mem len - 1 - of_nat i"
    by (auto simp: pushed_def)
  have "of_nat (unat len - 22 - i) = (of_nat (unat len) - of_nat 22 - of_nat i :: addr)"
    using i(1) assms(1) by (simp only: of_nat_diff)
  then have "x = mem + of_nat (unat len - 22 - i)" by (simp add: i(2) task_place_def algebra_simps)
  then show ?thesis by (rule that) (use i(1) assms(1) in auto)
qed

lemma new_stack_canary:
  assumes "83 \<le> unat len"
  shows "snd (new_stack link fn param mem len r) mem = OS_STACK_FILL"
proof -
  have "unat len < 2 ^ LENGTH(16)" by (rule unsigned_less)
  then have small: "unat len < 65536" by simp
  have "mem \<notin> pushed (task_place mem len - 1) 27"
  proof
    assume "mem \<in> pushed (task_place mem len - 1) 27"
    then obtain k where k: "mem = mem + of_nat k" "0 < k" "k < unat len - 21"
      using assms frame_place by blast
    then have "k < 65536" using small by linarith
    then show False using of_nat_u16_inj [of k 0] k(1,2) by simp
  qed
  moreover have "unat (len - 21) = unat len - 21"
    using assms by (subst unat_sub) (simp_all add: word_le_nat_alt)
  then have "mem \<in> region mem (unat (len - 21))" using assms by (auto simp: region_def intro!: exI [of _ 0])
  moreover have "unat (len - 21) \<le> 65536" using \<open>unat (len - 21) = unat len - 21\<close> small by simp
  ultimately show ?thesis by (simp add: new_stack_def pushes_other memset_set)
qed

lemma new_stack_other:
  assumes "83 \<le> unat len" and "x \<notin> region mem (unat len)"
  shows "snd (new_stack link fn param mem len r) x = r x"
proof -
  have "x \<notin> pushed (task_place mem len - 1) 27"
  proof
    assume "x \<in> pushed (task_place mem len - 1) 27"
    then obtain k where "x = mem + of_nat k" "k < unat len - 21" using assms(1) frame_place by blast
    then show False using assms by (auto simp: region_def)
  qed
  moreover have "unat (len - 21) \<le> unat len"
    using assms by (subst unat_sub) (simp_all add: word_le_nat_alt)
  then have "x \<notin> region mem (unat (len - 21))" using assms(2) region_mono by blast
  ultimately show ?thesis by (simp add: new_stack_def pushes_other memset_other)
qed

lemma task_placed_other:
  "x \<noteq> t \<Longrightarrow> tasks s' = (tasks s)(t := k) \<Longrightarrow> task_placed L TL s' x = task_placed L TL s x"
  by (simp add: task_placed_def)

lemma outside:
  assumes inv: "data_inv {} L TL OL A s" and t: "t \<notin> A"
  shows "t \<notin> set (L h)" "t \<notin> set TL" "OL t = []" "owner (mutexes s m) \<noteq> Some t"
    "t \<noteq> osIdleTask s" "t \<noteq> osCurrentTask s"
proof -
  show "t \<notin> set (L h)" "t \<notin> set TL" using inv t unfolding data_inv_def placed_def by blast+
  have own: "owner (mutexes s m) \<noteq> Some t" for m using inv t unfolding data_inv_def owners_def by blast
  then show "owner (mutexes s m) \<noteq> Some t" .
  have "m \<in> set (OL t) \<longleftrightarrow> owner (mutexes s m) = Some t" for m
    using inv unfolding data_inv_def owners_def by blast
  then show "OL t = []" using own by (metis last_in_set)
  show "t \<noteq> osIdleTask s" "t \<noteq> osCurrentTask s" using inv t by (auto simp: data_inv_def idle_ok_def)
qed

text \<open>The invariant with the new task, which is not on a list yet.\<close>

lemma new_task_parts:
  assumes inv: "data_inv {} L TL OL A s" and t: "t \<notin> A"
    and s': "tasks s' = (tasks s)(t := k)" "mutexes s' = mutexes s" "osIdleTask s' = osIdleTask s"
      "osCurrentTask s' = osCurrentTask s" "osTicks s' = osTicks s" "ord s' = (ord s)(OwnedBy t := None)"
    and ram: "ram s' (stack k) = OS_STACK_FILL" "\<And>x. x \<in> A \<Longrightarrow> ram s' (stack (tasks s x)) = ram s (stack (tasks s x))"
    and k: "basePriority k \<le> priority k" "priority k \<le> OS_PRIORITY_MAX"
  shows "data_inv {t} L TL OL (insert t A) s'"
proof -
  note out = outside [OF inv t]
  have old: "x \<noteq> t" if "x \<in> A" for x using that t by auto
  have LA: "x \<in> A" if "x \<in> set (L h)" for x h using inv that unfolding data_inv_def placed_def by blast
  have "placed {t} L TL (insert t A) s'"
    using inv old task_placed_other [of _ t s' s k L TL] s'(1)
    by (auto simp: data_inv_def placed_def)
  moreover have "prio_sorted L s'" unfolding prio_sorted_def
  proof (intro allI impI)
    fix h assume "h \<noteq> DeadHead"
    then have "sorted_wrt (by_priority s) (L h)" using inv by (simp add: data_inv_def prio_sorted_def)
    then show "sorted_wrt (by_priority s') (L h)"
      by (rule sorted_wrt_mono_rel [rotated]) (auto simp: by_priority_def s'(1) dest: LA old)
  qed
  moreover have "timed_sorted TL s'"
  proof -
    have "sorted_wrt (by_time s) TL" "distinct TL" using inv by (simp_all add: data_inv_def timed_sorted_def)
    then have "sorted_wrt (by_time s') TL"
      by (intro sorted_wrt_mono_rel [of TL "by_time s" "by_time s'"])
        (use out(2) in \<open>auto simp: by_time_def left_def s'(1,5)\<close>)
    with \<open>distinct TL\<close> show ?thesis by (simp add: timed_sorted_def)
  qed
  moreover have "owners {t} L OL (insert t A) s'"
  proof -
    have o: "owners {} L OL A s" using inv by (simp add: data_inv_def)
    have "chain (ord s') NextOwned (OwnedBy x) (OL x)" if "x \<in> insert t A" for x
      using that o out(3) old unfolding s'(6)
      by (cases "x = t") (auto simp: owners_def intro!: chain_upd_other)
    moreover have "x \<in> A - {t} \<Longrightarrow> state (tasks s' x) = state (tasks s x)" for x by (simp add: s'(1))
    moreover note o [unfolded owners_def]
    ultimately show ?thesis unfolding owners_def s'(2) by auto
  qed
  moreover have "no_inversion L s'"
    unfolding no_inversion_def s'(2)
  proof (intro allI impI)
    fix m x w assume x: "owner (mutexes s m) = Some x" "w \<in> set (L (MutexHead m))"
    then have "priority (tasks s w) \<le> priority (tasks s x)"
      using inv unfolding data_inv_def no_inversion_def by blast
    moreover have "w \<noteq> t" "x \<noteq> t" using x LA old out(4) by auto
    ultimately show "priority (tasks s' w) \<le> priority (tasks s' x)" by (simp add: s'(1))
  qed
  moreover have "bounded (insert t A) s'" "idle_ok {t} (insert t A) s'" "canaries (insert t A) s'"
    "osCurrentTask s' \<in> insert t A"
    using inv k ram out(5) old
    by (auto simp: data_inv_def bounded_def idle_ok_def canaries_def s')
  ultimately show ?thesis by (simp add: data_inv_def)
qed

lemma objects_ok_new:
  assumes "objects_ok A s" and "tasks s' = (tasks s)(t := k)" and "waitList k = None" and "t \<notin> A"
    and "semaphores s' = semaphores s" and "queues s' = queues s" and "events s' = events s"
  shows "objects_ok (insert t A) s'"
proof -
  have "x \<in> A \<Longrightarrow> tasks s' x = tasks s x" for x using assms(2,4) by auto
  moreover have "tasks s' t = k" by (simp add: assms(2))
  ultimately show ?thesis
    using assms(1,3) unfolding objects_ok_def assms(5-7) by simp
qed

text \<open>
  The memory of the new task is not in use: neither the task nor the end of the stack of
  another one is in it, and it does not reach beyond the end of the address space.
\<close>

definition fresh :: "addr set \<Rightarrow> kernel \<Rightarrow> addr \<Rightarrow> u16 \<Rightarrow> bool" where
  "fresh A s mem len \<longleftrightarrow> task_place mem len \<notin> A \<and> harmless A s (region mem (unat len))"

lemma osTaskSetup_ready:
  assumes r: "rest A s" and ok: "objects_ok A s" and f: "fresh A s mem len"
    and len: "83 \<le> unat len" and t: "t = task_place mem len"
  shows "returns (osReady t (prepared link fn param mem len prio dyn s))
    (\<lambda>s'. rest (insert t A) s' \<and> objects_ok (insert t A) s' \<and> osCurrentTask s' = osCurrentTask s \<and>
       data_eq (set_state t OS_TASK_READY (prepared link fn param mem len prio dyn s)) s')"
proof -
  let ?s = "prepared link fn param mem len prio dyn s"
  from r obtain L TL OL where K: "kernel_inv L TL OL A s" by (auto simp: rest_def)
  then have R: "repr L TL s" and inv: "data_inv {} L TL OL A s" and nd: "not_due TL s"
    and run: "running {osCurrentTask s} A s" by (simp_all add: kernel_inv_def)
  have tA: "t \<notin> A" using f by (simp add: fresh_def t)
  note out = outside [OF inv tA]
  have R1: "repr L TL ?s"
    using R out(1,2) unfolding repr_def lists_def timer_list_def prepared_simps t [symmetric]
    by (auto intro!: chain_upd_other)
  have inv1: "data_inv {t} L TL OL (insert t A) ?s"
    using f osTaskPriority_bounds(2) [of prio]
    by (intro new_task_parts [OF inv tA, of ?s "new_tcb (fst (new_stack link fn param mem len (ram s))) mem prio dyn"])
      (auto simp: t new_tcb_def zeroed_def new_stack_canary [OF len] fresh_def harmless_def
        intro!: new_stack_other [OF len])
  have ab: "absent t L TL" using out by (simp add: absent_def)
  have w: "waitList (tasks ?s t) = None" by (simp add: t new_tcb_def zeroed_def)
  have "rest (insert t A) s' \<and> objects_ok (insert t A) s' \<and> osCurrentTask s' = osCurrentTask s"
    if s': "repr (made_ready ?s t L) TL s'" "data_inv {} (made_ready ?s t L) TL OL (insert t A) s'"
      "data_eq (set_state t OS_TASK_READY ?s) s'" for s'
  proof -
    note e = data_eqD [OF s'(3)]
    have "running {osCurrentTask s'} (insert t A) s'"
      using run tA out(6) by (auto simp: running_def e t)
    moreover have "not_due TL s'" using nd out(2) by (auto simp: not_due_def left_def e t)
    ultimately have "kernel_inv (made_ready ?s t L) TL OL (insert t A) s'" using s' by (simp add: kernel_inv_def)
    moreover have "objects_ok (insert t A) ?s"
      by (rule objects_ok_new [OF ok, of _ t "new_tcb (fst (new_stack link fn param mem len (ram s))) mem prio dyn"])
        (use tA in \<open>simp_all add: t new_tcb_def zeroed_def\<close>)
    then have "objects_ok (insert t A) s'"
      by (rule objects_ok_calm) (rule calm_data_eq [OF _ s'(3)], simp add: calm_but_def)
    ultimately show ?thesis using r by (auto simp: rest_def e t)
  qed
  then show ?thesis using osReady_inv [OF R1 inv1 _ ab w] by (auto elim!: returns_mono)
qed

lemma osTaskSetup_rest:
  assumes r: "rest A s" and ok: "objects_ok A s"
  shows "memory = None \<or> len < OS_TASK_MEMORY OS_STACK_MIN \<Longrightarrow>
      osTaskSetup link fn param memory len prio dyn s = Some (Returned (VTask None), s)"
    and "memory = Some mem \<Longrightarrow> \<not> len < OS_TASK_MEMORY OS_STACK_MIN \<Longrightarrow> fresh A s mem len \<Longrightarrow>
      t = task_place mem len \<Longrightarrow>
      returns (osTaskSetup link fn param memory len prio dyn s)
        (\<lambda>(r, s'). rest (insert t A) s' \<and> objects_ok (insert t A) s' \<and> top_runs (insert t A) s' \<and>
           (r = Switched \<or> r = Returned (VTask (Some t))))"
proof -
  show "memory = None \<or> len < OS_TASK_MEMORY OS_STACK_MIN \<Longrightarrow>
      osTaskSetup link fn param memory len prio dyn s = Some (Returned (VTask None), s)"
    by (auto simp: osTaskSetup_def split: option.split)
  assume m: "memory = Some mem" and len: "\<not> len < OS_TASK_MEMORY OS_STACK_MIN"
    and f: "fresh A s mem len" and t: "t = task_place mem len"
  have len': "83 \<le> unat len" using len by (simp add: stack_min)
  show "returns (osTaskSetup link fn param memory len prio dyn s)
        (\<lambda>(r, s'). rest (insert t A) s' \<and> objects_ok (insert t A) s' \<and> top_runs (insert t A) s' \<and>
           (r = Switched \<or> r = Returned (VTask (Some t))))"
    unfolding m osTaskSetup_prepared [OF len t] returns_bind
  proof (rule returns_mono [OF osTaskSetup_ready [OF r ok f len' t]], elim conjE)
    fix s1 assume s1: "rest (insert t A) s1" "objects_ok (insert t A) s1"
    have "returns (leave (osCurrentTask s1) k (\<lambda>_ s. Some (Returned v, s)) (osSchedule 0 s1))
        (\<lambda>(r, s'). r = Switched \<or> r = Returned v)" if "rest A' s1" for k v A'
      using schedule_rest [OF that, of 0 k v] by (auto simp: returns_leave split: outcome.splits elim!: returns_mono)
    from returns_conj [OF schedule_ok [OF s1, of 0 "KReturn (VTask (Some t))" "VTask (Some t)"] this [OF s1(1)]]
    show "returns (leave (osCurrentTask s1) (KReturn (VTask (Some t)))
        (\<lambda>_ s. Some (Returned (VTask (Some t)), s)) (osSchedule 0 s1))
      (\<lambda>(r, s'). rest (insert t A) s' \<and> objects_ok (insert t A) s' \<and> top_runs (insert t A) s' \<and>
           (r = Switched \<or> r = Returned (VTask (Some t))))"
      by (auto elim!: returns_mono)
  qed
qed

end
