(* ===== verification/Soft_Timers.thy ===== *)
theory Soft_Timers
  imports Scheduler_Inv
begin

text \<open>
  \<^verbatim>\<open>system/timer.c\<close>: software timers, on a list ordered by the time left. The function of
  a timer is code of the application: \<open>osTimerTick\<close> takes it as a parameter.
\<close>

datatype xcell = TimersHead | TimersNext addr

fun xrd :: "kernel \<Rightarrow> xcell \<Rightarrow> addr option" where
  "xrd s TimersHead = osTimers s"
| "xrd s (TimersNext t) = tm_next (timers s t)"

fun xwr :: "xcell \<Rightarrow> addr option \<Rightarrow> kernel \<Rightarrow> kernel" where
  "xwr TimersHead v s = s\<lparr>osTimers := v\<rparr>"
| "xwr (TimersNext t) v s = timer_upd t (tm_next_update (\<lambda>_. v)) s"

definition osTimerInsert :: "addr \<Rightarrow> u16 \<Rightarrow> u16 \<Rightarrow> kernel \<Rightarrow> kernel option" where
  "osTimerInsert timer now delay s = do {
     (list, it) \<leftarrow> walk (xrd s) TimersNext (\<lambda>it. tm_when (timers s it) - now \<le> delay) TimersHead;
     let s = timer_upd timer (tm_when_update (\<lambda>_. now + delay)) s;
     let s = timer_upd timer (tm_next_update (\<lambda>_. it)) s;
     Some (xwr list (Some timer) s)
   }"

definition osTimerRemove :: "addr \<Rightarrow> kernel \<Rightarrow> (bool \<times> kernel) option" where
  "osTimerRemove timer s = do {
     (list, it) \<leftarrow> walk (xrd s) TimersNext (\<lambda>it. it \<noteq> timer) TimersHead;
     case it of
       None \<Rightarrow> Some (False, s)
     | Some _ \<Rightarrow> Some (True, xwr list (tm_next (timers s timer)) s)
   }"

definition osTimerStart :: "addr \<Rightarrow> u16 \<Rightarrow> u16 \<Rightarrow> u16 \<Rightarrow> u16 \<Rightarrow> kernel \<Rightarrow> kernel option" where
  "osTimerStart timer delay period fn param s = do {
     let delay = (if delay = 0 then 1 else delay);
     (_, s) \<leftarrow> osTimerRemove timer s;
     let s = timer_upd timer (tm_period_update (\<lambda>_. period)) s;
     let s = timer_upd timer (tm_function_update (\<lambda>_. fn)) s;
     let s = timer_upd timer (tm_param_update (\<lambda>_. param)) s;
     osTimerInsert timer (osTickCount s) delay s
   }"

definition osTimerStop :: "addr \<Rightarrow> kernel \<Rightarrow> kernel option" where
  "osTimerStop timer s = map_option snd (osTimerRemove timer s)"

definition osTimerActive :: "addr \<Rightarrow> kernel \<Rightarrow> bool option" where
  "osTimerActive timer s =
     map_option (\<lambda>(_, it). it \<noteq> None)
       (walk (xrd s) TimersNext (\<lambda>it. it \<noteq> timer) TimersHead)"

text \<open>
  A timer of the application: \<open>fire f p s\<close> is what a call of the function \<open>f\<close> with the
  parameter \<open>p\<close> does to the kernel.
\<close>

type_synonym callback = "u16 \<Rightarrow> u16 \<Rightarrow> kernel \<Rightarrow> kernel option"

partial_function (option) osTimerTick :: "callback \<Rightarrow> u16 \<Rightarrow> kernel \<Rightarrow> kernel option" where
  "osTimerTick fire ticks s =
     (case osTimers s of
        None \<Rightarrow> Some s
      | Some timer \<Rightarrow>
          if tm_when (timers s timer) = ticks then
            let s = s\<lparr>osTimers := tm_next (timers s timer)\<rparr> in
            Option.bind
              (if tm_period (timers s timer) \<noteq> 0
               then osTimerInsert timer ticks (tm_period (timers s timer)) s else Some s)
              (\<lambda>s. Option.bind (fire (tm_function (timers s timer)) (tm_param (timers s timer)) s)
                 (osTimerTick fire ticks))
          else Some s)"


section \<open>The list of timers\<close>

lemma xrd_xwr: "xrd (xwr c v s) = (xrd s)(c := v)"
proof
  show "xrd (xwr c v s) d = ((xrd s)(c := v)) d" for d by (cases c; cases d) auto
qed

interpretation soft: linked_cells xrd xwr TimersNext
  by unfold_locales (simp_all add: xrd_xwr)

definition timer_chain :: "addr list \<Rightarrow> kernel \<Rightarrow> bool" where
  "timer_chain X s \<longleftrightarrow> chain (xrd s) TimersNext TimersHead X"

text \<open>How many ticks after \<open>now\<close> a timer expires; the timers are in this order.\<close>

definition expires :: "u16 \<Rightarrow> kernel \<Rightarrow> addr \<Rightarrow> u16" where
  "expires now s t = tm_when (timers s t) - now"

definition timers_sorted :: "u16 \<Rightarrow> addr list \<Rightarrow> kernel \<Rightarrow> bool" where
  "timers_sorted now X s \<longleftrightarrow> sorted_wrt (\<lambda>x y. expires now s x \<le> expires now s y) X"

text \<open>Nothing has changed but timers; \<open>w\<close> are the new times, links aside.\<close>

definition timers_only :: "(addr \<Rightarrow> u16) \<Rightarrow> kernel \<Rightarrow> kernel \<Rightarrow> bool" where
  "timers_only w s s' \<longleftrightarrow>
     s\<lparr>timers := timers s', osTimers := osTimers s'\<rparr> = s' \<and>
     (\<forall>x. tm_when (timers s' x) = w x \<and> tm_period (timers s' x) = tm_period (timers s x) \<and>
        tm_function (timers s' x) = tm_function (timers s x) \<and> tm_param (timers s' x) = tm_param (timers s x))"

abbreviation same_times :: "kernel \<Rightarrow> addr \<Rightarrow> u16" where
  "same_times s x \<equiv> tm_when (timers s x)"

lemma timers_only_refl: "timers_only (same_times s) s s"
  by (simp add: timers_only_def)

lemma timers_only_trans: "timers_only w s s' \<Longrightarrow> timers_only w' s' s'' \<Longrightarrow> timers_only w' s s''"
  by (cases s; cases s'; cases s'') (auto simp: timers_only_def)

lemma timers_only_xwr: "timers_only (same_times s) s (xwr c v s)"
  by (cases c) (auto simp: timers_only_def timer_upd_def)

lemma timers_onlyD:
  assumes "timers_only w s s'"
  shows "tm_when (timers s' x) = w x" "tm_period (timers s' x) = tm_period (timers s x)"
    "tm_function (timers s' x) = tm_function (timers s x)" "tm_param (timers s' x) = tm_param (timers s x)"
    "ram s' = ram s" "osTicks s' = osTicks s" "tasks s' = tasks s"
  using assms by (cases s; cases s'; auto simp: timers_only_def)+

lemma xrd_cong:
  "osTimers s' = osTimers s \<Longrightarrow> (\<And>t. tm_next (timers s' t) = tm_next (timers s t)) \<Longrightarrow> xrd s' = xrd s"
proof
  assume "osTimers s' = osTimers s" "\<And>t. tm_next (timers s' t) = tm_next (timers s t)"
  then show "xrd s' c = xrd s c" for c by (cases c) auto
qed

lemma TimersHead_not_Next [simp]: "TimersHead \<notin> range TimersNext"
  by auto

lemma osTimerRemove_spec:
  assumes X: "timer_chain X s"
  shows "returns (osTimerRemove t s)
    (\<lambda>(b, s'). b = (t \<in> set X) \<and> timer_chain (remove1 t X) s' \<and> timers_only (same_times s) s s')"
proof -
  have ch: "chain (xrd s) TimersNext TimersHead X" using X by (simp add: timer_chain_def)
  note walk = walk_chain [OF ch, of "\<lambda>x. x \<noteq> t"]
  show ?thesis
  proof (cases "t \<in> set X")
    case False
    then have "osTimerRemove t s = Some (False, s)"
      by (simp add: osTimerRemove_def walk dropWhile_not_found)
    with False X show ?thesis by (simp add: remove1_idem timers_only_refl)
  next
    case True
    define pre post where "pre = takeWhile (\<lambda>x. x \<noteq> t) X" and "post = tl (dropWhile (\<lambda>x. x \<noteq> t) X)"
    define s2 where "s2 = xwr (cell_after TimersNext TimersHead pre) (xrd s (TimersNext t)) s"
    have split: "pre @ t # post = X" "remove1 t X = pre @ post"
      using remove1_split [OF True] by (simp_all add: pre_def post_def)
    have run: "osTimerRemove t s = Some (True, s2)"
      by (simp add: osTimerRemove_def walk dropWhile_found [OF True] s2_def pre_def)
    have "timer_chain (remove1 t X) s2"
      unfolding timer_chain_def s2_def split(2) using ch by (intro soft.splice_out) (simp_all add: split)
    then show ?thesis using True timers_only_xwr [of s] by (simp add: run s2_def)
  qed
qed

lemma osTimerInsert_spec:
  assumes X: "timer_chain X s" and t: "t \<notin> set X"
  shows "returns (osTimerInsert t now delay s)
    (\<lambda>s'. timer_chain (tins (expires now s) delay t X) s' \<and>
       timers_only ((same_times s)(t := now + delay)) s s')"
proof -
  define stay where "stay = (\<lambda>x. expires now s x \<le> delay)"
  define pre post where "pre = takeWhile stay X" and "post = dropWhile stay X"
  define s0 where "s0 = timer_upd t (tm_when_update (\<lambda>_. now + delay)) s"
  define s2 where "s2 = xwr (cell_after TimersNext TimersHead pre) (Some t) (xwr (TimersNext t) (first post) s0)"
  have split: "pre @ post = X" by (simp add: pre_def post_def)
  have ch: "chain (xrd s) TimersNext TimersHead X" using X by (simp add: timer_chain_def)
  have run: "osTimerInsert t now delay s = Some s2"
    using walk_chain [OF ch, of stay] by (simp add: osTimerInsert_def stay_def expires_def s2_def s0_def pre_def post_def)
  have "xrd s0 c = xrd s c" for c by (cases c) (simp_all add: s0_def)
  then have "xrd s0 = xrd s" by (rule ext)
  then have "chain (xrd s2) TimersNext TimersHead (pre @ t # post)"
    unfolding s2_def using ch t by (intro soft.splice_in) (simp_all add: split)
  moreover have "timers_only ((same_times s)(t := now + delay)) s s0"
    by (auto simp: timers_only_def s0_def timer_upd_def)
  then have "timers_only ((same_times s)(t := now + delay)) s s2"
    unfolding s2_def using timers_only_trans timers_only_xwr
    by (metis (no_types, lifting) ext timers_onlyD(1))
  ultimately show ?thesis by (simp add: run timer_chain_def tins_def pre_def post_def stay_def)
qed


section \<open>Starting and stopping\<close>

lemma xrd_timer_upd [simp]: "(\<And>k. tm_next (f k) = tm_next k) \<Longrightarrow> xrd (timer_upd t f s) = xrd s"
proof
  assume "\<And>k. tm_next (f k) = tm_next k"
  then show "xrd (timer_upd t f s) c = xrd s c" for c by (cases c) auto
qed

lemma timer_chain_distinct: "timer_chain X s \<Longrightarrow> distinct X"
  by (auto simp: timer_chain_def dest: chain_distinct)

lemma tins_cong: "(\<And>x. x \<in> set X \<Longrightarrow> l' x = l x) \<Longrightarrow> tins l' n t X = tins l n t X"
  unfolding tins_def by (auto cong: takeWhile_cong dropWhile_cong)

text \<open>The list after an insertion is in order.\<close>

lemma insert_sorted:
  assumes srt: "timers_sorted now X s" and t: "t \<notin> set X"
    and w: "timers_only ((same_times s)(t := now + delay)) s s'"
  shows "timers_sorted now (tins (expires now s) delay t X) s'"
proof -
  have e: "expires now s' x = (if x = t then delay else expires now s x)" for x
    by (simp add: expires_def timers_onlyD [OF w])
  have "sorted_wrt (\<lambda>x y. expires now s' x \<le> expires now s' y) X"
    using srt unfolding timers_sorted_def
    by (rule sorted_wrt_mono_rel [rotated]) (use t in \<open>auto simp: e\<close>)
  then have "sorted_wrt (\<lambda>x y. expires now s' x \<le> expires now s' y) (tins (expires now s') delay t X)"
    by (rule sorted_tins) (use t in \<open>simp_all add: e\<close>)
  moreover have "tins (expires now s') delay t X = tins (expires now s) delay t X"
    by (rule tins_cong) (use t in \<open>auto simp: e\<close>)
  ultimately show ?thesis by (simp add: timers_sorted_def)
qed

lemma sorted_removed: "timers_sorted now X s \<Longrightarrow> timers_sorted now (remove1 t X) s"
  by (simp add: timers_sorted_def sorted_wrt_remove1)

lemma timers_sorted_same:
  "timers_only (same_times s) s s' \<Longrightarrow> timers_sorted now X s' = timers_sorted now X s"
  by (simp add: timers_sorted_def expires_def timers_onlyD)

definition started :: "addr \<Rightarrow> u16 \<Rightarrow> u16 \<Rightarrow> u16 \<Rightarrow> u16 \<Rightarrow> kernel \<Rightarrow> kernel \<Rightarrow> bool" where
  "started t delay period fn param s s' \<longleftrightarrow>
     tm_when (timers s' t) = osTicks s + delay \<and> tm_period (timers s' t) = period \<and>
     tm_function (timers s' t) = fn \<and> tm_param (timers s' t) = param \<and>
     (\<forall>x. x \<noteq> t \<longrightarrow> tm_when (timers s' x) = tm_when (timers s x) \<and> tm_period (timers s' x) = tm_period (timers s x) \<and>
        tm_function (timers s' x) = tm_function (timers s x) \<and> tm_param (timers s' x) = tm_param (timers s x)) \<and>
     s\<lparr>timers := timers s', osTimers := osTimers s'\<rparr> = s'"

lemma osTimerStart_spec:
  assumes X: "timer_chain X s" and srt: "timers_sorted (osTicks s) X s"
    and d: "d = (if delay = 0 then 1 else delay)"
  shows "returns (osTimerStart t delay period fn param s)
    (\<lambda>s'. timer_chain (tins (expires (osTicks s) s) d t (remove1 t X)) s' \<and>
       timers_sorted (osTicks s) (tins (expires (osTicks s) s) d t (remove1 t X)) s' \<and>
       started t d period fn param s s')"
proof -
  define set3 where "set3 = (\<lambda>s. timer_upd t (tm_param_update (\<lambda>_. param))
    (timer_upd t (tm_function_update (\<lambda>_. fn)) (timer_upd t (tm_period_update (\<lambda>_. period)) s)))"
  have run: "osTimerStart t delay period fn param s = Option.bind (osTimerRemove t s)
      (\<lambda>(_, s). osTimerInsert t (osTicks (set3 s)) d (set3 s))"
    by (simp add: osTimerStart_def d set3_def osTickCount_def Let_def)
  have notin: "t \<notin> set (remove1 t X)" using timer_chain_distinct [OF X] by simp
  show ?thesis
    unfolding run returns_bind
  proof (rule returns_mono [OF osTimerRemove_spec [OF X, of t]], clarsimp)
    fix s1 assume s1: "timer_chain (remove1 t X) s1" "timers_only (same_times s) s s1"
    note e = timers_onlyD [OF s1(2)]
    have w: "tm_when (timers (set3 s1) x) = tm_when (timers s x)" for x by (simp add: set3_def e)
    have ex: "expires n (set3 s1) = expires n s" for n by (simp add: expires_def w fun_eq_iff)
    have ch: "timer_chain (remove1 t X) (set3 s1)" using s1(1) by (simp add: timer_chain_def set3_def)
    have ticks: "osTicks (set3 s1) = osTicks s" by (simp add: set3_def e)
    have s3: "timers_sorted (osTicks s) (remove1 t X) (set3 s1)"
      using sorted_removed [OF srt] by (simp add: timers_sorted_def ex)
    have "started t d period fn param s s'"
      if "timers_only ((same_times (set3 s1))(t := osTicks s + d)) (set3 s1) s'" for s'
      using that s1(2) by (cases s; cases s1; cases s') (auto simp: started_def timers_only_def set3_def timer_upd_def)
    then show "returns (osTimerInsert t (osTicks (set3 s1)) d (set3 s1))
      (\<lambda>s'. timer_chain (tins (expires (osTicks s) s) d t (remove1 t X)) s' \<and>
        timers_sorted (osTicks s) (tins (expires (osTicks s) s) d t (remove1 t X)) s' \<and>
        started t d period fn param s s')"
      using osTimerInsert_spec [OF ch notin, of "osTicks s" d] insert_sorted [OF s3 notin, of d]
      by (auto simp: ticks ex elim!: returns_mono)
  qed
qed

lemma osTimerStop_spec:
  assumes "timer_chain X s" and "timers_sorted now X s"
  shows "returns (osTimerStop t s) (\<lambda>s'. timer_chain (remove1 t X) s' \<and>
    timers_sorted now (remove1 t X) s' \<and> timers_only (same_times s) s s')"
  using osTimerRemove_spec [OF assms(1), of t] sorted_removed [OF assms(2)]
  by (auto simp: osTimerStop_def returns_iff timers_sorted_same)

lemma osTimerActive_spec:
  assumes "timer_chain X s"
  shows "osTimerActive t s = Some (t \<in> set X)"
proof -
  have ch: "chain (xrd s) TimersNext TimersHead X" using assms by (simp add: timer_chain_def)
  show ?thesis
    using walk_chain [OF ch, of "\<lambda>x. x \<noteq> t"] dropWhile_found [of t X] dropWhile_not_found [of t X]
    by (cases "t \<in> set X") (simp_all add: osTimerActive_def)
qed

end
