(* ===== verification/Tick.thy ===== *)
theory Tick
  imports Soft_Timers Rest
begin

text \<open>
  \<open>osTickHandler\<close> of \<^verbatim>\<open>system/scheduler.c\<close>, called by the interrupt of the tick: it ends
  the waits whose time is up, fires the software timers, makes the tasks that cannot get the
  processor more important, and lets tasks of the same priority take turns.
\<close>

partial_function (option) osTimeouts :: "u16 \<Rightarrow> kernel \<Rightarrow> kernel option" where
  "osTimeouts ticks s =
     (case osTimerList s of
        None \<Rightarrow> Some s
      | Some task \<Rightarrow>
          if wake (tasks s task) = ticks then Option.bind (osWake task 0 s) (osTimeouts ticks)
          else Some s)"

text \<open>\<open>task->priority + OS_CFG_ROUND_ROBIN\<close> is an \<open>int\<close> in C, it does not wrap around.\<close>

definition ages :: "u8 \<Rightarrow> u8 \<Rightarrow> bool" where
  "ages prio p \<longleftrightarrow> p \<noteq> 0 \<and> p < OS_CFG_AGING_LIMIT \<and> unat p + unat OS_CFG_ROUND_ROBIN \<le> unat prio"

partial_function (option) osAging_loop :: "u8 \<Rightarrow> addr option \<Rightarrow> kernel \<Rightarrow> kernel option" where
  "osAging_loop prio task s =
     (case task of
        None \<Rightarrow> Some s
      | Some t \<Rightarrow>
          let s = (if ages prio (priority (tasks s t))
                   then set_priority t (priority (tasks s t) + 1) s else s)
          in osAging_loop prio (tnext (tasks s t)) s)"

definition osTickHandler :: "callback \<Rightarrow> kernel \<Rightarrow> res" where
  "osTickHandler fire s = do {
     let s = s\<lparr>osTicks := osTicks s + 1\<rparr>;
     let ticks = osTicks s;
     s \<leftarrow> osTimeouts ticks s;
     s \<leftarrow> (case osTimers s of
             None \<Rightarrow> Some s
           | Some timer \<Rightarrow>
               if tm_when (timers s timer) = ticks then osTimerTick fire ticks s else Some s);
     s \<leftarrow> osSettle (osCurrentTask s) s;
     let s = s\<lparr>osAging := osAging s - 1\<rparr>;
     s \<leftarrow> (if osAging s = 0
           then osAging_loop (priority (tasks s (osCurrentTask s))) (osReadyList s)
                  (s\<lparr>osAging := OS_CFG_AGING_TICKS\<rparr>)
           else Some s);
     if osScheduleNeeded OS_CFG_ROUND_ROBIN s then osSchedule OS_CFG_ROUND_ROBIN s
     else Some (Returned VVoid, s)
   }"

text \<open>The interrupt itself; the task it interrupts has nothing left to do in the kernel.\<close>

definition tick_interrupt :: "callback \<Rightarrow> kernel \<Rightarrow> res" where
  "tick_interrupt fire s =
     leave (osCurrentTask s) (KReturn VVoid) (\<lambda>_ s. Some (Returned VVoid, s)) (osTickHandler fire s)"


section \<open>The next tick\<close>

definition ticked :: "kernel \<Rightarrow> kernel" where
  "ticked s = s\<lparr>osTicks := osTicks s + 1\<rparr>"

lemma ticked_simps [simp]:
  "tasks (ticked s) = tasks s" "mutexes (ticked s) = mutexes s" "semaphores (ticked s) = semaphores s"
  "queues (ticked s) = queues s" "events (ticked s) = events s" "timers (ticked s) = timers s"
  "ram (ticked s) = ram s" "osIdleTask (ticked s) = osIdleTask s" "osCurrentTask (ticked s) = osCurrentTask s"
  "osTimers (ticked s) = osTimers s" "osTicks (ticked s) = osTicks s + 1" "cont (ticked s) = cont s"
  "osAging (ticked s) = osAging s"
  "rd (ticked s) = rd s" "trd (ticked s) = trd s" "ord (ticked s) = ord s" "xrd (ticked s) = xrd s"
  by (auto simp: ticked_def intro!: rd_cong trd_cong ord_cong xrd_cong)

lemma left_ticked: "left (ticked s) t = left s t - 1"
  by (simp add: left_def)

lemma minus_one_mono: "a \<le> b \<Longrightarrow> a \<noteq> 0 \<Longrightarrow> b \<noteq> 0 \<Longrightarrow> a - 1 \<le> b - (1 :: u16)"
  by (simp add: word_le_nat_alt unat_minus_one)

lemma ticked_inv:
  assumes "kernel_inv L TL OL A s"
  shows "repr L TL (ticked s)" and "data_inv {} L TL OL A (ticked s)" and "running {osCurrentTask s} A (ticked s)"
proof -
  have R: "repr L TL s" and inv: "data_inv {} L TL OL A s" and nd: "not_due TL s"
    and run: "running {osCurrentTask s} A s" using assms by (simp_all add: kernel_inv_def)
  have "repr L TL (ticked s) = repr L TL s" by (rule repr_cong) simp_all
  then show "repr L TL (ticked s)" using R by simp
  show "running {osCurrentTask s} A (ticked s)" using run by (simp add: running_def)
  have "sorted_wrt (by_time s) TL" using inv by (simp add: data_inv_def timed_sorted_def)
  then have "sorted_wrt (by_time (ticked s)) TL"
    by (rule sorted_wrt_mono_rel [rotated])
      (use nd in \<open>auto simp: by_time_def left_ticked not_due_def intro: minus_one_mono\<close>)
  moreover have "by_priority (ticked s) = by_priority s" "task_placed L TL (ticked s) = task_placed L TL s"
    by (simp_all add: by_priority_def task_placed_def fun_eq_iff)
  ultimately show "data_inv {} L TL OL A (ticked s)"
    using inv by (simp add: data_inv_def placed_def prio_sorted_def timed_sorted_def owners_def
        no_inversion_def bounded_def idle_ok_def canaries_def)
qed


section \<open>Timeouts\<close>

text \<open>The wait of the tasks \<open>D\<close> is over because their time is up.\<close>

definition timed_out :: "addr set \<Rightarrow> kernel \<Rightarrow> kernel" where
  "timed_out D s = s\<lparr>tasks := \<lambda>t.
     if t \<in> D then (tasks s t)\<lparr>result := 0, waitList := None, state := OS_TASK_READY\<rparr> else tasks s t\<rparr>"

lemma timed_out_empty [simp]: "timed_out {} s = s"
  by (simp add: timed_out_def)

lemma timed_out_insert:
  assumes "data_eq (woken t 0 s) s1" and "data_eq (timed_out D s1) s2"
  shows "data_eq (timed_out (insert t D) s) s2"
proof -
  have "data_eq (timed_out D (woken t 0 s)) (timed_out D s1)"
    using assms(1) by (simp add: data_eq_def timed_out_def)
  moreover have "data_eq (timed_out (insert t D) s) (timed_out D (woken t 0 s))"
    by (simp add: data_eq_def timed_out_def woken_def)
  ultimately show ?thesis using assms(2) data_eq_trans by blast
qed

definition due :: "u16 \<Rightarrow> kernel \<Rightarrow> addr \<Rightarrow> bool" where
  "due ticks s t \<longleftrightarrow> wake (tasks s t) = ticks"

lemma osTimeouts_inv:
  assumes "repr L TL s" and "data_inv {} L TL OL A s" and "running {osCurrentTask s} A s"
  shows "returns (osTimeouts ticks s)
    (\<lambda>s'. \<exists>L'. repr L' (dropWhile (due ticks s) TL) s' \<and>
       data_inv {} L' (dropWhile (due ticks s) TL) OL A s' \<and> running {osCurrentTask s} A s' \<and>
       data_eq (timed_out (set (takeWhile (due ticks s) TL)) s) s')"
  using assms
proof (induction TL arbitrary: L s)
  case Nil
  then have "osTimerList s = None" by (auto simp: repr_def timer_list_def)
  then show ?case using Nil by (subst osTimeouts.simps) auto
next
  case (Cons t TL)
  note R = Cons.prems(1) and inv = Cons.prems(2) and run = Cons.prems(3)
  from R have head: "osTimerList s = Some t" by (auto simp: repr_def timer_list_def)
  show ?case
  proof (cases "due ticks s t")
    case False
    then show ?thesis using head Cons.prems by (subst osTimeouts.simps) (auto simp: due_def)
  next
    case True
    have t: "t \<in> A" and pl: "task_placed L (t # TL) s t"
      using inv by (auto simp: data_inv_def placed_def)
    have timed: "state (tasks s t) AND OS_TASK_TIMED \<noteq> 0" using pl by (simp add: task_placed_def)
    then have st: "state (tasks s t) \<noteq> OS_TASK_READY" "state (tasks s t) \<noteq> OS_TASK_DEAD"
      "state (tasks s t) \<noteq> OS_TASK_RUNNING" by auto
    have un: "untimed s t (t # TL) = TL" using timed by (simp add: untimed_def)
    let ?L = "made_ready s t (unwaited s t L)"
    have step: "returns (osTimeouts ticks s1) (\<lambda>s'. \<exists>L'. repr L' (dropWhile (due ticks s) TL) s' \<and>
       data_inv {} L' (dropWhile (due ticks s) TL) OL A s' \<and> running {osCurrentTask s} A s' \<and>
       data_eq (timed_out (insert t (set (takeWhile (due ticks s) TL))) s) s')"
      if s1: "repr ?L TL s1" "data_inv {} ?L TL OL A s1" "data_eq (woken t 0 s) s1" for s1
    proof -
      note d = data_eqD [OF s1(3)]
      have run1: "running {osCurrentTask s1} A s1"
        using run st(3) t by (auto simp: running_def d)
      have eq: "due ticks s1 = due ticks s" "osCurrentTask s1 = osCurrentTask s"
        by (simp_all add: due_def fun_eq_iff d woken_def)
      show ?thesis
        using Cons.IH [OF s1(1,2) run1] timed_out_insert [OF s1(3)] unfolding eq
        by (auto elim!: returns_mono)
    qed
    show ?thesis
      using osWake_inv [OF R inv t _ st(1,2), of 0] head True step
      by (subst osTimeouts.simps) (auto simp: due_def un returns_bind elim!: returns_mono)
  qed
qed

text \<open>What is due is at the front of the list.\<close>

lemma front_zero:
  assumes "sorted_wrt (\<lambda>x y. f x \<le> f y) xs"
  shows "takeWhile (\<lambda>x. f x = (0 :: u16)) xs = filter (\<lambda>x. f x = 0) xs"
    and "dropWhile (\<lambda>x. f x = 0) xs = filter (\<lambda>x. f x \<noteq> 0) xs"
  using assms
proof (induction xs)
  case (Cons x xs)
  {
    case 1
    then show ?case using Cons.IH by (auto simp: word_gt_0 [symmetric] intro!: filter_False [symmetric] dest: order.strict_trans2)
  next
    case 2
    then show ?case using Cons.IH by (auto simp: word_gt_0 [symmetric] intro!: filter_True [symmetric] dest: order.strict_trans2)
  }
qed simp_all

lemma due_left: "due (osTicks s) s = (\<lambda>t. left s t = 0)"
  by (simp add: due_def left_def fun_eq_iff)

text \<open>The tasks whose time is up with the next tick.\<close>

definition up_next :: "addr set \<Rightarrow> kernel \<Rightarrow> addr set" where
  "up_next A s = {t \<in> A. state (tasks s t) AND OS_TASK_TIMED \<noteq> 0 \<and> wake (tasks s t) = osTicks s + 1}"

lemma timed_out_calm: "data_eq (timed_out D s) s' \<Longrightarrow> calm s s'"
  by (rule calm_data_eq) (auto simp: timed_out_def calm_but_def)

lemma calm_ticked: "calm s (ticked s)"
  by (simp add: calm_but_def)

lemma osTimeouts_rest:
  assumes r: "rest A s" and ok: "objects_ok A s"
  shows "returns (osTimeouts (osTicks s + 1) (ticked s))
    (\<lambda>s'. rest A s' \<and> objects_ok A s' \<and> data_eq (timed_out (up_next A s) (ticked s)) s')"
proof -
  from r obtain L TL OL where K: "kernel_inv L TL OL A s" by (auto simp: rest_def)
  define T where "T = ticked s"
  note R = ticked_inv [OF K, folded T_def]
  have srt: "sorted_wrt (\<lambda>x y. left T x \<le> left T y) TL" and pl: "placed {} L TL A T"
    using R(2) by (simp_all add: data_inv_def timed_sorted_def by_time_def [abs_def])
  have ticks: "osTicks T = osTicks s + 1" by (simp add: T_def)
  note front = front_zero [OF srt, folded due_left, unfolded ticks]
  have TL: "t \<in> set TL \<longleftrightarrow> t \<in> A \<and> state (tasks T t) AND OS_TASK_TIMED \<noteq> 0" for t
    using pl unfolding placed_def task_placed_def by blast
  have D: "set (takeWhile (due (osTicks s + 1) T) TL) = up_next A s"
    unfolding front(1) by (auto simp: TL due_def up_next_def) (simp_all add: T_def)
  have cur: "osCurrentTask T = osCurrentTask s" by (simp add: T_def)
  have good: "rest A s' \<and> objects_ok A s'"
    if s': "repr L' (dropWhile (due (osTicks s + 1) T) TL) s'"
      "data_inv {} L' (dropWhile (due (osTicks s + 1) T) TL) OL A s'" "running {osCurrentTask s} A s'"
      "data_eq (timed_out (up_next A s) T) s'" for s' L'
  proof -
    note d = data_eqD [OF s'(4)]
    have e: "osCurrentTask s' = osCurrentTask s" "cont s' = cont s" by (simp_all add: d timed_out_def T_def)
    have "left s' = left T" by (simp add: left_def fun_eq_iff d timed_out_def)
    then have "not_due (dropWhile (due (osTicks s + 1) T) TL) s'"
      unfolding front(2) not_due_def by (simp add: due_def left_def ticks)
    then have "kernel_inv L' (dropWhile (due (osTicks s + 1) T) TL) OL A s'"
      using s' by (simp add: kernel_inv_def e)
    then have "rest A s'" using r by (auto simp: rest_def e)
    moreover have "calm s s'"
      using timed_out_calm [OF s'(4)] calm_ticked [of s] calm_calm unfolding T_def by blast
    ultimately show ?thesis using objects_ok_calm [OF ok] by blast
  qed
  show ?thesis
    using osTimeouts_inv [OF R(1,2), of "osTicks s + 1"] R(3) good
    unfolding cur T_def [symmetric] D by (auto elim!: returns_mono)
qed


section \<open>Aging\<close>

definition older :: "u8 \<Rightarrow> u8 \<Rightarrow> u8" where
  "older prio p = (if ages prio p then p + 1 else p)"

lemma ages_unat: "ages prio p \<Longrightarrow> unat (p + 1) = unat p + 1"
  by (simp add: ages_def word_less_nat_alt unat_add_lem [THEN iffD1])

lemma older_bounds: "p \<le> older prio p" "p \<le> OS_PRIORITY_MAX \<Longrightarrow> older prio p \<le> OS_PRIORITY_MAX"
  using ages_unat [of prio p] by (auto simp: older_def word_le_nat_alt ages_def word_less_nat_alt)

text \<open>Aging keeps the order: nobody overtakes anybody.\<close>

lemma older_mono: "p \<le> q \<Longrightarrow> older prio p \<le> older prio q"
  using ages_unat [of prio p] ages_unat [of prio q]
  by (auto simp: older_def word_le_nat_alt ages_def word_less_nat_alt unat_eq_0)

text \<open>The tasks \<open>R\<close> get older.\<close>

definition aged :: "u8 \<Rightarrow> addr set \<Rightarrow> kernel \<Rightarrow> kernel" where
  "aged prio R s =
     with_priorities (\<lambda>t. if t \<in> R then older prio (priority (tasks s t)) else priority (tasks s t)) s"

lemma priority_same [simp]: "k\<lparr>priority := priority k\<rparr> = k"
  by (cases k) simp

lemma aged_empty [simp]: "aged prio {} s = s"
  by (simp add: aged_def with_priorities_def)

lemma aged_insert:
  "t \<notin> R \<Longrightarrow> aged prio R (set_priority t (older prio (priority (tasks s t))) s) = aged prio (insert t R) s"
  by (auto simp: aged_def with_priorities_def task_upd_def fun_eq_iff)

lemma osAging_loop_spec:
  "chain (rd s) Next c xs \<Longrightarrow> distinct xs \<Longrightarrow> osAging_loop prio (rd s c) s = Some (aged prio (set xs) s)"
proof (induction xs arbitrary: c s)
  case Nil
  then show ?case by (subst osAging_loop.simps) simp
next
  case (Cons t xs)
  define s1 where "s1 = set_priority t (older prio (priority (tasks s t))) s"
  have rd: "rd s1 = rd s" by (simp add: s1_def)
  have one: "(if ages prio (priority (tasks s t)) then set_priority t (priority (tasks s t) + 1) s else s) = s1"
    by (simp add: s1_def older_def task_upd_def)
  have "osAging_loop prio (rd s1 (Next t)) s1 = Some (aged prio (set xs) s1)"
    using Cons by (intro Cons.IH) (simp_all add: rd)
  then show ?case
    using Cons.prems by (subst osAging_loop.simps) (simp add: one aged_insert s1_def)
qed

lemma aged_data_inv:
  assumes R: "repr L TL s" and inv: "data_inv {} L TL OL A s" and S: "S = set (L ReadyHead)"
  shows "data_inv {} L TL OL A (aged prio S s)"
proof -
  define f where "f = (\<lambda>t. if t \<in> S then older prio (priority (tasks s t)) else priority (tasks s t))"
  have aged: "aged prio S s = with_priorities f s" by (simp add: aged_def f_def)
  have lo: "priority (tasks s t) \<le> f t" for t by (simp add: f_def older_bounds)
  have other: "f x = priority (tasks s x)" if "x \<in> set (L h)" "h \<noteq> ReadyHead" for x h
    using R that by (auto simp: f_def S repr_def lists_def)
  have "sorted_wrt (by_priority (with_priorities f s)) (L h)" if "h \<noteq> DeadHead" for h
  proof -
    have "sorted_wrt (by_priority s) (L h)" using inv that by (simp add: data_inv_def prio_sorted_def)
    then show ?thesis
      by (rule sorted_wrt_mono_rel [rotated])
        (cases "h = ReadyHead"; auto simp: by_priority_def other; simp add: f_def S older_mono)
  qed
  then have "prio_sorted L (with_priorities f s)" by (simp add: prio_sorted_def)
  moreover have "no_inversion L (with_priorities f s)"
    unfolding no_inversion_def
  proof (intro allI impI)
    fix m t w
    assume "owner (mutexes (with_priorities f s) m) = Some t" and w: "w \<in> set (L (MutexHead m))"
    then have "priority (tasks s w) \<le> priority (tasks s t)" using inv by (auto simp: data_inv_def no_inversion_def)
    then have "f w \<le> f t" using other [OF w] lo [of t] by auto
    then show "priority (tasks (with_priorities f s) w) \<le> priority (tasks (with_priorities f s) t)" by simp
  qed
  moreover have "bounded A (with_priorities f s)"
    using inv order_trans [OF _ lo] by (simp add: data_inv_def bounded_def) (simp add: f_def older_bounds)
  moreover have "ord (with_priorities f s) = ord s" by (rule ord_cong) simp_all
  moreover have "left (with_priorities f s) = left s" "task_placed L TL (with_priorities f s) = task_placed L TL s"
    by (simp_all add: left_def task_placed_def fun_eq_iff)
  moreover from this have "by_time (with_priorities f s) = by_time s" by (simp add: by_time_def fun_eq_iff)
  ultimately show ?thesis
    using inv unfolding aged
    by (simp add: data_inv_def placed_def timed_sorted_def owners_def idle_ok_def canaries_def)
qed

lemma osAging_loop_rest:
  fixes prio :: u8
  assumes r: "rest A s" and ok: "objects_ok A s"
  defines "s' \<equiv> aged prio {t \<in> A. state (tasks s t) = OS_TASK_READY} s"
  shows "osAging_loop prio (osReadyList s) s = Some s'" and "rest A s'" and "objects_ok A s'"
    and "osCurrentTask s' = osCurrentTask s"
proof -
  from r obtain L TL OL where K: "kernel_inv L TL OL A s" by (auto simp: rest_def)
  then have R: "repr L TL s" and inv: "data_inv {} L TL OL A s" by (simp_all add: kernel_inv_def)
  have "{t \<in> A. state (tasks s t) = OS_TASK_READY} = set (L ReadyHead)"
    using inv unfolding data_inv_def placed_def task_placed_def by blast
  then have s': "s' = aged prio (set (L ReadyHead)) s" by (simp add: s'_def)
  have ch: "chain (rd s) Next (Head ReadyHead) (L ReadyHead)" using R by (simp add: repr_def lists_def)
  show "osAging_loop prio (osReadyList s) s = Some s'"
    using osAging_loop_spec [OF ch chain_distinct [OF ch]] by (simp add: s')
  have inv': "data_inv {} L TL OL A s'" unfolding s' by (rule aged_data_inv [OF R inv refl])
  have R': "repr L TL s'"
    using R by (subst repr_cong [of _ s]) (auto simp: s' aged_def with_priorities_def intro!: rd_cong trd_cong)
  have d: "data_eq (with_priorities (\<lambda>x. priority (tasks s' x)) s) s'"
    by (simp add: s' aged_def with_priorities_def)
  have "kernel_inv L TL OL A s'"
    by (rule kernel_inv_priorities [OF _ _ R' inv' d]) (use K in \<open>simp_all add: kernel_inv_def\<close>)
  from rest_priorities [OF _ this d] r show "rest A s'" "osCurrentTask s' = osCurrentTask s"
    by (simp_all add: rest_def)
  have "calm s s'" using rest_priorities(2) [OF _ \<open>kernel_inv L TL OL A s'\<close> d] r by (simp add: rest_def)
  then show "objects_ok A s'" by (rule objects_ok_calm [OF ok])
qed

end
