(* ===== verification/Semaphores.thy ===== *)
theory Semaphores
  imports Memory
begin

text \<open>\<^verbatim>\<open>system/semaphore.c\<close>: counting semaphores with a limit.\<close>

definition osSemaphoreInit :: "addr \<Rightarrow> u8 \<Rightarrow> u8 \<Rightarrow> kernel \<Rightarrow> kernel" where
  "osSemaphoreInit semaphore count limit s =
     sem_upd semaphore (\<lambda>_. \<lparr>s_waiters = None, s_count = count, s_limit = limit\<rparr>) s"

definition osSemaphoreTake :: "addr \<Rightarrow> u16 \<Rightarrow> kernel \<Rightarrow> res" where
  "osSemaphoreTake semaphore timeout s =
     (if s_count (semaphores s semaphore) \<noteq> 0
      then Some (Returned (VBool True), sem_upd semaphore (s_count_update (\<lambda>n. n - 1)) s)
      else if timeout = OS_NO_WAIT
      then Some (Returned (VBool False), s)
      else leave (osCurrentTask s) KResult (\<lambda>v s. Some (Returned v, s))
             (osBlock (Some (SemHead semaphore)) timeout s))"

definition osSemaphoreGiveFromISR :: "addr \<Rightarrow> kernel \<Rightarrow> kernel option" where
  "osSemaphoreGiveFromISR semaphore s =
     (case s_waiters (semaphores s semaphore) of
        Some waiter \<Rightarrow> osWake waiter 1 s
      | None \<Rightarrow>
          if s_count (semaphores s semaphore) < s_limit (semaphores s semaphore)
          then Some (sem_upd semaphore (s_count_update (\<lambda>n. n + 1)) s)
          else Some s)"

definition osSemaphoreGive :: "addr \<Rightarrow> kernel \<Rightarrow> res" where
  "osSemaphoreGive semaphore s = do {
     s \<leftarrow> osSemaphoreGiveFromISR semaphore s;
     leave (osCurrentTask s) (KReturn VVoid) (\<lambda>_ s. Some (Returned VVoid, s)) (osSchedule 0 s)
   }"

definition osSemaphoreCount :: "addr \<Rightarrow> kernel \<Rightarrow> u8" where
  "osSemaphoreCount semaphore s = s_count (semaphores s semaphore)"

text \<open>\<open>sizeof(OsSemaphore)\<close> is 4.\<close>

definition osSemaphoreCreate ::
  "malloc \<Rightarrow> u8 \<Rightarrow> u8 \<Rightarrow> kernel \<Rightarrow> (addr option \<times> kernel) option" where
  "osSemaphoreCreate malloc count limit s = do {
     (semaphore, s) \<leftarrow> osMalloc malloc 4 s;
     case semaphore of
       None \<Rightarrow> Some (None, s)
     | Some a \<Rightarrow> Some (Some a, osSemaphoreInit a count limit s)
   }"

definition osSemaphoreDestroy :: "addr option \<Rightarrow> kernel \<Rightarrow> kernel option" where
  "osSemaphoreDestroy semaphore s = osFree semaphore s"


section \<open>The invariant of the kernel\<close>

lemma rd_sem_upd [simp]: "(\<And>k. s_waiters (f k) = s_waiters k) \<Longrightarrow> rd (sem_upd m f s) = rd s"
proof
  fix c assume "\<And>k. s_waiters (f k) = s_waiters k"
  then show "rd (sem_upd m f s) c = rd s c"
    by (cases "(s, c)" rule: rd.cases) auto
qed

lemma rest_sem_upd [simp]:
  "(\<And>k. s_waiters (f k) = s_waiters k) \<Longrightarrow> rest A (sem_upd m f s) = rest A s"
  by (rule rest_objects) simp_all

lemma objects_ok_count:
  assumes "objects_ok A s" and "f (semaphores s m) = (semaphores s m)\<lparr>s_count := n\<rparr>"
    and "n \<le> s_limit (semaphores s m)"
    and "n = 0 \<or> (\<forall>t \<in> A. waitList (tasks s t) \<noteq> Some (SemHead m))"
  shows "objects_ok A (sem_upd m f s)"
  using assms unfolding objects_ok_def by auto

lemma osSemaphoreTake_rest:
  assumes r: "rest A s" and ok: "objects_ok A s" and c: "c = osCurrentTask s"
  shows "returns (osSemaphoreTake m timeout s)
    (\<lambda>(r, s'). rest A s' \<and> objects_ok A s' \<and>
      (if s_count (semaphores s m) \<noteq> 0
       then r = Returned (VBool True) \<and> s' = sem_upd m (s_count_update (\<lambda>n. n - 1)) s
       else if timeout = OS_NO_WAIT \<or> c = osIdleTask s
       then r = Returned (VBool False) \<and> s' = s
       else r = Switched \<and> blocked c (Some (SemHead m)) timeout s s' \<and> top_runs A s'))"
proof (cases "s_count (semaphores s m) \<noteq> 0")
  case True
  have "s_count (semaphores s m) - 1 \<le> s_count (semaphores s m)"
    using True by (simp add: word_le_nat_alt unat_gt_0 unat_minus_one)
  also have "\<dots> \<le> s_limit (semaphores s m)" using ok by (simp add: objects_ok_def)
  finally have "objects_ok A (sem_upd m (s_count_update (\<lambda>n. n - 1)) s)"
    using True ok by (intro objects_ok_count [OF ok]) (auto simp: objects_ok_def)
  then show ?thesis using True r by (simp add: osSemaphoreTake_def)
next
  case empty: False
  show ?thesis
  proof (cases "timeout = OS_NO_WAIT")
    case True
    then show ?thesis using empty r ok by (simp add: osSemaphoreTake_def)
  next
    case False
    have "objects_ok A s'" if "blocked c (Some (SemHead m)) timeout s s'" for s'
      by (rule objects_ok_blocked [OF ok that]) (use empty in auto)
    then show ?thesis
      using empty False r ok c block_rest_simple [OF r c False, of "Some (SemHead m)" KResult]
      by (auto simp: osSemaphoreTake_def returns_leave blocked_def elim!: returns_mono split: if_splits)
  qed
qed

lemma osSemaphoreGiveFromISR_rest:
  assumes r: "rest A s" and ok: "objects_ok A s"
  shows "returns (osSemaphoreGiveFromISR m s)
    (\<lambda>s'. rest A s' \<and> objects_ok A s' \<and> osCurrentTask s' = osCurrentTask s \<and>
      (case s_waiters (semaphores s m) of
         Some w \<Rightarrow> data_eq (woken w 1 s) s'
       | None \<Rightarrow> s' = (if s_count (semaphores s m) < s_limit (semaphores s m)
           then sem_upd m (s_count_update (\<lambda>n. n + 1)) s else s)))"
proof (cases "s_waiters (semaphores s m)")
  case (Some w)
  then have "rd s (Head (SemHead m)) = Some w" by simp
  from sem.hand_over [OF r this, of 1] show ?thesis
    using Some objects_ok_wake [OF ok]
    by (auto simp: osSemaphoreGiveFromISR_def data_eqD elim!: returns_mono)
next
  case None
  then have "\<forall>t \<in> A. waitList (tasks s t) \<noteq> Some (SemHead m)"
    using sem.nobody [OF r, of m] by simp
  then have "objects_ok A (sem_upd m (s_count_update (\<lambda>n. n + 1)) s)"
    if "s_count (semaphores s m) < s_limit (semaphores s m)"
    using that by (intro objects_ok_count [OF ok, of _ m "s_count (semaphores s m) + 1"])
      (simp_all add: inc_le)
  then show ?thesis using None r ok by (simp add: osSemaphoreGiveFromISR_def)
qed

lemma osSemaphoreGive_rest:
  assumes r: "rest A s" and ok: "objects_ok A s"
  shows "returns (osSemaphoreGive m s)
    (\<lambda>(r, s'). rest A s' \<and> objects_ok A s' \<and> top_runs A s')"
  using osSemaphoreGiveFromISR_rest [OF r ok, of m] schedule_ok
  by (fastforce simp: osSemaphoreGive_def elim!: returns_mono)

end
