(* ===== verification/Frames.thy ===== *)
theory Frames
  imports Queues Events Tasks Semaphores Soft_Timers
begin

text \<open>
  What no call of the kernel touches: the software timers, the time, the buffers of the queues
  and the ends of the stacks; nor does anybody begin to wait for a queue but by calling it.
  \<open>holds\<close> is for code that returns, that it does is shown elsewhere.
\<close>

section \<open>Code that may not return\<close>

definition holds :: "'a option \<Rightarrow> ('a \<Rightarrow> bool) \<Rightarrow> bool" where
  "holds m P \<longleftrightarrow> (case m of None \<Rightarrow> True | Some x \<Rightarrow> P x)"

named_theorems untouched \<open>operations that leave these parts of the kernel aside\<close>

lemma holds_simps [simp]:
  "holds None P" "holds (Some x) P = P x"
  "holds (if b then m else n) P = (if b then holds m P else holds n P)"
  by (simp_all add: holds_def)

lemma holds_bind: "holds m P \<Longrightarrow> (\<And>x. P x \<Longrightarrow> holds (f x) Q) \<Longrightarrow> holds (Option.bind m f) Q"
  by (cases m) (simp_all add: holds_def)

lemma holds_any: "holds m (\<lambda>_. True)"
  by (cases m) simp_all

text \<open>What only looks at the kernel.\<close>

lemma holds_look [untouched]:
  "(\<And>x. holds (f x) Q) \<Longrightarrow> holds (Option.bind (osInheritedPriority t s) f) Q"
  "(\<And>x. holds (g x) Q) \<Longrightarrow> holds (Option.bind (walk look nx stay c) g) Q"
  by (rule holds_bind [OF holds_any], simp)+

lemma holds_Some: "holds m P \<Longrightarrow> m = Some x \<Longrightarrow> P x"
  by simp

lemma holds_returns: "returns m P \<Longrightarrow> holds m Q \<Longrightarrow> returns m (\<lambda>x. P x \<and> Q x)"
  by (cases m) (simp_all add: holds_def)

section \<open>The scheduler\<close>

text \<open>
  What is true of a kernel however the tasks are linked, and whatever their states (but for
  the timeout) and priorities are: the functions of the scheduler keep it, those that switch to
  another task if the current task does not matter either.
\<close>

locale relinking_frame =
  fixes ok :: "kernel \<Rightarrow> bool"
  assumes links: "ok s \<Longrightarrow> ok (wr c v s)" "ok s \<Longrightarrow> ok (twr d w s)"
    and members: "ok s \<Longrightarrow> x AND OS_TASK_TIMED = 0 \<Longrightarrow> ok (set_state t x s)" "ok s \<Longrightarrow> ok (set_priority t p s)" "ok s \<Longrightarrow> ok (set_wake t u s)"
begin

lemma link_members:
  assumes "ok s"
  shows "ok (set_tnext t v s)" and "ok (set_timerNext t w s)" and "ok (s\<lparr>osReadyList := v\<rparr>)"
  using links(1) [OF assms, of "Next t" v] links(2) [OF assms, of "TimerNext t" w]
    links(1) [OF assms, of "Head ReadyHead" v] by simp_all

lemma lists [untouched]:
  assumes "ok s"
  shows "holds (osListInsert l t k s) ok" and "holds (osListRemove l t s) ok"
    and "holds (osTimerListRemove t s) ok"
  using assms
  by (auto simp: osListInsert_def osListRemove_def osTimerListRemove_def Let_def
      intro!: untouched links members link_members split: option.split)

lemma osRequeue [untouched]: "ok s \<Longrightarrow> holds (osRequeue t s) ok"
  by (auto simp: osRequeue_def Let_def intro!: holds_bind untouched lists split: option.split)

lemma osPriorityRaise [untouched]: "ok s \<Longrightarrow> holds (osPriorityRaise t p s) ok"
proof -
  have "ok s \<longrightarrow> ok s'" if "osPriorityRaise t p s = Some s'" for s'
  proof (rule osPriorityRaise.raw_induct [OF _ that, where P = "\<lambda>_ _ s s'. ok s \<longrightarrow> ok s'"], goal_cases)
    case (1 rec t p s s')
    show ?case
    proof
      assume "ok s"
      then have "holds (osRequeue t (set_priority t p s)) ok" by (intro osRequeue members)
      then show "ok s'"
        using 1 \<open>ok s\<close>
        by (cases "Scheduler.osRequeue t (set_priority t p s)") (auto split: if_splits option.splits head.splits)
    qed
  qed
  then show "holds (osPriorityRaise t p s) ok" if "ok s"
    using that by (cases "Scheduler.osPriorityRaise t p s") simp_all
qed

lemma osSettle [untouched]: "ok s \<Longrightarrow> holds (osSettle t s) ok"
  by (auto simp: osSettle_def intro!: untouched members)

lemma osReady [untouched]: "ok s \<Longrightarrow> holds (osReady t s) ok"
  by (auto simp: osReady_def intro!: lists members)

end

locale scheduling_frame = relinking_frame +
  assumes next_task: "ok s \<Longrightarrow> ok (s\<lparr>osCurrentTask := t\<rparr>)"
begin

lemma osDispatch [untouched]: "ok s \<Longrightarrow> holds (osDispatch s) ok"
  by (auto simp: osDispatch_def Let_def intro!: next_task members link_members split: option.split)

lemma osSchedule: "ok s \<Longrightarrow> holds (osSchedule y s) (\<lambda>x. ok (snd x))"
  by (auto simp: osSchedule_def Let_def intro!: holds_bind [where P = ok] untouched members lists osSettle osDispatch)

text \<open>
  A task that begins to wait is one for which \<open>ok\<close> does not say what it waits for, and with
  which timeout.
\<close>

lemma osBlock:
  assumes "ok s" and "\<And>s1. ok s1 \<Longrightarrow> ok (set_waitList (osCurrentTask s) l s1)"
    and "\<And>s1 x. ok s1 \<Longrightarrow> ok (set_state (osCurrentTask s) x s1)"
  shows "holds (osBlock l d s) (\<lambda>x. ok (snd x))"
proof -
  have wait: "ok (set_waitList (osCurrentTask s) l' s1)" if "l = l'" "ok s1" for l' s1
    using assms(2) that by simp
  have timer: "holds (osTimerListInsert (osCurrentTask s) d s1) ok" if "ok s1" for s1
    using that by (auto simp: osTimerListInsert_def Let_def intro!: untouched assms(3) links members(2,3) link_members)
  have idle: "ok (set_state t 0 s)" for t using members(1) [OF assms(1)] by simp
  show ?thesis
    unfolding osBlock_def Let_def
    by (auto intro!: holds_bind [where P = ok] assms(1,3) wait timer idle lists(1) osSettle osDispatch split: option.split)
qed

end

section \<open>Left aside\<close>

text \<open>
  Buffers and stacks are where they were, and nobody but the tasks in \<open>X\<close> has begun to wait for a
  queue.
\<close>

definition in_place :: "addr set \<Rightarrow> kernel \<Rightarrow> kernel \<Rightarrow> bool" where
  "in_place X s s' \<longleftrightarrow>
     osIdleTask s' = osIdleTask s \<and>
     (\<forall>q. buffer (queues s' q) = buffer (queues s q) \<and> itemSize (queues s' q) = itemSize (queues s q) \<and>
        q_length (queues s' q) = q_length (queues s q)) \<and>
     (\<forall>t. stack (tasks s' t) = stack (tasks s t)) \<and>
     (\<forall>t q. t \<notin> X \<longrightarrow> waitList (tasks s' t) = Some (QueueHead q) \<longrightarrow>
        waitList (tasks s t) = Some (QueueHead q) \<and> wait (tasks s' t) = wait (tasks s t))"

lemma in_place_trans: "in_place X s s' \<Longrightarrow> in_place X s' s'' \<Longrightarrow> in_place X s s''"
  unfolding in_place_def by metis

definition aside :: "addr set \<Rightarrow> kernel \<Rightarrow> kernel \<Rightarrow> bool" where
  "aside X s s' \<longleftrightarrow>
     timers s' = timers s \<and> osTimers s' = osTimers s \<and> osTicks s' = osTicks s \<and> in_place X s s'"

lemmas aside_def' = aside_def [unfolded in_place_def]

definition asides :: "addr set \<Rightarrow> kernel \<Rightarrow> outcome \<times> kernel \<Rightarrow> bool" where
  "asides X s x \<longleftrightarrow> aside X s (snd x)"

lemma aside_refl [simp]: "aside X s s"
  by (simp add: aside_def')

lemma asides_Pair [simp]: "asides X s (r, s') = aside X s s'"
  by (simp add: asides_def)

lemma aside_weaken: "aside X s s' \<Longrightarrow> X \<subseteq> Y \<Longrightarrow> aside Y s s'"
  unfolding aside_def' by blast

lemma aside_queues: "aside {} s s' \<Longrightarrow> queues_apart A s \<Longrightarrow> queues_apart A s'"
  by (rule queues_apart_cong) (auto simp: aside_def')

section \<open>Updates\<close>

lemma aside_cong:
  assumes "timers s'' = timers s'" "osTimers s'' = osTimers s'" "osTicks s'' = osTicks s'"
    and "\<And>q. buffer (queues s'' q) = buffer (queues s' q)" "\<And>q. itemSize (queues s'' q) = itemSize (queues s' q)"
      "\<And>q. q_length (queues s'' q) = q_length (queues s' q)"
    and "osIdleTask s'' = osIdleTask s'"
    and "\<And>t. stack (tasks s'' t) = stack (tasks s' t)" "\<And>t. waitList (tasks s'' t) = waitList (tasks s' t)"
      "\<And>t. wait (tasks s'' t) = wait (tasks s' t)"
  shows "aside X s s'' = aside X s s'"
  unfolding aside_def' assms ..

lemma aside_task_upd [simp]:
  "(\<And>k. stack (f k) = stack k) \<Longrightarrow> (\<And>k. waitList (f k) = waitList k) \<Longrightarrow> (\<And>k. wait (f k) = wait k) \<Longrightarrow>
   aside X s (task_upd t f s') = aside X s s'"
  by (rule aside_cong) simp_all

lemma aside_set_waitList:
  "aside X s s' \<Longrightarrow> t \<in> X \<or> (\<forall>q. v \<noteq> Some (QueueHead q)) \<Longrightarrow> aside X s (set_waitList t v s')"
  by (auto simp: aside_def')

lemma aside_unwait: "aside (insert t X) s s' \<Longrightarrow> waitList (tasks s' t) = None \<Longrightarrow> aside X s s'"
  unfolding aside_def' by (metis insert_iff option.distinct(1))

lemma aside_set_wait: "aside X s s' \<Longrightarrow> t \<in> X \<or> waitList (tasks s' t) = None \<Longrightarrow> aside X s (set_wait t v s')"
  by (auto simp: aside_def')

lemma aside_upds [simp]:
  "aside X s (mutex_upd m f s') = aside X s s'"
  "aside X s (sem_upd m g s') = aside X s s'"
  "aside X s (event_upd m h s') = aside X s s'"
  "aside X s (save t k s') = aside X s s'"
  "aside X s (ram_upd r s') = aside X s s'"
  "aside X s (s'\<lparr>osReadyList := v\<rparr>) = aside X s s'"
  "aside X s (s'\<lparr>osTimerList := v\<rparr>) = aside X s s'"
  "aside X s (s'\<lparr>osDeadList := v\<rparr>) = aside X s s'"
  "aside X s (s'\<lparr>osCurrentTask := a\<rparr>) = aside X s s'"
  "aside X s (s'\<lparr>cont := c\<rparr>) = aside X s s'"
  by (simp_all add: aside_def' ram_upd_def)

lemma aside_queue_upd [simp]:
  "(\<And>k. buffer (f k) = buffer k) \<Longrightarrow> (\<And>k. itemSize (f k) = itemSize k) \<Longrightarrow> (\<And>k. q_length (f k) = q_length k) \<Longrightarrow>
   aside X s (queue_upd q f s') = aside X s s'"
  by (rule aside_cong) simp_all

lemma aside_wr [simp]: "aside X s (wr c v s') = aside X s s'"
  by (cases "(c, v, s')" rule: wr.cases) simp_all

lemma aside_twr [simp]: "aside X s (twr c v s') = aside X s s'"
  by (cases c) simp_all

lemma aside_leave [untouched]:
  assumes "holds m (asides X s)" and "\<And>v s1. aside X s s1 \<Longrightarrow> holds (go v s1) (asides X s)"
  shows "holds (leave t k go m) (asides X s)"
  unfolding leave_def
  by (rule holds_bind [OF assms(1)]) (auto simp: assms(2) split: outcome.split)

lemma asides_snd: "asides X s0 = (\<lambda>x. aside X s0 (snd x))"
  by (simp add: asides_def fun_eq_iff)

interpretation aside: scheduling_frame "aside X s0" for X s0
  by unfold_locales simp_all

lemma aside_osSchedule [untouched]: "aside X s0 s \<Longrightarrow> holds (osSchedule y s) (asides X s0)"
  unfolding asides_snd by (rule aside.osSchedule)

lemma aside_osBlock [untouched]:
  assumes "aside X s0 s" and "osCurrentTask s \<in> X \<or> (\<forall>q. l \<noteq> Some (QueueHead q))"
  shows "holds (osBlock l d s) (asides X s0)"
  unfolding asides_snd
  by (rule aside.osBlock [OF assms(1)]) (rule aside_set_waitList [OF _ assms(2)], simp_all)

text \<open>Whoever is woken up waits for nothing, whatever has been noted in \<open>wait\<close> before.\<close>

lemma aside_osUnblock:
  assumes "aside (insert t X) s0 s"
  shows "holds (osUnblock t s) (aside X s0)"
proof -
  have "holds (case waitList (tasks s t) of None \<Rightarrow> Some s
      | Some l \<Rightarrow> Option.bind (osListRemove l t s) (\<lambda>s. Some (set_waitList t None s))) (aside X s0)"
  proof (cases "waitList (tasks s t)")
    case None
    then show ?thesis using assms by (simp add: aside_unwait)
  next
    case (Some l)
    have gone: "holds (Some (set_waitList t None s1)) (aside X s0)" if "aside (insert t X) s0 s1" for s1
      unfolding holds_simps
      by (rule aside_unwait [OF aside_set_waitList [OF that]]) simp_all
    have "holds (Option.bind (osListRemove l t s) (\<lambda>s. Some (set_waitList t None s))) (aside X s0)"
      by (rule holds_bind [OF aside.lists(2) [OF assms] gone])
    then show ?thesis using Some by simp
  qed
  then show ?thesis
    unfolding osUnblock_def by (rule holds_bind) (auto intro!: untouched)
qed

lemma aside_osWake_noted: "aside (insert t X) s0 s \<Longrightarrow> holds (osWake t v s) (aside X s0)"
  unfolding osWake_def Let_def
  by (rule holds_bind [OF aside_osUnblock]) (auto intro!: untouched)

lemma aside_insert: "aside X s s' \<Longrightarrow> aside (insert t X) s s'"
  by (rule aside_weaken) auto

lemma aside_wake [untouched]:
  "aside X s0 s \<Longrightarrow> holds (osUnblock t s) (aside X s0)" "aside X s0 s \<Longrightarrow> holds (osWake t v s) (aside X s0)"
  by (simp_all add: aside_insert aside_osUnblock aside_osWake_noted)

lemma aside_calls [untouched]:
  assumes "aside X s0 s"
  shows "holds (osYield s) (asides X s0)" and "holds (osDelay d s) (asides X s0)"
    and "holds (snd (osDelayUntil p d s)) (asides X s0)"
  using assms by (auto simp: osYield_def osDelay_def osDelayUntil_def Let_def intro!: untouched)

section \<open>Semaphores, mutexes and events\<close>

lemma aside_semaphores [untouched]:
  assumes "aside X s0 s"
  shows "holds (osSemaphoreTake m d s) (asides X s0)" and "holds (osSemaphoreGiveFromISR m s) (aside X s0)"
  using assms by (auto simp: osSemaphoreTake_def osSemaphoreGiveFromISR_def intro!: untouched split: option.split)

lemma aside_osSemaphoreGive [untouched]: "aside X s0 s \<Longrightarrow> holds (osSemaphoreGive m s) (asides X s0)"
  unfolding osSemaphoreGive_def by (rule holds_bind [where P = "aside X s0"]) (auto intro!: untouched)

lemma aside_osMutexOwn [simp]: "aside X s0 (osMutexOwn m t s) = aside X s0 s"
  by (simp add: osMutexOwn_def)

lemma aside_owr [simp]: "aside X s0 (owr c v s) = aside X s0 s"
  by (cases c) simp_all

lemma aside_osMutexPass [untouched]: "aside X s0 s \<Longrightarrow> holds (osMutexPass m s) (aside X s0)"
  by (auto simp: osMutexPass_def intro!: untouched split: option.split)

lemma aside_osMutexReleaseAll [untouched]: "aside X s0 s \<Longrightarrow> holds (osMutexReleaseAll t s) (aside X s0)"
proof -
  have "aside X s0 s \<longrightarrow> aside X s0 s'" if "osMutexReleaseAll t s = Some s'" for s'
  proof (rule osMutexReleaseAll.raw_induct [OF _ that, where P = "\<lambda>_ s s'. aside X s0 s \<longrightarrow> aside X s0 s'"], goal_cases)
    case (1 rec t s s')
    show ?case
    proof
      assume s: "aside X s0 s"
      have "aside X s0 s1" if "osMutexPass m (set_tmutexes t v s) = Some s1" for m v s1
        by (rule holds_Some [OF aside_osMutexPass that]) (simp add: s)
      then show "aside X s0 s'"
        using 1 s by (auto simp: bind_eq_Some_conv split: option.splits)
    qed
  qed
  then show "holds (osMutexReleaseAll t s) (aside X s0)" if "aside X s0 s"
    using that by (cases "osMutexReleaseAll t s") simp_all
qed

lemma aside_osMutexTryLock_end [untouched]: "aside X s0 s \<Longrightarrow> holds (osMutexTryLock_end m b s) (asides X s0)"
  unfolding osMutexTryLock_end_def
  by (rule holds_bind [of _ "aside X s0"]) (auto intro!: untouched split: option.split)

lemma aside_osMutexTryLock [untouched]: "aside X s0 s \<Longrightarrow> holds (osMutexTryLock m d s) (asides X s0)"
  by (auto simp: osMutexTryLock_def Let_def intro!: holds_bind [of _ "aside X s0"] untouched split: option.split)

lemma aside_osMutexDisown [untouched]: "aside X s0 s \<Longrightarrow> holds (osMutexDisown m t s) (aside X s0)"
  by (auto simp: osMutexDisown_def intro!: untouched split: option.split)

lemma aside_osMutexUnlock [untouched]: "aside X s0 s \<Longrightarrow> holds (osMutexUnlock m s) (asides X s0)"
  by (auto simp: osMutexUnlock_def Let_def intro!: holds_bind [of _ "aside X s0"] untouched)

lemma aside_osEventWait [untouched]:
  assumes s: "aside X s0 s" and c: "waitList (tasks s (osCurrentTask s)) = None"
  shows "holds (osEventWait e f p d s) (asides X s0)"
proof -
  have "aside X s0 (set_wait t v (set_wait t w s))" if "t = osCurrentTask s" for t v w
    using c that by (intro aside_set_wait [OF aside_set_wait [OF s]]) auto
  then show ?thesis
    using s by (auto simp: osEventWait_def Let_def intro!: untouched)
qed

lemma aside_osEventSetFromISR_loop [untouched]:
  "aside X s0 s \<Longrightarrow> holds (osEventSetFromISR_loop e t s) (aside X s0)"
proof -
  have "aside X s0 s \<longrightarrow> aside X s0 s'" if "osEventSetFromISR_loop e t s = Some s'" for s'
  proof (rule osEventSetFromISR_loop.raw_induct [OF _ that, where P = "\<lambda>_ _ s s'. aside X s0 s \<longrightarrow> aside X s0 s'"], goal_cases)
    case (1 rec e t s s')
    show ?case
    proof
      assume s: "aside X s0 s"
      have noted: "aside (insert t X) s0 (set_wait t v s)" for t v
        by (rule aside_set_wait) (simp_all add: aside_insert s)
      have "aside X s0 s1" if "osWake t 1 (set_wait t v s) = Some s1" for t v s1
        by (rule holds_Some [OF aside_osWake_noted that]) (rule noted)
      moreover have "aside X s0 s1" if "osWake t 1 (set_wait t v (event_upd e g s)) = Some s1" for t v g s1
        by (rule holds_Some [OF aside_osWake_noted that], rule aside_set_wait) (simp_all add: aside_insert s)
      ultimately show "aside X s0 s'"
        using 1 s by (auto simp: Let_def bind_eq_Some_conv split: if_splits option.splits)
    qed
  qed
  then show "holds (osEventSetFromISR_loop e t s) (aside X s0)" if "aside X s0 s"
    using that by (cases "osEventSetFromISR_loop e t s") simp_all
qed

lemma aside_events [untouched]:
  assumes "aside X s0 s"
  shows "holds (osEventSetFromISR e f s) (aside X s0)" and "aside X s0 (osEventClear e f s)"
  using assms by (auto simp: osEventSetFromISR_def osEventClear_def Let_def intro!: untouched)

lemma aside_osEventSet [untouched]: "aside X s0 s \<Longrightarrow> holds (osEventSet e f s) (asides X s0)"
  unfolding osEventSet_def by (rule holds_bind [where P = "aside X s0"]) (auto intro!: untouched)

section \<open>Tasks and queues\<close>

lemma aside_osTaskDetach [untouched]: "aside X s0 s \<Longrightarrow> holds (osTaskDetach t s) (aside X s0)"
  by (auto simp: osTaskDetach_def intro!: untouched)

lemma aside_osTaskResumeFromISR [untouched]: "aside X s0 s \<Longrightarrow> holds (osTaskResumeFromISR t s) (aside X s0)"
  by (auto simp: osTaskResumeFromISR_def intro!: untouched)

lemma aside_tasks [untouched]:
  assumes "aside X s0 s"
  shows "holds (osTaskSuspend t s) (asides X s0)" and "holds (osTaskResume u s) (asides X s0)"
    and "holds (osTaskSetPriority t p s) (asides X s0)" and "holds (osTaskDelete_end s) (asides X s0)"
  using assms
  by (auto simp: osTaskSuspend_def osTaskResume_def osTaskSetPriority_def osTaskDelete_end_def Let_def
      intro!: holds_bind [of _ "aside X s0"] untouched)

lemma aside_osTaskDelete [untouched]: "aside X s0 s \<Longrightarrow> holds (osTaskDelete t s) (asides X s0)"
  by (auto simp: osTaskDelete_def Let_def intro!: holds_bind [of _ "aside X s0"] untouched)

text \<open>A call of a queue may begin to wait for it.\<close>

lemma aside_osQueueAppend [simp]: "aside X s0 (osQueueAppend q i s) = aside X s0 s"
  by (simp add: osQueueAppend_def Let_def)

lemma aside_queues_calls [untouched]:
  assumes "aside X s0 s" and "osCurrentTask s \<in> X"
  shows "holds (osQueuePut q i d s) (asides X s0)" and "holds (osQueueGet q i d s) (asides X s0)"
  using assms
  by (auto simp: osQueuePut_def osQueueGet_def Let_def
      intro!: holds_bind [of _ "aside X s0"] untouched aside_set_wait split: option.split)

lemma aside_osQueue_end [untouched]: "aside X s0 s \<Longrightarrow> holds (osQueue_end v s) (asides X s0)"
  by (auto simp: osQueue_end_def intro!: untouched)

lemma aside_queue_sends [untouched]:
  assumes "aside X s0 s" and "osCurrentTask s \<in> X"
  shows "holds (osQueueSend q i d s) (asides X s0)" and "holds (osQueueReceive q i d s) (asides X s0)"
  using assms by (auto simp: osQueueSend_def osQueueReceive_def intro!: untouched)

end
