(* ===== verification/Tick_Inv.thy ===== *)
theory Tick_Inv
  imports Tick Frames
begin

text \<open>
  What happens with a tick: the software timers that are due call their functions, in order,
  and \<open>osTickHandler\<close> keeps the invariant of the kernel. The functions are code of the
  application; \<open>timer_functions\<close> says what they have to keep to.
\<close>

section \<open>The timers that are due\<close>

text \<open>
  A function leaves the timers alone; \<open>good\<close> is what it needs and keeps, and \<open>act\<close> what
  it does to what is observed, neither of which the timers belong to.
\<close>

locale timer_functions =
  fixes fire :: callback
    and good :: "kernel \<Rightarrow> bool"
    and obs :: "kernel \<Rightarrow> 'o"
    and act :: "u16 \<Rightarrow> u16 \<Rightarrow> 'o \<Rightarrow> 'o"
  assumes fires: "good s \<Longrightarrow> returns (fire f p s)
      (\<lambda>s'. good s' \<and> obs s' = act f p (obs s) \<and> timers s' = timers s \<and> osTimers s' = osTimers s)"
    and blind: "timers_only w s s' \<Longrightarrow> good s \<Longrightarrow> good s' \<and> obs s' = obs s"

definition expired :: "u16 \<Rightarrow> kernel \<Rightarrow> addr \<Rightarrow> bool" where
  "expired ticks s t \<longleftrightarrow> tm_when (timers s t) = ticks"

definition periodic :: "kernel \<Rightarrow> addr \<Rightarrow> bool" where
  "periodic s t \<longleftrightarrow> tm_period (timers s t) \<noteq> 0"

definition rearmed :: "u16 \<Rightarrow> addr set \<Rightarrow> kernel \<Rightarrow> addr \<Rightarrow> u16" where
  "rearmed ticks D s t =
     (if t \<in> D \<and> periodic s t then ticks + tm_period (timers s t) else tm_when (timers s t))"

text \<open>The timers \<open>D\<close> have been fired: the periodic ones wait for their next turn.\<close>

definition timers_fired :: "u16 \<Rightarrow> addr set \<Rightarrow> addr set \<Rightarrow> kernel \<Rightarrow> kernel \<Rightarrow> bool" where
  "timers_fired ticks D R s s' \<longleftrightarrow>
     (\<exists>X'. timer_chain X' s' \<and> timers_sorted ticks X' s' \<and> set X' = R \<union> {t \<in> D. periodic s t} \<and>
        (\<forall>t \<in> set X'. \<not> expired ticks s' t)) \<and>
     (\<forall>t. tm_when (timers s' t) = rearmed ticks D s t \<and> tm_period (timers s' t) = tm_period (timers s t) \<and>
        tm_function (timers s' t) = tm_function (timers s t) \<and> tm_param (timers s' t) = tm_param (timers s t))"

text \<open>The timer at the front is taken off the list, and put back on it if it is periodic.\<close>

definition osTimerTick_next :: "u16 \<Rightarrow> addr \<Rightarrow> kernel \<Rightarrow> kernel option" where
  "osTimerTick_next ticks d s =
     (let s = s\<lparr>osTimers := tm_next (timers s d)\<rparr>
      in if tm_period (timers s d) \<noteq> 0 then osTimerInsert d ticks (tm_period (timers s d)) s else Some s)"

lemma tins_front: "(\<And>x. x \<in> set D \<Longrightarrow> l x \<le> n) \<Longrightarrow> tins l n t (D @ R) = D @ tins l n t R"
  by (induction D) (simp_all add: tins_def)

lemma expires_0: "expires ticks s t = 0 \<longleftrightarrow> expired ticks s t"
  by (simp add: expires_def expired_def)

lemma osTimerTick_next_spec:
  assumes X: "timer_chain (d # D @ R) s" and srt: "timers_sorted ticks (d # D @ R) s"
    and D: "\<And>t. t \<in> set D \<Longrightarrow> expired ticks s t" and R: "\<And>t. t \<in> set R \<Longrightarrow> \<not> expired ticks s t"
  shows "returns (osTimerTick_next ticks d s)
    (\<lambda>s'. \<exists>R'. timer_chain (D @ R') s' \<and> timers_sorted ticks (D @ R') s' \<and>
       timers_only (rearmed ticks {d} s) s s' \<and> set R' = set R \<union> {t \<in> {d}. periodic s t} \<and>
       (\<forall>t \<in> set R'. \<not> expired ticks s' t))"
proof -
  define s1 where "s1 = xwr TimersHead (xrd s (TimersNext d)) s"
  have next1: "osTimerTick_next ticks d s =
    (if periodic s d then osTimerInsert d ticks (tm_period (timers s d)) s1 else Some s1)"
    by (simp add: osTimerTick_next_def s1_def periodic_def)
  have ch: "timer_chain (D @ R) s1"
    unfolding timer_chain_def s1_def
    using soft.splice_out [of s TimersHead "[]" d "D @ R"] X by (simp add: timer_chain_def)
  have only: "timers_only (same_times s) s s1" unfolding s1_def by (rule timers_only_xwr)
  note e = timers_onlyD [OF only]
  have ex: "expires ticks s1 = expires ticks s" "expired ticks s1 = expired ticks s"
    by (simp_all add: expires_def expired_def fun_eq_iff e)
  have srt1: "timers_sorted ticks (D @ R) s1" using srt by (simp add: timers_sorted_def ex)
  show ?thesis
  proof (cases "periodic s d")
    case False
    then have "rearmed ticks {d} s = same_times s" by (auto simp: rearmed_def fun_eq_iff)
    then show ?thesis
      using False ch only srt1 R by (auto simp: next1 ex)
  next
    case True
    define p where "p = tm_period (timers s d)"
    have p: "p \<noteq> 0" using True by (simp add: p_def periodic_def)
    have d: "d \<notin> set (D @ R)" using timer_chain_distinct [OF X] by simp
    have front: "tins (expires ticks s1) p d (D @ R) = D @ tins (expires ticks s) p d R"
      unfolding ex by (rule tins_front) (use D in \<open>simp add: expires_0 [symmetric]\<close>)
    have w: "(same_times s1)(d := ticks + p) = rearmed ticks {d} s"
      using True by (auto simp: rearmed_def p_def fun_eq_iff e)
    have "\<not> expired ticks s' t"
      if "timers_only (rearmed ticks {d} s) s1 s'" "t \<in> insert d (set R)" for s' t
      using that R True p by (auto simp: expired_def timers_onlyD rearmed_def p_def)
    then show ?thesis
      using osTimerInsert_spec [OF ch d, of ticks p] insert_sorted [OF srt1 d, of p] True timers_only_trans [OF only]
      unfolding next1 front w p_def [symmetric]
      by (simp add: set_tins) (auto simp: set_tins elim!: returns_mono)
  qed
qed

lemma timers_fired_step:
  assumes a: "timers_only (rearmed ticks {d} s) s s1" and b: "timers s2 = timers s1"
    and c: "timers_fired ticks D R' s2 s'" and R': "R' = R \<union> {t \<in> {d}. periodic s t}" and d: "d \<notin> D"
  shows "timers_fired ticks (insert d D) R s s'"
proof -
  note e = timers_onlyD [OF a]
  have p: "periodic s2 = periodic s" by (simp add: periodic_def fun_eq_iff b e)
  have "rearmed ticks D s2 t = rearmed ticks (insert d D) s t" for t
    using d by (auto simp: rearmed_def p b e)
  moreover have "R' \<union> {t \<in> D. periodic s2 t} = R \<union> {t \<in> insert d D. periodic s t}"
    unfolding R' p by auto
  ultimately show ?thesis
    using c unfolding timers_fired_def by (simp add: b e)
qed

context timer_functions
begin

lemma fired_in_order:
  assumes "timer_chain (D @ R) s" and "timers_sorted ticks (D @ R) s" and "good s"
    and "\<And>t. t \<in> set D \<Longrightarrow> expired ticks s t" and "\<And>t. t \<in> set R \<Longrightarrow> \<not> expired ticks s t"
  shows "returns (osTimerTick fire ticks s) (\<lambda>s'. good s' \<and> timers_fired ticks (set D) (set R) s s' \<and>
    obs s' = fold (\<lambda>t. act (tm_function (timers s t)) (tm_param (timers s t))) D (obs s))"
  using assms
proof (induction D arbitrary: R s)
  case Nil
  have "osTimerTick fire ticks s = Some s"
  proof (cases R)
    case (Cons t R')
    then show ?thesis
      using Nil.prems(1) Nil.prems(5) [of t] by (subst osTimerTick.simps) (auto simp: timer_chain_def expired_def)
  qed (use Nil.prems(1) in \<open>subst osTimerTick.simps, auto simp: timer_chain_def\<close>)
  then show ?case using Nil by (auto simp: timers_fired_def rearmed_def)
next
  case (Cons d D)
  have head: "osTimers s = Some d" using Cons.prems(1) by (simp add: timer_chain_def)
  have due: "tm_when (timers s d) = ticks" using Cons.prems(4) [of d] by (simp add: expired_def)
  have d: "d \<notin> set D" using timer_chain_distinct [OF Cons.prems(1)] by simp
  have run: "osTimerTick fire ticks s = Option.bind (osTimerTick_next ticks d s)
      (\<lambda>s. Option.bind (fire (tm_function (timers s d)) (tm_param (timers s d)) s) (osTimerTick fire ticks))"
    using head due by (subst osTimerTick.simps) (simp add: osTimerTick_next_def Let_def)
  let ?act = "\<lambda>s t. act (tm_function (timers s t)) (tm_param (timers s t))"
  have rest: "returns (osTimerTick fire ticks s2) (\<lambda>s'. good s' \<and>
      timers_fired ticks (insert d (set D)) (set R) s s' \<and> obs s' = fold (?act s) (d # D) (obs s))"
    if s1: "timer_chain (D @ R') s1" "timers_sorted ticks (D @ R') s1" "timers_only (rearmed ticks {d} s) s s1"
      "set R' = set R \<union> {t \<in> {d}. periodic s t}" "\<forall>t \<in> set R'. \<not> expired ticks s1 t"
    and s2: "good s2" "obs s2 = ?act s1 d (obs s1)" "timers s2 = timers s1" "osTimers s2 = osTimers s1" for R' s1 s2
  proof -
    note e = timers_onlyD [OF s1(3)]
    have xrd: "xrd s2 = xrd s1" by (rule xrd_cong) (simp_all add: s2)
    have ch: "timer_chain (D @ R') s2" "timers_sorted ticks (D @ R') s2"
      using s1(1,2) by (simp_all add: timer_chain_def xrd timers_sorted_def expires_def s2)
    have D: "expired ticks s2 t" if "t \<in> set D" for t
      using Cons.prems(4) [of t] that d by (auto simp: expired_def s2 e rearmed_def)
    have R: "\<not> expired ticks s2 t" if "t \<in> set R'" for t
      using s1(5) that by (simp add: expired_def s2)
    have "?act s2 = ?act s" by (simp add: fun_eq_iff s2 e)
    moreover have "obs s2 = ?act s d (obs s)"
      using blind [OF s1(3) Cons.prems(3)] by (simp add: s2 e)
    ultimately show ?thesis
      using Cons.IH [OF ch s2(1) D R] timers_fired_step [OF s1(3) s2(3) _ s1(4) d]
      by (auto elim!: returns_mono)
  qed
  have one: "returns (Option.bind (fire (tm_function (timers s1 d)) (tm_param (timers s1 d)) s1) (osTimerTick fire ticks))
      (\<lambda>s'. good s' \<and> timers_fired ticks (insert d (set D)) (set R) s s' \<and> obs s' = fold (?act s) (d # D) (obs s))"
    if s1: "timer_chain (D @ R') s1" "timers_sorted ticks (D @ R') s1" "timers_only (rearmed ticks {d} s) s s1"
      "set R' = set R \<union> {t \<in> {d}. periodic s t}" "\<forall>t \<in> set R'. \<not> expired ticks s1 t" for R' s1
    using fires [of s1 "tm_function (timers s1 d)" "tm_param (timers s1 d)"] blind [OF s1(3) Cons.prems(3)] rest [OF s1]
    by (auto simp: returns_bind elim!: returns_mono)
  show ?case
    unfolding run returns_bind
    by (rule returns_mono [OF osTimerTick_next_spec [OF Cons.prems(1,2) [unfolded append_Cons] Cons.prems(4,5)]])
      (use one in \<open>auto simp: returns_bind\<close>)
qed

lemma fires_what_is_due:
  assumes "timer_chain X s" and "timers_sorted ticks X s" and "good s"
  shows "returns (osTimerTick fire ticks s) (\<lambda>s'. good s' \<and>
    timers_fired ticks {t \<in> set X. expired ticks s t} {t \<in> set X. \<not> expired ticks s t} s s' \<and>
    obs s' = fold (\<lambda>t. act (tm_function (timers s t)) (tm_param (timers s t)))
      (filter (expired ticks s) X) (obs s))"
proof -
  define D R where "D = filter (expired ticks s) X" and "R = filter (\<lambda>t. \<not> expired ticks s t) X"
  have srt: "sorted_wrt (\<lambda>x y. expires ticks s x \<le> expires ticks s y) X"
    using assms(2) by (simp add: timers_sorted_def)
  have X: "D @ R = X"
    using front_zero [OF srt] takeWhile_dropWhile_id [of "\<lambda>t. expires ticks s t = 0" X]
    by (simp add: expires_0 D_def R_def)
  have sets: "set D = {t \<in> set X. expired ticks s t}" "set R = {t \<in> set X. \<not> expired ticks s t}"
    by (auto simp: D_def R_def)
  show ?thesis
    unfolding D_def [symmetric] sets [symmetric]
    by (rule fired_in_order) (use assms sets in \<open>simp_all add: X\<close>)
qed

end

section \<open>The handler of the tick\<close>

text \<open>The functions keep the invariant of the kernel as well.\<close>

definition kernel_ok :: "addr set \<Rightarrow> addr \<Rightarrow> kernel \<Rightarrow> bool" where
  "kernel_ok A c s \<longleftrightarrow> rest A s \<and> objects_ok A s \<and> queues_apart A s \<and> osCurrentTask s = c"

definition keeps_kernel :: "addr set \<Rightarrow> callback \<Rightarrow> bool" where
  "keeps_kernel A fire \<longleftrightarrow>
     (\<forall>f p c s. kernel_ok A c s \<longrightarrow> returns (fire f p s)
        (\<lambda>s'. kernel_ok A c s' \<and> timers s' = timers s \<and> osTimers s' = osTimers s \<and> osTicks s' = osTicks s))"

lemma timers_only_kernel:
  assumes "timers_only w s s'"
  shows "rest A s' = rest A s" and "objects_ok A s' = objects_ok A s" and "queues_apart A s' = queues_apart A s"
    and "osCurrentTask s' = osCurrentTask s"
    and "osTicks s' = osTicks s" and "tasks s' = tasks s"
proof -
  have s': "s' = s\<lparr>timers := timers s', osTimers := osTimers s'\<rparr>" using assms by (simp add: timers_only_def)
  show "rest A s' = rest A s" by (subst s', rule rest_objects) (auto intro!: rd_cong)
  show "objects_ok A s' = objects_ok A s" by (subst s') (simp add: objects_ok_def)
  show "queues_apart A s' = queues_apart A s" by (subst s') (simp add: queues_apart_def harmless_def)
  show "osCurrentTask s' = osCurrentTask s" "osTicks s' = osTicks s" "tasks s' = tasks s"
    by (subst s', simp)+
qed

lemma keeps_kernel_functions:
  assumes "keeps_kernel A fire"
  shows "timer_functions fire (\<lambda>s. kernel_ok A c s \<and> osTicks s = n) (\<lambda>_. ()) (\<lambda>_ _ _. ())"
proof
  fix s f p assume s: "kernel_ok A c s \<and> osTicks s = n"
  then have "returns (fire f p s)
      (\<lambda>s'. kernel_ok A c s' \<and> timers s' = timers s \<and> osTimers s' = osTimers s \<and> osTicks s' = osTicks s)"
    using assms unfolding keeps_kernel_def by blast
  then show "returns (fire f p s)
      (\<lambda>s'. (kernel_ok A c s' \<and> osTicks s' = n) \<and> () = () \<and> timers s' = timers s \<and> osTimers s' = osTimers s)"
    by (rule returns_mono) (use s in simp)
next
  fix w s s' assume "timers_only w s s'" "kernel_ok A c s \<and> osTicks s = n"
  then show "(kernel_ok A c s' \<and> osTicks s' = n) \<and> () = ()"
    by (simp add: kernel_ok_def timers_only_kernel)
qed

text \<open>The timers at rest: in order, and none of them due.\<close>

definition timers_ok :: "kernel \<Rightarrow> bool" where
  "timers_ok s \<longleftrightarrow> (\<exists>X. timer_chain X s \<and> timers_sorted (osTicks s) X s \<and> (\<forall>t \<in> set X. \<not> expired (osTicks s) s t))"

abbreviation same_timers :: "kernel \<Rightarrow> kernel \<Rightarrow> bool" where
  "same_timers s s' \<equiv> timers s' = timers s \<and> osTimers s' = osTimers s \<and> osTicks s' = osTicks s"

lemma timers_ok_cong:
  assumes "same_timers s s'"
  shows "timers_ok s' = timers_ok s"
proof -
  have "xrd s' = xrd s" by (rule xrd_cong) (use assms in simp_all)
  then show ?thesis using assms
    by (simp add: timers_ok_def timer_chain_def timers_sorted_def expires_def expired_def)
qed

lemma timers_ok_next:
  assumes "timers_ok s"
  obtains X where "timer_chain X s" and "timers_sorted (osTicks s + 1) X s"
proof -
  from assms obtain X where X: "timer_chain X s" "timers_sorted (osTicks s) X s"
    "\<forall>t \<in> set X. \<not> expired (osTicks s) s t" by (auto simp: timers_ok_def)
  have "sorted_wrt (\<lambda>x y. expires (osTicks s) s x \<le> expires (osTicks s) s y) X"
    using X(2) by (simp add: timers_sorted_def)
  then have "sorted_wrt (\<lambda>x y. expires (osTicks s + 1) s x \<le> expires (osTicks s + 1) s y) X"
  proof (rule sorted_wrt_mono_rel [rotated])
    fix x y assume "x \<in> set X" "y \<in> set X" "expires (osTicks s) s x \<le> expires (osTicks s) s y"
    then show "expires (osTicks s + 1) s x \<le> expires (osTicks s + 1) s y"
      using X(3) minus_one_mono [of "expires (osTicks s) s x" "expires (osTicks s) s y"]
      by (simp add: expires_def expired_def diff_diff_eq)
  qed
  then show ?thesis using X(1) that by (simp add: timers_sorted_def)
qed

text \<open>
  The handler looks at the first timer only and calls \<open>osTimerTick\<close> if that one is due, which
  does nothing otherwise.
\<close>

lemma osTimerTick_only_due:
  "(case osTimers s of None \<Rightarrow> Some s
    | Some timer \<Rightarrow> if tm_when (timers s timer) = ticks then osTimerTick fire ticks s else Some s) =
   osTimerTick fire ticks s"
proof (cases "osTimers s")
  case None
  then show ?thesis by (simp add: osTimerTick.simps [of fire ticks s])
next
  case (Some t)
  then show ?thesis
    by (cases "tm_when (timers s t) = ticks") (simp, simp add: osTimerTick.simps [of fire ticks s])
qed

section \<open>Kernel and timers through the handler\<close>

definition tick_ok :: "addr set \<Rightarrow> addr \<Rightarrow> u16 \<Rightarrow> kernel \<Rightarrow> bool" where
  "tick_ok A c n s \<longleftrightarrow> kernel_ok A c s \<and> osTicks s = n \<and> timers_ok s"

lemma tick_okI:
  assumes "tick_ok A c n s" and "rest A s'" and "objects_ok A s'" and "queues_apart A s'"
    and "osCurrentTask s' = c" and "same_timers s s'"
  shows "tick_ok A c n s'"
  using assms by (simp add: tick_ok_def kernel_ok_def timers_ok_cong [OF assms(6)])

lemma osTimeouts_ok:
  assumes r: "rest A s" and ok: "objects_ok A s" and q: "queues_apart A s" and t: "timers_ok s"
  shows "returns (osTimeouts (osTicks s + 1) (ticked s))
    (\<lambda>s1. kernel_ok A (osCurrentTask s) s1 \<and> osTicks s1 = osTicks s + 1 \<and>
       (\<exists>X. timer_chain X s1 \<and> timers_sorted (osTicks s + 1) X s1))"
proof (rule returns_mono [OF osTimeouts_rest [OF r ok]], elim conjE)
  fix s1 assume s1: "rest A s1" "objects_ok A s1" "data_eq (timed_out (up_next A s) (ticked s)) s1"
  note d = data_eqD [OF s1(3)]
  have e: "osCurrentTask s1 = osCurrentTask s" "osTicks s1 = osTicks s + 1" "timers s1 = timers s" "osTimers s1 = osTimers s"
    by (simp_all add: d timed_out_def)
  have xrd: "xrd s1 = xrd s" by (rule xrd_cong) (simp_all add: e)
  obtain X where "timer_chain X s" "timers_sorted (osTicks s + 1) X s" using t by (rule timers_ok_next)
  then have "timer_chain X s1" "timers_sorted (osTicks s + 1) X s1"
    by (simp_all add: timer_chain_def xrd timers_sorted_def expires_def e)
  moreover have "calm s s1" using timed_out_calm [OF s1(3)] calm_ticked [of s] calm_calm by blast
  then have "queues_apart A s1" by (rule queues_apart_calm [OF q])
  ultimately show "kernel_ok A (osCurrentTask s) s1 \<and> osTicks s1 = osTicks s + 1 \<and>
       (\<exists>X. timer_chain X s1 \<and> timers_sorted (osTicks s + 1) X s1)"
    using s1 by (auto simp: kernel_ok_def e)
qed

lemma timers_fired_ok: "timers_fired n D R s s' \<Longrightarrow> osTicks s' = n \<Longrightarrow> timers_ok s'"
  unfolding timers_fired_def timers_ok_def by blast

lemma osTimerTick_ok:
  assumes "keeps_kernel A fire" and "kernel_ok A c s" and "osTicks s = n"
    and X: "timer_chain X s" "timers_sorted n X s"
  shows "returns (osTimerTick fire n s) (tick_ok A c n)"
  using timer_functions.fires_what_is_due [OF keeps_kernel_functions [OF assms(1), of c n] X] assms
  by (auto simp: tick_ok_def timers_fired_ok elim!: returns_mono)

lemma osSettle_ok:
  assumes "tick_ok A c n s"
  shows "returns (osSettle c s) (tick_ok A c n)"
proof -
  from assms have r: "rest A s" and ok: "objects_ok A s" and q: "queues_apart A s" and c: "c = osCurrentTask s"
    by (simp_all add: tick_ok_def kernel_ok_def)
  from r obtain L TL OL where K: "kernel_inv L TL OL A s" by (auto simp: rest_def)
  then have R: "repr L TL s" by (simp add: kernel_inv_def)
  note cur = current_detached [OF K, folded c]
  define p where "p = inherited L (OL c) s c"
  have settle: "osSettle c s =
      (if priority (tasks s c) \<noteq> basePriority (tasks s c) then Some (set_priority c p s) else Some s)"
    using osInheritedPriority_spec [OF R cur(6)] by (simp add: osSettle_def p_def)
  have "osRequeue c (set_priority c p s) = Some (set_priority c p s)"
    using cur by (intro osRequeue_none) simp_all
  then have low: "returns (if p < priority (tasks s c) then Some (set_priority c p s) else Some s)
      (\<lambda>s'. rest A s' \<and> calm s s' \<and> data_eq (set_priority c p s) s')"
    using lower_rest [OF r K cur(4) _ p_def] cur(5) by (auto elim!: returns_mono)
  have "tick_ok A c n (set_priority c p s)"
  proof (cases "p < priority (tasks s c)")
    case True
    then show ?thesis
      using low objects_ok_calm [OF ok] queues_apart_calm [OF q] by (intro tick_okI [OF assms]) (simp_all add: c)
  next
    case False
    then have "priority (tasks s c) = p" using low data_eqD(7) [of "set_priority c p s" s c] by simp
    then show ?thesis using assms by (simp add: same_assignment(1))
  qed
  then show ?thesis using assms by (simp add: settle)
qed

lemma osAging_ok:
  assumes "tick_ok A c n s"
  shows "tick_ok A c n (s\<lparr>osAging := a\<rparr>)" and "returns (osAging_loop prio (osReadyList s) s) (tick_ok A c n)"
proof -
  from assms have r: "rest A s" and ok: "objects_ok A s" and q: "queues_apart A s" and c: "osCurrentTask s = c"
    by (simp_all add: tick_ok_def kernel_ok_def)
  have "rest A (s\<lparr>osAging := a\<rparr>)"
    using r by (subst rest_objects [of _ s]) (auto intro!: rd_cong)
  then show "tick_ok A c n (s\<lparr>osAging := a\<rparr>)"
    using ok q by (intro tick_okI [OF assms]) (simp_all add: c objects_ok_def queues_apart_def harmless_def)
  note aging = osAging_loop_rest [OF r ok, of prio]
  show "returns (osAging_loop prio (osReadyList s) s) (tick_ok A c n)"
    unfolding aging(1) returns_Some
    by (rule tick_okI [OF assms aging(2,3)])
      (use q in \<open>simp_all add: aging(4) c, simp_all add: aged_def with_priorities_def queues_apart_def harmless_def\<close>)
qed

lemma aside_osAging [simp]: "aside X s0 (s\<lparr>osAging := a\<rparr>) = aside X s0 s"
  by (simp add: aside_def')

lemma aside_same: "aside X s s' \<Longrightarrow> same_timers s s'"
  by (simp add: aside_def)

lemma schedule_tick:
  assumes "tick_ok A c n s"
  shows "returns (leave c k (\<lambda>_ s. Some (Returned v, s)) (osSchedule 1 s))
    (\<lambda>(r, s'). rest A s' \<and> objects_ok A s' \<and> queues_apart A s' \<and> top_runs A s' \<and> timers_ok s' \<and> osTicks s' = n)"
proof -
  from assms have r: "rest A s" and ok: "objects_ok A s" and q: "queues_apart A s" and c: "osCurrentTask s = c"
    and n: "osTicks s = n" "timers_ok s" by (simp_all add: tick_ok_def kernel_ok_def)
  have "returns (leave c k (\<lambda>_ s. Some (Returned v, s)) (osSchedule 1 s))
      (\<lambda>(r, s'). rest A s' \<and> objects_ok A s' \<and> top_runs A s' \<and> calm s s' \<and> same_owners s s')"
    using schedule_ok [OF r ok, of 1] by (simp add: c)
  moreover have "holds (leave c k (\<lambda>_ s. Some (Returned v, s)) (osSchedule 1 s)) (asides {} s)"
    by (auto intro!: untouched)
  ultimately show ?thesis
    by (rule returns_mono [OF holds_returns])
      (use n timers_ok_cong [OF aside_same] aside_queues [OF _ q] in \<open>auto simp: asides_def dest: aside_same\<close>)
qed

lemma leave_bind: "leave t k go (Option.bind m f) = Option.bind m (\<lambda>s. leave t k go (f s))"
  by (cases m) (simp_all add: leave_def)

lemma leave_idle:
  "leave t k go (if osScheduleNeeded y s then osSchedule y s else Some (Returned v, s)) = leave t k go (osSchedule y s)"
  if "v = VVoid"
  using that by (simp add: osSchedule_idle)

text \<open>The handler, part by part: what is left when the priorities are settled is aging and the switch.\<close>

definition tick_end :: "kernel \<Rightarrow> res" where
  "tick_end s3 = do {
     let s = s3\<lparr>osAging := osAging s3 - 1\<rparr>;
     s \<leftarrow> (if osAging s = 0
           then osAging_loop (priority (tasks s (osCurrentTask s))) (osReadyList s) (s\<lparr>osAging := OS_CFG_AGING_TICKS\<rparr>)
           else Some s);
     if osScheduleNeeded OS_CFG_ROUND_ROBIN s then osSchedule OS_CFG_ROUND_ROBIN s else Some (Returned VVoid, s)
   }"

lemma osTickHandler_parts:
  "osTickHandler fire s = do {
     s1 \<leftarrow> osTimeouts (osTicks s + 1) (ticked s);
     s2 \<leftarrow> osTimerTick fire (osTicks s + 1) s1;
     s3 \<leftarrow> osSettle (osCurrentTask s2) s2;
     tick_end s3
   }"
  by (simp add: osTickHandler_def ticked_def [symmetric] osTimerTick_only_due tick_end_def [abs_def] Let_def)

text \<open>Aging changes priorities.\<close>

context relinking_frame
begin

lemma osAging_loop [untouched]: "ok s \<Longrightarrow> holds (osAging_loop prio t s) ok"
proof -
  have "ok s \<longrightarrow> ok s'" if "osAging_loop prio t s = Some s'" for s'
  proof (rule osAging_loop.raw_induct [OF _ that, where P = "\<lambda>_ _ s s'. ok s \<longrightarrow> ok s'"], goal_cases)
    case (1 rec prio t s s')
    show ?case
    proof
      assume s: "ok s"
      then show "ok s'"
        using 1 members(2) [OF s] by (auto simp: Let_def split: option.splits if_splits)
    qed
  qed
  then show "holds (osAging_loop prio t s) ok" if "ok s"
    using that by (cases "Tick.osAging_loop prio t s") simp_all
qed

end

context scheduling_frame
begin

lemma tick_end:
  assumes "ok s" and "\<And>s a. ok s \<Longrightarrow> ok (s\<lparr>osAging := a\<rparr>)"
  shows "holds (tick_end s) (\<lambda>x. ok (snd x))"
  unfolding tick_end_def Let_def
  by (rule holds_bind [where P = ok]) (auto intro!: assms osAging_loop osSchedule)

end

lemma osTickHandler_rest:
  assumes r: "rest A s" and ok: "objects_ok A s" and q: "queues_apart A s" and t: "timers_ok s"
    and fire: "keeps_kernel A fire"
  shows "returns (tick_interrupt fire s)
    (\<lambda>(r, s'). rest A s' \<and> objects_ok A s' \<and> queues_apart A s' \<and> top_runs A s' \<and> timers_ok s' \<and> osTicks s' = osTicks s + 1)"
proof -
  define c n where "c = osCurrentTask s" and "n = osTicks s + 1"
  let ?P = "\<lambda>(r, s'). rest A s' \<and> objects_ok A s' \<and> queues_apart A s' \<and> top_runs A s' \<and> timers_ok s' \<and> osTicks s' = n"
  let ?leave = "leave c (KReturn VVoid) (\<lambda>_ s. Some (Returned VVoid, s))"
  have settled: "returns (?leave (tick_end s3)) ?P"
    if "tick_ok A c n s3" for s3
  proof -
    have down: "tick_ok A c n (s3\<lparr>osAging := osAging s3 - 1\<rparr>)" by (rule osAging_ok(1) [OF that])
    have up: "tick_ok A c n (s3\<lparr>osAging := OS_CFG_AGING_TICKS\<rparr>)" by (rule osAging_ok(1) [OF that])
    have sched: "returns (?leave (osSchedule 1 x)) ?P" if "tick_ok A c n x" for x
      by (rule schedule_tick [OF that])
    have "returns (osAging_loop prio (osReadyList s3) (s3\<lparr>osAging := OS_CFG_AGING_TICKS\<rparr>))
        (\<lambda>x. returns (?leave (osSchedule 1 x)) ?P)" for prio
      using osAging_ok(2) [OF up, of prio] sched by (auto elim!: returns_mono)
    then show ?thesis
      using sched [OF down] by (simp add: tick_end_def Let_def leave_bind leave_idle)
  qed
  have run: "tick_interrupt fire s = do {
      s \<leftarrow> osTimeouts n (ticked s);
      s \<leftarrow> osTimerTick fire n s;
      s3 \<leftarrow> osSettle (osCurrentTask s) s;
      ?leave (tick_end s3)}"
    by (simp add: tick_interrupt_def osTickHandler_parts leave_bind c_def n_def)
  have settle: "returns (osSettle (osCurrentTask s2) s2) (tick_ok A c n)" if "tick_ok A c n s2" for s2
  proof -
    have "osCurrentTask s2 = c" using that by (simp add: tick_ok_def kernel_ok_def)
    then show ?thesis using osSettle_ok [OF that] by simp
  qed
  have "returns (tick_interrupt fire s) ?P"
    unfolding run returns_bind
  proof (rule returns_mono [OF osTimeouts_ok [OF r ok q t, folded c_def n_def]], elim exE conjE)
    fix s1 X assume s1: "kernel_ok A c s1" "osTicks s1 = n" "timer_chain X s1" "timers_sorted n X s1"
    show "returns (osTimerTick fire n s1) (\<lambda>s2. returns (osSettle (osCurrentTask s2) s2) (\<lambda>s3. returns (?leave (tick_end s3)) ?P))"
      by (rule returns_mono [OF osTimerTick_ok [OF fire s1]], rule returns_mono [OF settle], assumption, rule settled)
  qed
  then show ?thesis by (simp add: n_def)
qed

section \<open>Functions of timers\<close>

text \<open>A function may write to the memory of the application.\<close>

definition writer :: "(u16 \<Rightarrow> u16 \<Rightarrow> (addr \<Rightarrow> u8) \<Rightarrow> addr \<Rightarrow> u8) \<Rightarrow> callback" where
  "writer act f p s = Some (ram_upd (act f p) s)"

lemma timers_only_ram: "timers_only w s s' \<Longrightarrow> ram s' = ram s"
  by (simp add: timers_onlyD)

lemma ram_upd_timers [simp]: "osTimers (ram_upd f s) = osTimers s"
  by (simp add: ram_upd_def)

interpretation writers: timer_functions "writer act" "\<lambda>_. True" ram act for act
  by unfold_locales (simp_all add: writer_def timers_only_ram)

text \<open>It may give a semaphore, as an interrupt handler may.\<close>

definition giver :: callback where
  "giver f p = osSemaphoreGiveFromISR p"

lemma giver_kernel:
  assumes "rest A s" and "objects_ok A s" and "queues_apart A s"
  shows "returns (giver f p s) (\<lambda>s'. rest A s' \<and> objects_ok A s' \<and> queues_apart A s' \<and>
    osCurrentTask s' = osCurrentTask s \<and> same_timers s s')"
proof -
  have "holds (osSemaphoreGiveFromISR p s) (aside {} s)" by (rule aside_semaphores) simp
  then show ?thesis
    unfolding giver_def
    by (rule returns_mono [OF holds_returns [OF osSemaphoreGiveFromISR_rest [OF assms(1,2)]]])
      (use aside_queues [OF _ assms(3)] aside_same in auto)
qed

lemma giver_keeps_kernel: "keeps_kernel A giver"
  unfolding keeps_kernel_def
proof (intro allI impI)
  fix f p c s assume "kernel_ok A c s"
  then have k: "rest A s" "objects_ok A s" "queues_apart A s" "osCurrentTask s = c" by (simp_all add: kernel_ok_def)
  show "returns (giver f p s) (\<lambda>s'. kernel_ok A c s' \<and> same_timers s s')"
    by (rule returns_mono [OF giver_kernel [OF k(1-3)]]) (simp add: kernel_ok_def k(4))
qed

interpretation givers: timer_functions giver "\<lambda>s. kernel_ok A c s \<and> osTicks s = n" "\<lambda>_. ()" "\<lambda>_ _ _. ()" for A c n
  by (rule keeps_kernel_functions [OF giver_keeps_kernel])

end
