(* ===== verification/System.thy ===== *)
theory System
  imports Context_Switch Queues Events Tasks Tick_Inv
begin

text \<open>
  \<^verbatim>\<open>system/system.c\<close>, and the system as a whole: which task runs, what interrupts do to it,
  and how a task that gets the processor back finishes the kernel call it has been in.
\<close>

section \<open>Start of the system\<close>

text \<open>
  \<open>heap_start\<close> is the linker's, \<open>spr\<close> is the stack pointer. \<open>__malloc_heap_end\<close> concerns
  \<^verbatim>\<open>malloc\<close> only.
\<close>

definition osInit :: "addr \<Rightarrow> addr \<Rightarrow> kernel \<Rightarrow> kernel" where
  "osInit heap_start spr s =
     (let stk = RAMEND + 1 - OS_CFG_MAIN_STACK_SIZE;
          stk = (if stk < heap_start then heap_start else stk);
          idle = osIdleTask s;
          s = task_upd idle (stack_update (\<lambda>_. stk)) s;
          s = ram_upd (memset (unat (spr - 16) - unat stk) stk OS_STACK_FILL) s;
          s = set_state idle OS_TASK_RUNNING s;
          s = set_priority idle 255 s;
          s = set_basePriority idle 255 s
      in s\<lparr>osCurrentTask := idle\<rparr>)"

definition osRun :: "kernel \<Rightarrow> res" where
  "osRun s =
     (let s = set_priority (osIdleTask s) 0 s;
          s = set_basePriority (osIdleTask s) 0 s
      in leave (osCurrentTask s) (KReturn VVoid) (\<lambda>_ s. Some (Returned VVoid, s)) (osSchedule 0 s))"

text \<open>One turn of the loop of the idle task, up to \<open>osIdleHook\<close>.\<close>

definition osRun_loop :: "kernel \<Rightarrow> kernel option" where
  "osRun_loop s = (if osTaskReaper s then osTaskReap s else Some s)"

section \<open>Back in a kernel call\<close>

definition run_kont :: "kont \<Rightarrow> kernel \<Rightarrow> res" where
  "run_kont k s =
     (let task = osCurrentTask s; r = (result (tasks s task) \<noteq> 0) in
      case k of
        KReturn v \<Rightarrow> Some (Returned v, s)
      | KResult \<Rightarrow> Some (Returned (VBool r), s)
      | KDelay \<Rightarrow> Some (Returned VVoid, s)
      | KMutexTryLock m \<Rightarrow> osMutexTryLock_end m r s
      | KQueue \<Rightarrow> osQueue_end (VBool r) s
      | KEventWait \<Rightarrow> Some (Returned (VByte (if r then wait_flags (wait (tasks s task)) else 0)), s)
      | KDelete \<Rightarrow> osTaskDelete_end s
      | KStart fn param \<Rightarrow> Some (Returned VVoid, s))"

text \<open>
  The task that has got the processor goes on until it is back in its own code, with the
  value its call returns.
\<close>

definition taken :: "addr \<Rightarrow> kernel \<Rightarrow> kernel" where
  "taken t s = s\<lparr>cont := (cont s)(t := None)\<rparr>"

partial_function (option) resume :: "outcome \<times> kernel \<Rightarrow> (val \<times> kernel) option" where
  "resume x =
     (case x of
        (Returned v, s) \<Rightarrow> Some (v, s)
      | (Switched, s) \<Rightarrow>
          (case cont s (osCurrentTask s) of
             None \<Rightarrow> None
           | Some k \<Rightarrow> Option.bind (run_kont k (taken (osCurrentTask s) s)) resume))"

section \<open>Interrupts\<close>

text \<open>What an interrupt handler may do to the kernel, in the order it does it.\<close>

datatype isr =
    IGive addr
  | IEventSet addr u8
  | IQueueSend addr addr
  | IQueueReceive addr addr
  | IResume addr

fun isr_call :: "isr \<Rightarrow> kernel \<Rightarrow> kernel option" where
  "isr_call (IGive m) s = osSemaphoreGiveFromISR m s"
| "isr_call (IEventSet e f) s = osEventSetFromISR e f s"
| "isr_call (IQueueSend q item) s = map_option snd (osQueueSendFromISR q item s)"
| "isr_call (IQueueReceive q item) s = map_option snd (osQueueReceiveFromISR q item s)"
| "isr_call (IResume t) s = osTaskResumeFromISR t s"

fun isr_calls :: "isr list \<Rightarrow> kernel \<Rightarrow> kernel option" where
  "isr_calls [] s = Some s"
| "isr_calls (i # is) s = Option.bind (isr_call i s) (isr_calls is)"

text \<open>A handler made with \<open>OS_ISR\<close>. The task it interrupts has nothing left to do in the kernel.\<close>

definition OS_ISR :: "isr list \<Rightarrow> kernel \<Rightarrow> res" where
  "OS_ISR handler s = do {
     s \<leftarrow> isr_calls handler s;
     leave (osCurrentTask s) (KReturn VVoid) (\<lambda>_ s. Some (Returned VVoid, s)) (osSchedule 0 s)
   }"

section \<open>Kernel calls of the tasks\<close>

datatype call =
    CYield
  | CDelay u16
  | CDelayUntil u16 u16
  | CTake addr u16
  | CGive addr
  | CTryLock addr u16
  | CUnlock addr
  | CEventWait addr u8 u8 u16
  | CEventSet addr u8
  | CEventClear addr u8
  | CSend addr addr u16
  | CReceive addr addr u16
  | CSuspend "addr option"
  | CResume addr
  | CSetPriority "addr option" u8
  | CDelete "addr option"

fun do_call :: "call \<Rightarrow> kernel \<Rightarrow> res" where
  "do_call CYield s = osYield s"
| "do_call (CDelay n) s = osDelay n s"
| "do_call (CDelayUntil previous period) s = snd (osDelayUntil previous period s)"
| "do_call (CTake m n) s = osSemaphoreTake m n s"
| "do_call (CGive m) s = osSemaphoreGive m s"
| "do_call (CTryLock m n) s = osMutexTryLock m n s"
| "do_call (CUnlock m) s = osMutexUnlock m s"
| "do_call (CEventWait e f p n) s = osEventWait e f p n s"
| "do_call (CEventSet e f) s = osEventSet e f s"
| "do_call (CEventClear e f) s = Some (Returned VVoid, osEventClear e f s)"
| "do_call (CSend q item n) s = osQueueSend q item n s"
| "do_call (CReceive q item n) s = osQueueReceive q item n s"
| "do_call (CSuspend t) s = osTaskSuspend t s"
| "do_call (CResume t) s = osTaskResume t s"
| "do_call (CSetPriority t p) s = osTaskSetPriority t p s"
| "do_call (CDelete t) s = osTaskDelete t s"

end
