(* ===== verification/Reachable.thy ===== *)
theory Reachable
  imports System
begin

text \<open>
  The system as a whole as a step relation: the running task calls the kernel, goes on with a
  call it has been in, or is interrupted, by a handler or by the tick. Every state that is
  reachable satisfies the invariant of the kernel, and no call fails to return.
\<close>

section \<open>The invariant of the system\<close>

definition system_ok :: "addr set \<Rightarrow> kernel \<Rightarrow> bool" where
  "system_ok A s \<longleftrightarrow> rest A s \<and> objects_ok A s \<and> queues_apart A s \<and> timers_ok s"

lemma system_okD:
  assumes "system_ok A s"
  shows "rest A s" and "objects_ok A s" and "queues_apart A s" and "timers_ok s"
  using assms by (simp_all add: system_ok_def)

lemma aside_timers: "aside X s s' \<Longrightarrow> timers_ok s \<Longrightarrow> timers_ok s'"
  using timers_ok_cong [OF aside_same] by simp

text \<open>A call that leaves the timers and the buffers aside.\<close>

lemma system_ok_call:
  assumes "system_ok A s" and "returns m (\<lambda>(r, s'). rest A s' \<and> objects_ok A s')" and "holds m (asides {} s)"
  shows "returns m (\<lambda>(r, s'). system_ok A s')"
  by (rule returns_mono [OF holds_returns [OF assms(2,3)]])
    (use assms(1) aside_timers aside_queues in \<open>auto simp: system_ok_def\<close>)

lemma system_ok_isr:
  assumes "system_ok A s" and "returns m (\<lambda>s'. rest A s' \<and> objects_ok A s' \<and> osCurrentTask s' = osCurrentTask s)"
    and "holds m (aside {} s)"
  shows "returns m (\<lambda>s'. system_ok A s' \<and> osCurrentTask s' = osCurrentTask s)"
  by (rule returns_mono [OF holds_returns [OF assms(2,3)]])
    (use assms(1) aside_timers aside_queues in \<open>auto simp: system_ok_def\<close>)

text \<open>A call of a queue keeps the buffers apart itself.\<close>

lemma system_ok_queue:
  assumes "system_ok A s" and "returns m (\<lambda>(r, s'). rest A s' \<and> objects_ok A s' \<and> queues_apart A s')"
    and "holds m (asides UNIV s)"
  shows "returns m (\<lambda>(r, s'). system_ok A s')"
  by (rule returns_mono [OF holds_returns [OF assms(2,3)]])
    (use assms(1) aside_timers in \<open>auto simp: system_ok_def\<close>)

section \<open>Calls\<close>

text \<open>
  What the kernel relies on: a call concerns tasks which exist, and which are not dead if their
  priority is to be changed; the room of a message is where neither a buffer nor the end of a
  stack is, and nobody who waits for the queue shares it.
\<close>

definition message_room :: "addr set \<Rightarrow> kernel \<Rightarrow> addr \<Rightarrow> addr \<Rightarrow> bool" where
  "message_room A s q item \<longleftrightarrow>
     (let room = region item (unat (itemSize (queues s q))) in
      harmless A s room \<and> room \<inter> buffer_region (queues s q) = {} \<and>
      (\<forall>t \<in> A. waitList (tasks s t) = Some (QueueHead q) \<longrightarrow>
         region (wait (tasks s t)) (unat (itemSize (queues s q))) \<inter> room = {}))"

fun allowed :: "addr set \<Rightarrow> kernel \<Rightarrow> call \<Rightarrow> bool" where
  "allowed A s (CSend q item n) \<longleftrightarrow> message_room A s q item"
| "allowed A s (CReceive q item n) \<longleftrightarrow> message_room A s q item"
| "allowed A s (CSuspend t) \<longleftrightarrow> task_or_current t s \<in> A"
| "allowed A s (CResume t) \<longleftrightarrow> t \<in> A"
| "allowed A s (CSetPriority t p) \<longleftrightarrow>
     task_or_current t s \<in> A \<and> state (tasks s (task_or_current t s)) \<noteq> OS_TASK_DEAD"
| "allowed A s (CDelete t) \<longleftrightarrow> task_or_current t s \<in> A"
| "allowed A s _ \<longleftrightarrow> True"

lemma delay_rest:
  assumes r: "rest A s" and ok: "objects_ok A s" and n: "n \<noteq> 0"
  shows "returns (leave (osCurrentTask s) KDelay (\<lambda>_ s. Some (Returned VVoid, s)) (osBlock None n s))
    (\<lambda>(r, s'). rest A s' \<and> objects_ok A s')"
proof -
  have "objects_ok A s'" if "blocked (osCurrentTask s) None n s s'" for s'
    by (rule objects_ok_blocked [OF ok that]) simp_all
  then show ?thesis
    using block_rest_simple [OF r refl n, of None KDelay] r ok
    by (auto simp: returns_leave elim!: returns_mono split: if_splits)
qed

lemma schedule_rest_ok:
  assumes "rest A s" and "objects_ok A s" and "y = 0 \<or> y = 1"
  shows "returns (leave (osCurrentTask s) k (\<lambda>_ s. Some (Returned v, s)) (osSchedule y s))
    (\<lambda>(r, s'). rest A s' \<and> objects_ok A s')"
  using schedule_ok [OF assms, of k v] by (auto elim!: returns_mono)

lemma time_calls_rest:
  assumes "rest A s" and "objects_ok A s"
  shows "returns (osYield s) (\<lambda>(r, s'). rest A s' \<and> objects_ok A s')"
    and "returns (osDelay n s) (\<lambda>(r, s'). rest A s' \<and> objects_ok A s')"
    and "returns (snd (osDelayUntil p n s)) (\<lambda>(r, s'). rest A s' \<and> objects_ok A s')"
proof -
  show "returns (osYield s) (\<lambda>(r, s'). rest A s' \<and> objects_ok A s')"
    "returns (osDelay n s) (\<lambda>(r, s'). rest A s' \<and> objects_ok A s')"
    using delay_rest [OF assms] schedule_rest_ok [OF assms, of 1] by (simp_all add: osYield_def osDelay_def)
  define left where "left = p + n - osTicks s"
  have "left \<noteq> 0" if "left - 1 < n"
  proof
    assume "left = 0"
    with that have "- 1 < n" by simp
    then show False using word_order.extremum [of n] by simp
  qed
  then show "returns (snd (osDelayUntil p n s)) (\<lambda>(r, s'). rest A s' \<and> objects_ok A s')"
    using delay_rest [OF assms, of left] assms by (simp add: osDelayUntil_def Let_def left_def [symmetric])
qed

lemma alive_state:
  assumes "rest A s" and "t \<in> A"
  shows "state (tasks s t) AND OS_TASK_STATE \<noteq> OS_TASK_DEAD \<longleftrightarrow> state (tasks s t) \<noteq> OS_TASK_DEAD"
    and "state (tasks s t) AND OS_TASK_STATE \<noteq> OS_TASK_SUSPENDED \<longleftrightarrow> state (tasks s t) \<noteq> OS_TASK_SUSPENDED"
proof -
  from assms(1) obtain L TL OL where "kernel_inv L TL OL A s" by (auto simp: rest_def)
  then have "state (tasks s t) \<in> valid_states"
    using assms(2) by (auto simp: kernel_inv_def intro: placed_state)
  then show "state (tasks s t) AND OS_TASK_STATE \<noteq> OS_TASK_DEAD \<longleftrightarrow> state (tasks s t) \<noteq> OS_TASK_DEAD"
    "state (tasks s t) AND OS_TASK_STATE \<noteq> OS_TASK_SUSPENDED \<longleftrightarrow> state (tasks s t) \<noteq> OS_TASK_SUSPENDED"
    using valid_state by simp_all
qed

lemma task_calls_rest:
  assumes r: "rest A s" and ok: "objects_ok A s" and t: "task_or_current target s \<in> A"
  shows "returns (osTaskSuspend target s) (\<lambda>(r, s'). rest A s' \<and> objects_ok A s')"
    and "returns (osTaskDelete target s) (\<lambda>(r, s'). rest A s' \<and> objects_ok A s')"
proof -
  let ?t = "task_or_current target s"
  note alive = alive_state [OF r t]
  show "returns (osTaskSuspend target s) (\<lambda>(r, s'). rest A s' \<and> objects_ok A s')"
  proof (cases "?t = osIdleTask s \<or> state (tasks s ?t) = OS_TASK_SUSPENDED \<or> state (tasks s ?t) = OS_TASK_DEAD")
    case True
    then have "osTaskSuspend target s = Some (Returned VVoid, s)"
      unfolding osTaskSuspend_def Let_def using alive by auto
    then show ?thesis using r ok by simp
  next
    case False
    then show ?thesis
      using osTaskSuspend_rest [OF r ok refl t] by (auto elim!: returns_mono)
  qed
  show "returns (osTaskDelete target s) (\<lambda>(r, s'). rest A s' \<and> objects_ok A s')"
  proof (cases "?t = osIdleTask s \<or> state (tasks s ?t) = OS_TASK_DEAD")
    case True
    then have "osTaskDelete target s = Some (Returned VVoid, s)"
      unfolding osTaskDelete_def Let_def using alive by auto
    then show ?thesis using r ok by simp
  next
    case False
    then show ?thesis
      using osTaskDelete_rest [OF r ok refl t] by (auto elim!: returns_mono)
  qed
qed

lemma queue_calls_ok:
  assumes r: "rest A s" and ok: "objects_ok A s" and ap: "queues_apart A s" and room: "message_room A s q item"
  shows "returns (osQueueSend q item n s) (\<lambda>(r, s'). rest A s' \<and> objects_ok A s' \<and> queues_apart A s')"
    and "returns (osQueueReceive q item n s) (\<lambda>(r, s'). rest A s' \<and> objects_ok A s' \<and> queues_apart A s')"
    and "returns (osQueueSendFromISR q item s)
      (\<lambda>(r, s'). rest A s' \<and> objects_ok A s' \<and> queues_apart A s' \<and> osCurrentTask s' = osCurrentTask s)"
    and "returns (osQueueReceiveFromISR q item s)
      (\<lambda>(r, s'). rest A s' \<and> objects_ok A s' \<and> queues_apart A s' \<and> osCurrentTask s' = osCurrentTask s)"
proof -
  note room = room [unfolded message_room_def Let_def]
  note put = osQueuePut_rest [OF r ok ap refl refl refl, of item q] and get = osQueueGet_rest [OF r ok ap refl refl refl, of item q]
  show "returns (osQueueSend q item n s) (\<lambda>(r, s'). rest A s' \<and> objects_ok A s' \<and> queues_apart A s')"
    unfolding osQueueSend_def
    by (rule returns_mono [OF queue_call [OF put]]) (use room in \<open>auto simp: queue_called_def\<close>)
  show "returns (osQueueReceive q item n s) (\<lambda>(r, s'). rest A s' \<and> objects_ok A s' \<and> queues_apart A s')"
    unfolding osQueueReceive_def
    by (rule returns_mono [OF queue_call [OF get]]) (use room in \<open>auto simp: queue_called_def\<close>)
  show "returns (osQueueSendFromISR q item s)
      (\<lambda>(r, s'). rest A s' \<and> objects_ok A s' \<and> queues_apart A s' \<and> osCurrentTask s' = osCurrentTask s)"
    unfolding osQueueSendFromISR_def
    by (rule returns_mono [OF put]) (use room in \<open>auto simp: goes_on_def split: option.splits if_splits\<close>)
  show "returns (osQueueReceiveFromISR q item s)
      (\<lambda>(r, s'). rest A s' \<and> objects_ok A s' \<and> queues_apart A s' \<and> osCurrentTask s' = osCurrentTask s)"
    unfolding osQueueReceiveFromISR_def
    by (rule returns_mono [OF get]) (use room in \<open>auto simp: goes_on_def split: option.splits if_splits\<close>)
qed

lemma call_ok:
  assumes s: "system_ok A s" and c: "allowed A s c"
  shows "returns (do_call c s) (\<lambda>(r, s'). system_ok A s')"
proof -
  note k = system_okD [OF s]
  note call = system_ok_call [OF s] and queue = system_ok_queue [OF s]
  have weak: "returns m (\<lambda>(r, s'). rest A s' \<and> objects_ok A s')"
    if "returns m (\<lambda>(r, s'). rest A s' \<and> objects_ok A s' \<and> Q r s')" for m Q
    using that by (auto elim!: returns_mono)
  have here': "aside {} s s" "aside UNIV s s" by simp_all
  show ?thesis
  proof (cases c)
    case CYield
    then show ?thesis
      using call [OF time_calls_rest(1) [OF k(1,2)] aside_calls(1) [OF here'(1)]] by simp
  next
    case (CDelay n)
    then show ?thesis
      using call [OF time_calls_rest(2) [OF k(1,2)] aside_calls(2) [OF here'(1)]] by simp
  next
    case (CDelayUntil p n)
    then show ?thesis
      using call [OF time_calls_rest(3) [OF k(1,2)] aside_calls(3) [OF here'(1)]] by simp
  next
    case (CTake m n)
    then show ?thesis
      using call [OF weak [OF osSemaphoreTake_rest [OF k(1,2) refl]] aside_semaphores(1) [OF here'(1)]] by simp
  next
    case (CGive m)
    then show ?thesis
      using call [OF weak [OF osSemaphoreGive_rest [OF k(1,2)]] aside_osSemaphoreGive [OF here'(1)]] by simp
  next
    case (CTryLock m n)
    then show ?thesis
      using call [OF weak [OF osMutexTryLock_rest [OF k(1,2) refl]] aside_osMutexTryLock [OF here'(1)]] by simp
  next
    case (CUnlock m)
    then show ?thesis
      using call [OF weak [OF osMutexUnlock_rest [OF k(1,2)]] aside_osMutexUnlock [OF here'(1)]] by simp
  next
    case (CEventWait e f p n)
    then show ?thesis
      using call [OF weak [OF osEventWait_rest [OF k(1,2) refl refl]]
          aside_osEventWait [OF here'(1) running_waits_for_nothing [OF k(1)]]] by simp
  next
    case (CEventSet e f)
    then show ?thesis
      using call [OF weak [OF osEventSet_rest [OF k(1,2)]] aside_osEventSet [OF here'(1)]] by simp
  next
    case (CEventClear e f)
    have "returns (Some (Returned VVoid, osEventClear e f s)) (\<lambda>(r, s'). rest A s' \<and> objects_ok A s')"
      using osEventClear_rest [OF k(1,2)] by simp
    from call [OF this] CEventClear aside_events(2) [OF here'(1)] show ?thesis by simp
  next
    case (CSend q item n)
    then show ?thesis
      using queue [OF queue_calls_ok(1) [OF k(1-3)] aside_queue_sends(1) [OF here'(2)]] c by simp
  next
    case (CReceive q item n)
    then show ?thesis
      using queue [OF queue_calls_ok(2) [OF k(1-3)] aside_queue_sends(2) [OF here'(2)]] c by simp
  next
    case (CSuspend t)
    then show ?thesis
      using call [OF task_calls_rest(1) [OF k(1,2)] aside_tasks(1) [OF here'(1)]] c by simp
  next
    case (CResume t)
    then show ?thesis
      using call [OF weak [OF osTaskResume_rest [OF k(1,2)]] aside_tasks(2) [OF here'(1)]] c by simp
  next
    case (CSetPriority t p)
    then show ?thesis
      using call [OF weak [OF osTaskSetPriority_rest [OF k(1,2) refl]] aside_tasks(3) [OF here'(1)]] c by simp
  next
    case (CDelete t)
    then show ?thesis
      using call [OF task_calls_rest(2) [OF k(1,2)] aside_osTaskDelete [OF here'(1)]] c by simp
  qed
qed

section \<open>Back in a call\<close>

lemma system_ok_taken: "system_ok A s \<Longrightarrow> system_ok A (taken (osCurrentTask s) s)"
proof -
  assume s: "system_ok A s"
  have "rest A (taken (osCurrentTask s) s)"
    using system_okD(1) [OF s] unfolding rest_def taken_def kernel_inv_cont by simp
  then show ?thesis
    using s timers_ok_cong [of s "taken (osCurrentTask s) s"]
    by (simp add: system_ok_def taken_def objects_ok_def queues_apart_def harmless_def)
qed

lemma kont_ok:
  assumes s: "system_ok A s"
  shows "returns (run_kont k s) (\<lambda>(r, s'). system_ok A s')"
proof -
  note ok = system_okD(1,2) [OF s]
  have sched: "returns (leave (osCurrentTask s) k' (\<lambda>_ s. Some (Returned v, s)) (osSchedule 0 s)) (\<lambda>(r, s'). system_ok A s')" for k' v
    by (rule system_ok_call [OF s schedule_rest_ok [OF ok]]) (auto intro!: untouched)
  have "returns (osMutexTryLock_end m b s) (\<lambda>(r, s'). system_ok A s')" for m b
    by (rule system_ok_call [OF s])
      (use osMutexTryLock_end_rest [OF ok, of m b] in \<open>auto intro!: untouched elim!: returns_mono\<close>)
  then show ?thesis
    using s sched by (cases k) (simp_all add: run_kont_def Let_def osQueue_end_def osTaskDelete_end_def)
qed

section \<open>Interrupts\<close>

fun allowed_isr :: "addr set \<Rightarrow> kernel \<Rightarrow> isr \<Rightarrow> bool" where
  "allowed_isr A s (IQueueSend q item) \<longleftrightarrow> message_room A s q item"
| "allowed_isr A s (IQueueReceive q item) \<longleftrightarrow> message_room A s q item"
| "allowed_isr A s (IResume t) \<longleftrightarrow> t \<in> A"
| "allowed_isr A s _ \<longleftrightarrow> True"

fun handler_ok :: "addr set \<Rightarrow> kernel \<Rightarrow> isr list \<Rightarrow> bool" where
  "handler_ok A s [] \<longleftrightarrow> True"
| "handler_ok A s (i # is) \<longleftrightarrow>
     allowed_isr A s i \<and> (case isr_call i s of None \<Rightarrow> True | Some s' \<Rightarrow> handler_ok A s' is)"

lemma isr_call_ok:
  assumes s: "system_ok A s" and i: "allowed_isr A s i"
  shows "returns (isr_call i s) (\<lambda>s'. system_ok A s' \<and> osCurrentTask s' = osCurrentTask s)"
proof -
  note k = system_okD [OF s] and isr = system_ok_isr [OF s]
  have weak: "returns m (\<lambda>s'. rest A s' \<and> objects_ok A s' \<and> osCurrentTask s' = osCurrentTask s)"
    if "returns m (\<lambda>s'. rest A s' \<and> objects_ok A s' \<and> osCurrentTask s' = osCurrentTask s \<and> Q s')" for m Q
    using that by (auto elim!: returns_mono)
  have queue: "returns (map_option snd m) (\<lambda>s'. system_ok A s' \<and> osCurrentTask s' = osCurrentTask s)"
    if "returns m (\<lambda>(r, s'). rest A s' \<and> objects_ok A s' \<and> queues_apart A s' \<and> osCurrentTask s' = osCurrentTask s)"
      "holds m (asides UNIV s)" for m :: res
    using that k(4) aside_timers by (cases m) (auto simp: system_ok_def)
  have here': "aside {} s s" "aside UNIV s s" by simp_all
  show ?thesis
  proof (cases i)
    case (IGive m)
    then show ?thesis
      using isr [OF weak [OF osSemaphoreGiveFromISR_rest [OF k(1,2)]] aside_semaphores(2) [OF here'(1)]] by simp
  next
    case (IEventSet e f)
    then show ?thesis
      using isr [OF weak [OF osEventSetFromISR_rest [OF k(1,2)]] aside_events(1) [OF here'(1)]] by simp
  next
    case (IResume t)
    then show ?thesis
      using isr [OF weak [OF osTaskResumeFromISR_rest [OF k(1,2)]] aside_osTaskResumeFromISR [OF here'(1)]] i by simp
  next
    case (IQueueSend q item)
    then show ?thesis
      using queue [OF queue_calls_ok(3) [OF k(1-3)]] aside_queues_calls(1) [OF here'(2)] i
      by (simp add: osQueueSendFromISR_def)
  next
    case (IQueueReceive q item)
    then show ?thesis
      using queue [OF queue_calls_ok(4) [OF k(1-3)]] aside_queues_calls(2) [OF here'(2)] i
      by (simp add: osQueueReceiveFromISR_def)
  qed
qed

lemma isr_calls_ok:
  "system_ok A s \<Longrightarrow> handler_ok A s is \<Longrightarrow> returns (isr_calls is s) (system_ok A)"
proof (induction "is" arbitrary: s)
  case (Cons i "is")
  then have "returns (isr_call i s) (system_ok A)" using isr_call_ok [of A s i] by (auto elim!: returns_mono)
  then show ?case using Cons by (auto simp: returns_iff)
qed simp

lemma handler_returns:
  assumes "system_ok A s" and "handler_ok A s is"
  shows "returns (OS_ISR is s) (\<lambda>(r, s'). system_ok A s')"
  unfolding OS_ISR_def returns_bind
proof (rule returns_mono [OF isr_calls_ok [OF assms]])
  fix s1 assume s1: "system_ok A s1"
  show "returns (leave (osCurrentTask s1) (KReturn VVoid) (\<lambda>_ s. Some (Returned VVoid, s)) (osSchedule 0 s1))
      (\<lambda>(r, s'). system_ok A s')"
    by (rule system_ok_call [OF s1 schedule_rest_ok [OF system_okD(1,2) [OF s1]]]) (auto intro!: untouched)
qed

lemma tick_ok_system:
  assumes "system_ok A s" and "keeps_kernel A fire"
  shows "returns (tick_interrupt fire s) (\<lambda>(r, s'). system_ok A s')"
  using osTickHandler_rest [OF system_okD [OF assms(1)] assms(2)]
  by (auto simp: system_ok_def elim!: returns_mono)

section \<open>The step relation\<close>

text \<open>A task stores bytes in memory of its own.\<close>

primrec poke :: "addr \<Rightarrow> u8 list \<Rightarrow> (addr \<Rightarrow> u8) \<Rightarrow> addr \<Rightarrow> u8" where
  "poke p [] r = r"
| "poke p (b # bs) r = poke (p + 1) bs (r(p := b))"

lemma poke_other: "x \<notin> region p (length bs) \<Longrightarrow> poke p bs r x = r x"
  by (induction bs arbitrary: p r) (auto simp: region_Suc)

lemma poke_ok:
  assumes s: "system_ok A s" and p: "harmless A s (region p (length bs))"
  shows "system_ok A (ram_upd (poke p bs) s)"
proof -
  have "rest A (ram_upd (poke p bs) s)"
    by (rule rest_ram_upd [OF system_okD(1) [OF s] p]) (rule poke_other)
  moreover have "queues_apart A (ram_upd (poke p bs) s)" "timers_ok (ram_upd (poke p bs) s)"
    using aside_queues [of s "ram_upd (poke p bs) s" A] aside_timers [of "{}" s "ram_upd (poke p bs) s"] system_okD [OF s]
    by simp_all
  ultimately show ?thesis using system_okD(2) [OF s] by (simp add: system_ok_def)
qed


datatype action =
    Call call
  | Back
  | Interrupt "isr list"
  | Tick
  | Write addr "u8 list"

inductive step :: "callback \<Rightarrow> addr set \<Rightarrow> action \<Rightarrow> kernel \<Rightarrow> kernel \<Rightarrow> bool" for fire A where
  step_call: "cont s (osCurrentTask s) = None \<Longrightarrow> allowed A s c \<Longrightarrow> do_call c s = Some (r, s') \<Longrightarrow>
    step fire A (Call c) s s'"
| step_back: "cont s (osCurrentTask s) = Some k \<Longrightarrow> run_kont k (taken (osCurrentTask s) s) = Some (r, s') \<Longrightarrow>
    step fire A Back s s'"
| step_interrupt: "cont s (osCurrentTask s) = None \<Longrightarrow> handler_ok A s is \<Longrightarrow> OS_ISR is s = Some (r, s') \<Longrightarrow>
    step fire A (Interrupt is) s s'"
| step_tick: "cont s (osCurrentTask s) = None \<Longrightarrow> tick_interrupt fire s = Some (r, s') \<Longrightarrow> step fire A Tick s s'"
| step_write: "cont s (osCurrentTask s) = None \<Longrightarrow> harmless A s (region p (length bs)) \<Longrightarrow>
    step fire A (Write p bs) s (ram_upd (poke p bs) s)"

inductive_cases stepE: "step fire A a s s'"

inductive_simps step_Call: "step fire A (Call c) s s'"
inductive_simps step_Back: "step fire A Back s s'"
inductive_simps step_Interrupt: "step fire A (Interrupt is) s s'"
inductive_simps step_Tick: "step fire A Tick s s'"
inductive_simps step_Write: "step fire A (Write p bs) s s'"

definition moves :: "callback \<Rightarrow> addr set \<Rightarrow> kernel \<Rightarrow> kernel \<Rightarrow> bool" where
  "moves fire A s s' \<longleftrightarrow> (\<exists>a. step fire A a s s')"

lemma step_ok:
  assumes "step fire A a s s'" and "system_ok A s" and "keeps_kernel A fire"
  shows "system_ok A s'"
  using assms(1)
proof (rule stepE)
  fix c r assume "allowed A s c" "do_call c s = Some (r, s')"
  then show ?thesis using call_ok [OF assms(2)] by (fastforce simp: returns_iff)
next
  fix k r assume "run_kont k (taken (osCurrentTask s) s) = Some (r, s')"
  then show ?thesis using kont_ok [OF system_ok_taken [OF assms(2)], of k] by (simp add: returns_iff)
next
  fix "is" r assume "handler_ok A s is" "OS_ISR is s = Some (r, s')"
  then show ?thesis using handler_returns [OF assms(2)] by (fastforce simp: returns_iff)
next
  fix r assume "tick_interrupt fire s = Some (r, s')"
  then show ?thesis using tick_ok_system [OF assms(2,3)] by (simp add: returns_iff)
next
  fix p bs assume "s' = ram_upd (poke p bs) s" "harmless A s (region p (length bs))"
  then show ?thesis using poke_ok [OF assms(2)] by simp
qed

lemma moves_ok:
  assumes "(moves fire A)\<^sup>*\<^sup>* s s'" and "system_ok A s" and "keeps_kernel A fire"
  shows "system_ok A s'"
  using assms(1,2) by (induction rule: rtranclp_induct) (auto simp: moves_def intro: step_ok [OF _ _ assms(3)])

text \<open>Whatever may be done next comes to an end.\<close>

lemma steps_exist:
  assumes "system_ok A s"
  shows "cont s (osCurrentTask s) = None \<Longrightarrow> allowed A s c \<Longrightarrow> \<exists>s'. step fire A (Call c) s s'"
    and "cont s (osCurrentTask s) = Some k \<Longrightarrow> \<exists>s'. step fire A Back s s'"
    and "cont s (osCurrentTask s) = None \<Longrightarrow> handler_ok A s is \<Longrightarrow> \<exists>s'. step fire A (Interrupt is) s s'"
    and "cont s (osCurrentTask s) = None \<Longrightarrow> keeps_kernel A fire \<Longrightarrow> \<exists>s'. step fire A Tick s s'"
    and "cont s (osCurrentTask s) = None \<Longrightarrow> harmless A s (region p (length bs)) \<Longrightarrow> \<exists>s'. step fire A (Write p bs) s s'"
  using call_ok [OF assms, of c] kont_ok [OF system_ok_taken [OF assms], of k] handler_returns [OF assms, of "is"]
    tick_ok_system [OF assms, of fire]
  by (auto simp: returns_iff step_Call step_Back step_Interrupt step_Tick step_Write)

end
