(* ===== verification/Preemption.thy ===== *)
theory Preemption
  imports Reachable
begin

text \<open>
  Preemption: with every step of the system the most important task that is ready runs. What a
  call that has returned to its task has changed does not make another task more important.
\<close>

section \<open>Calls that return to the running task\<close>

text \<open>
  Nobody has become ready, or more important, and the running task is what it was.
\<close>

definition no_rival :: "addr set \<Rightarrow> kernel \<Rightarrow> kernel \<Rightarrow> bool" where
  "no_rival A s s' \<longleftrightarrow>
     osCurrentTask s' = osCurrentTask s \<and>
     priority (tasks s (osCurrentTask s)) \<le> priority (tasks s' (osCurrentTask s)) \<and>
     (\<forall>t \<in> A. state (tasks s' t) = OS_TASK_READY \<longrightarrow>
        state (tasks s t) = OS_TASK_READY \<and>
        (priority (tasks s' t) \<le> priority (tasks s t) \<or>
         priority (tasks s' t) \<le> priority (tasks s (osCurrentTask s))))"

lemma no_rival_top: "no_rival A s s' \<Longrightarrow> top_runs A s \<Longrightarrow> top_runs A s'"
  unfolding no_rival_def top_runs_def by fastforce

lemma no_rival_same:
  "osCurrentTask s' = osCurrentTask s \<Longrightarrow> (\<And>t. state (tasks s' t) = state (tasks s t)) \<Longrightarrow>
     (\<And>t. priority (tasks s' t) = priority (tasks s t)) \<Longrightarrow> no_rival A s s'"
  by (simp add: no_rival_def)

text \<open>The other outcome: somebody else has got the processor, or the scheduler has been asked.\<close>

definition top_after :: "addr set \<Rightarrow> kernel \<Rightarrow> res \<Rightarrow> bool" where
  "top_after A s m \<longleftrightarrow> returns m (\<lambda>(r, s'). top_runs A s \<longrightarrow> top_runs A s')"

lemma top_afterI: "returns m (\<lambda>(r, s'). no_rival A s s' \<or> top_runs A s') \<Longrightarrow> top_after A s m"
  unfolding top_after_def by (auto elim!: returns_mono dest: no_rival_top)

lemma top_after_top: "returns m (\<lambda>(r, s'). P r s' \<and> top_runs A s') \<Longrightarrow> top_after A s m"
  unfolding top_after_def by (auto elim!: returns_mono)

lemma top_after_same: "top_after A s (Some (r, s))"
  by (simp add: top_after_def)

section \<open>Waiting that the idle task may not do\<close>

text \<open>The task that gave up a mutex sees to it that the owner is no longer raised.\<close>

lemma osMutexTryLock_end_top:
  assumes r: "rest A s" and m: "b \<or> owner (mutexes s m) \<noteq> Some (osCurrentTask s)"
  shows "returns (osMutexTryLock_end m b s) (\<lambda>(r, s'). no_rival A s s')"
proof (cases "b \<or> owner (mutexes s m) = None")
  case True
  then show ?thesis by (auto simp: osMutexTryLock_end_def no_rival_def)
next
  case False
  then obtain t where t: "owner (mutexes s m) = Some t" and b: "\<not> b" by auto
  from r obtain L TL OL where K: "kernel_inv L TL OL A s" by (auto simp: rest_def)
  have R: "repr L TL s" and own: "owners {} L OL A s"
    using K by (simp_all add: kernel_inv_def data_inv_def)
  have tA: "t \<in> A" "state (tasks s t) \<noteq> OS_TASK_DEAD" and "chain (ord s) NextOwned (OwnedBy t) (OL t)"
    using own t unfolding owners_def by auto
  then have p: "osInheritedPriority t s = Some (inherited L (OL t) s t)"
    by (intro osInheritedPriority_spec [OF R])
  define q where "q = inherited L (OL t) s t"
  have "no_rival A s s'" if "data_eq (set_priority t q s) s'" "q \<le> priority (tasks s t)" for s'
    using that m b t by (auto simp: no_rival_def data_eqD [OF that(1)])
  moreover have "no_rival A s s" by (rule no_rival_same) simp_all
  ultimately show ?thesis
    using lower_rest [OF r K tA q_def] b t p unfolding q_def [symmetric]
    by (auto simp: osMutexTryLock_end_def elim!: returns_mono split: if_splits)
qed

text \<open>Its owner is raised to the priority of the running task, no further.\<close>

lemma osPriorityRaise_no_rival:
  assumes r: "rest A s" and t: "owner (mutexes s m) = Some t"
  shows "returns (osPriorityRaise t (priority (tasks s (osCurrentTask s))) s)
    (\<lambda>s1. rest A s1 \<and> no_rival A s s1 \<and> same_owners s s1 \<and> state (tasks s1 (osCurrentTask s)) = OS_TASK_RUNNING \<and>
       osIdleTask s1 = osIdleTask s)"
proof -
  define c p where "c = osCurrentTask s" and "p = priority (tasks s c)"
  from r obtain L TL OL where K: "kernel_inv L TL OL A s" by (auto simp: rest_def)
  have R: "repr L TL s" and inv: "data_inv {} L TL OL A s" using K by (simp_all add: kernel_inv_def)
  have base: "base_inv L TL OL A s" "bounded A s" "no_inversion L s" using inv by (simp_all add: data_inv_base)
  have tA: "t \<in> A" "state (tasks s t) \<noteq> OS_TASK_DEAD"
    using inv t unfolding data_inv_def owners_def by auto
  have p: "p \<le> OS_PRIORITY_MAX"
    using base(2) rest_current [OF r] by (simp add: bounded_def p_def c_def)
  note raise = osPriorityRaise_inv [OF R base(1) no_inversion_but [OF base(3)] tA p bounded_bounded_but [OF base(2)]]
  show ?thesis
    unfolding c_def [symmetric] p_def [symmetric]
  proof (rule returns_mono [OF raise], elim exE conjE)
    fix s1 L1 assume s1: "repr L1 TL s1" "data_inv {} L1 TL OL A s1" "raised t p L s L1 s1"
    have d: "data_eq (with_priorities (\<lambda>x. priority (tasks s1 x)) s) s1"
      using s1(3) by (simp add: raised_def)
    have K1: "kernel_inv L1 TL OL A s1"
      by (rule kernel_inv_priorities [OF _ _ s1(1,2) d]) (use K in \<open>simp_all add: kernel_inv_def\<close>)
    have cont0: "\<forall>x \<in> A. x \<noteq> osCurrentTask s \<longrightarrow> cont s x \<noteq> None" using r by (simp add: rest_def)
    note r1 = rest_priorities [OF cont0 K1 d] and e = data_eqD [OF d]
    have p1: "priority (tasks s1 x) = priority (tasks s x) \<or> priority (tasks s x) < p \<and> priority (tasks s1 x) = p" for x
      using s1(3) by (simp add: raised_def)
    have "priority (tasks s1 x) \<le> priority (tasks s x) \<or> priority (tasks s1 x) \<le> p" for x
      using p1 [of x] by auto
    moreover have "priority (tasks s c) \<le> priority (tasks s1 c)" using p1 [of c] by auto
    moreover have "state (tasks s1 x) = state (tasks s x)" for x by (simp add: e(6))
    ultimately have "no_rival A s s1" using r1(3) unfolding no_rival_def c_def p_def by simp
    moreover have "state (tasks s1 c) = OS_TASK_RUNNING"
      using current_detached(5) [OF K1] r1(3) by (simp add: c_def)
    ultimately show "rest A s1 \<and> no_rival A s s1 \<and> same_owners s s1 \<and> state (tasks s1 c) = OS_TASK_RUNNING \<and>
        osIdleTask s1 = osIdleTask s"
      using r1 by (simp add: e(25))
  qed
qed

lemma idle_does_not_wait:
  assumes "osCurrentTask s = osIdleTask s" and "state (tasks s (osCurrentTask s)) = OS_TASK_RUNNING"
  shows "osBlock list timeout (set_state (osCurrentTask s) x s) = Some (Returned (VBool False), s)"
proof -
  have "(tasks s (osIdleTask s))\<lparr>state := OS_TASK_RUNNING\<rparr> = tasks s (osIdleTask s)"
    using assms by (cases "tasks s (osIdleTask s)") simp
  then have "set_state (osCurrentTask s) OS_TASK_RUNNING s = s"
    unfolding task_upd_def assms(1) by simp
  then show ?thesis using assms(1) by (simp add: osBlock_def task_upd_def Let_def)
qed

lemma osMutexTryLock_top:
  assumes r: "rest A s" and ok: "objects_ok A s"
    and m: "timeout = OS_NO_WAIT \<or> owner (mutexes s m) \<noteq> Some (osCurrentTask s)"
  shows "top_after A s (osMutexTryLock m timeout s)"
proof (cases "osCurrentTask s = osIdleTask s \<and> owner (mutexes s m) \<noteq> None \<and> timeout \<noteq> OS_NO_WAIT")
  case False
  have "no_rival A s (osMutexOwn m (osCurrentTask s) s)" by (rule no_rival_same) simp_all
  then show ?thesis
    using osMutexTryLock_rest [OF r ok refl, of m timeout] False no_rival_same [of s s A]
    by (intro top_afterI) (auto elim!: returns_mono split: option.splits if_splits)
next
  case True
  then obtain t where t: "owner (mutexes s m) = Some t" and time: "timeout \<noteq> OS_NO_WAIT"
    and c: "osCurrentTask s = osIdleTask s" by auto
  have step: "returns (leave (osCurrentTask s) (KMutexTryLock m) (\<lambda>v. osMutexTryLock_end m (v = VBool True))
      (osBlock (Some (MutexHead m)) timeout (set_state (osCurrentTask s) x s1)))
      (\<lambda>(r, s'). top_runs A s \<longrightarrow> top_runs A s')"
    if s1: "rest A s1" "no_rival A s s1" "same_owners s s1" "state (tasks s1 (osCurrentTask s)) = OS_TASK_RUNNING"
      "osIdleTask s1 = osIdleTask s" for s1 x
  proof -
    have c1: "osCurrentTask s1 = osCurrentTask s" using s1(2) by (simp add: no_rival_def)
    have blk: "osBlock (Some (MutexHead m)) timeout (set_state (osCurrentTask s) x s1) = Some (Returned (VBool False), s1)"
      using idle_does_not_wait [of s1] c c1 s1(4,5) by simp
    have "owner (mutexes s1 m) \<noteq> Some (osCurrentTask s1)"
      using m time s1(3) c1 by (simp add: same_owners_def)
    then show ?thesis
      using osMutexTryLock_end_top [OF s1(1), of False m] s1(2)
      by (auto simp: blk returns_leave elim!: returns_mono dest: no_rival_top)
  qed
  show ?thesis
    using osPriorityRaise_no_rival [OF r t] step t time
    by (auto simp: osMutexTryLock_def top_after_def Let_def elim!: returns_mono)
qed

lemma osEventWait_top:
  assumes r: "rest A s" and ok: "objects_ok A s"
  shows "top_after A s (osEventWait e flags options timeout s)"
proof (cases "osEventMatch (e_flags (events s e)) flags options = 0 \<and> timeout \<noteq> OS_NO_WAIT \<and> osCurrentTask s = osIdleTask s")
  case False
  have "no_rival A s (event_upd e f s)" for f by (rule no_rival_same) simp_all
  then show ?thesis
    using osEventWait_rest [OF r ok refl refl, of e flags options timeout] False no_rival_same [of s s A]
    by (intro top_afterI) (auto elim!: returns_mono split: if_splits)
next
  case True
  have run: "state (tasks s (osCurrentTask s)) = OS_TASK_RUNNING" using rest_current [OF r] by simp
  have "returns (osEventWait e flags options timeout s) (\<lambda>(r, s'). no_rival A s s')"
    using True run by (auto simp: osEventWait_def osBlock_def Let_def no_rival_def returns_leave)
  then show ?thesis by (intro top_afterI) (auto elim!: returns_mono)
qed

section \<open>Every step\<close>

lemma osDelay_top:
  assumes "rest A s" and "objects_ok A s"
  shows "top_after A s (osDelay n s)" and "top_after A s (snd (osDelayUntil p n s))"
proof -
  have blk: "top_after A s (leave (osCurrentTask s) KDelay (\<lambda>_ s. Some (Returned VVoid, s)) (osBlock None n s))"
    if "n \<noteq> 0" for n
    using block_rest_simple [OF assms(1) refl that, of None KDelay]
    by (auto simp: top_after_def returns_leave elim!: returns_mono split: if_splits)
  then show "top_after A s (osDelay n s)"
    using schedule_ok [OF assms, of 1 "KReturn VVoid" VVoid]
    by (auto simp: osDelay_def osYield_def top_after_def elim!: returns_mono)
  have "p + n - osTicks s \<noteq> 0" if "p + n - osTicks s - 1 < n"
  proof
    assume "p + n - osTicks s = 0"
    with that have "- 1 < n" by simp
    then show False using word_order.extremum [of n] by simp
  qed
  then show "top_after A s (snd (osDelayUntil p n s))"
    using blk by (simp add: osDelayUntil_def Let_def top_after_same)
qed

lemma osTaskSuspend_top:
  assumes r: "rest A s" and ok: "objects_ok A s" and t: "task_or_current target s \<in> A"
  shows "top_after A s (osTaskSuspend target s)"
proof -
  let ?t = "task_or_current target s"
  show ?thesis
  proof (cases "?t = osIdleTask s \<or> state (tasks s ?t) = OS_TASK_SUSPENDED \<or> state (tasks s ?t) = OS_TASK_DEAD")
    case True
    then have "osTaskSuspend target s = Some (Returned VVoid, s)"
      unfolding osTaskSuspend_def Let_def using alive_state [OF r t] by auto
    then show ?thesis by (simp add: top_after_same)
  next
    case False
    have "no_rival A s s'" if "data_eq (suspended ?t s) s'" for s'
      using data_eqD(6,7,26) [OF that] by (simp add: no_rival_def suspended_def)
    then show ?thesis
      using osTaskSuspend_rest [OF r ok refl t] False
      by (intro top_afterI) (auto elim!: returns_mono split: if_splits)
  qed
qed

lemma osTaskDelete_top:
  assumes r: "rest A s" and ok: "objects_ok A s" and t: "task_or_current target s \<in> A"
  shows "top_after A s (osTaskDelete target s)"
proof -
  let ?t = "task_or_current target s"
  show ?thesis
  proof (cases "?t = osIdleTask s \<or> state (tasks s ?t) = OS_TASK_DEAD")
    case True
    then have "osTaskDelete target s = Some (Returned VVoid, s)"
      unfolding osTaskDelete_def Let_def using alive_state [OF r t] by auto
    then show ?thesis by (simp add: top_after_same)
  next
    case False
    then show ?thesis
      using osTaskDelete_rest [OF r ok refl t] by (auto simp: top_after_def elim!: returns_mono)
  qed
qed

lemma osMutexUnlock_top:
  assumes "rest A s" and "objects_ok A s"
  shows "top_after A s (osMutexUnlock m s)"
  using osMutexUnlock_rest [OF assms, of m]
  by (auto simp: top_after_def elim!: returns_mono split: if_splits)

lemma osSemaphoreTake_top:
  assumes "rest A s" and "objects_ok A s"
  shows "top_after A s (osSemaphoreTake m n s)"
proof -
  have "no_rival A s (sem_upd m f s)" for f by (rule no_rival_same) simp_all
  then show ?thesis
    using osSemaphoreTake_rest [OF assms refl, of m n] no_rival_same [of s s A]
    by (intro top_afterI) (auto elim!: returns_mono split: if_splits)
qed

lemma queue_calls_top:
  assumes r: "rest A s" and ok: "objects_ok A s" and ap: "queues_apart A s" and room: "message_room A s q item"
  shows "top_after A s (osQueueSend q item n s)" and "top_after A s (osQueueReceive q item n s)"
proof -
  note room = room [unfolded message_room_def Let_def]
  note put = osQueuePut_rest [OF r ok ap refl refl refl, of item q]
    and get = osQueueGet_rest [OF r ok ap refl refl refl, of item q]
  have called: "top_after A s m" if "returns m (\<lambda>(r, s'). queue_called A s')" for m :: res
    using that by (auto simp: top_after_def queue_called_def elim!: returns_mono)
  show "top_after A s (osQueueSend q item n s)"
    unfolding osQueueSend_def by (rule called [OF queue_call [OF put]]) (use room in auto)
  show "top_after A s (osQueueReceive q item n s)"
    unfolding osQueueReceive_def by (rule called [OF queue_call [OF get]]) (use room in auto)
qed

text \<open>
  A task that waits for a mutex it owns itself gives up its own raised priority when the wait
  fails, and the processor only with the next tick.
\<close>

fun relocks :: "action \<Rightarrow> kernel \<Rightarrow> bool" where
  "relocks (Call (CTryLock m n)) s \<longleftrightarrow> n \<noteq> OS_NO_WAIT \<and> owner (mutexes s m) = Some (osCurrentTask s)"
| "relocks (Call _) s \<longleftrightarrow> False"
| "relocks Back s \<longleftrightarrow>
     (case cont s (osCurrentTask s) of
        Some (KMutexTryLock m) \<Rightarrow>
          owner (mutexes s m) = Some (osCurrentTask s) \<and> result (tasks s (osCurrentTask s)) = 0
      | _ \<Rightarrow> False)"
| "relocks _ s \<longleftrightarrow> False"

lemma call_top:
  assumes s: "system_ok A s" and c: "allowed A s c" and no: "\<not> relocks (Call c) s"
  shows "top_after A s (do_call c s)"
proof -
  note k = system_okD [OF s]
  have top: "top_after A s m" if "returns m (\<lambda>(r, s'). rest A s' \<and> objects_ok A s' \<and> top_runs A s' \<and> Q r s')" for m Q
    using that by (auto simp: top_after_def elim!: returns_mono)
  have top': "top_after A s m" if "returns m (\<lambda>(r, s'). rest A s' \<and> objects_ok A s' \<and> top_runs A s')" for m :: res
    using that by (auto simp: top_after_def elim!: returns_mono)
  show ?thesis
  proof (cases c)
    case CYield
    then show ?thesis
      using schedule_ok [OF k(1,2), of 1 "KReturn VVoid" VVoid]
      by (auto simp: osYield_def top_after_def elim!: returns_mono)
  next
    case (CTryLock m n)
    then show ?thesis using osMutexTryLock_top [OF k(1,2), of n m] no by auto
  next
    case (CEventClear e f)
    have "no_rival A s (osEventClear e f s)" by (rule no_rival_same) (simp_all add: osEventClear_def)
    then show ?thesis using CEventClear by (auto simp: top_after_def dest: no_rival_top)
  next
    case (CGive m)
    then show ?thesis using top' [OF osSemaphoreGive_rest [OF k(1,2)]] by simp
  next
    case (CEventSet e f)
    then show ?thesis using top' [OF osEventSet_rest [OF k(1,2)]] by simp
  next
    case (CResume t)
    then show ?thesis using top [OF osTaskResume_rest [OF k(1,2)]] c by simp
  next
    case (CSetPriority t p)
    then show ?thesis using top [OF osTaskSetPriority_rest [OF k(1,2) refl]] c by simp
  next
    case (CSend q item n)
    then show ?thesis using queue_calls_top(1) [OF k(1-3)] c by simp
  next
    case (CReceive q item n)
    then show ?thesis using queue_calls_top(2) [OF k(1-3)] c by simp
  qed (use c osDelay_top [OF k(1,2)] osSemaphoreTake_top [OF k(1,2)] osMutexUnlock_top [OF k(1,2)]
      osEventWait_top [OF k(1,2)] osTaskSuspend_top [OF k(1,2)] osTaskDelete_top [OF k(1,2)] in simp_all)
qed

lemma kont_top:
  assumes s: "system_ok A s" and k: "cont s (osCurrentTask s) = Some k" and no: "\<not> relocks Back s"
  shows "returns (run_kont k (taken (osCurrentTask s) s)) (\<lambda>(r, s'). top_runs A s \<longrightarrow> top_runs A s')"
proof -
  let ?s = "taken (osCurrentTask s) s"
  note ok = system_okD [OF system_ok_taken [OF s]]
  have cur: "osCurrentTask ?s = osCurrentTask s" and same: "top_runs A ?s = top_runs A s"
    by (simp_all add: taken_def top_runs_def)
  have sched: "returns (leave (osCurrentTask ?s) k' (\<lambda>_ s. Some (Returned v, s)) (osSchedule 0 ?s))
      (\<lambda>(r, s'). top_runs A s \<longrightarrow> top_runs A s')" for k' v
    using schedule_ok [OF ok(1,2), of 0 k' v] by (auto elim!: returns_mono)
  have lock: "returns (osMutexTryLock_end m (result (tasks ?s (osCurrentTask ?s)) \<noteq> 0) ?s)
      (\<lambda>(r, s'). top_runs A s \<longrightarrow> top_runs A s')" if "k = KMutexTryLock m" for m
  proof -
    let ?b = "result (tasks ?s (osCurrentTask ?s)) \<noteq> 0"
    have "?b \<or> owner (mutexes ?s m) \<noteq> Some (osCurrentTask ?s)" using no k that by (auto simp: taken_def)
    then show ?thesis
      using osMutexTryLock_end_top [OF ok(1), of ?b m] unfolding same [symmetric]
      by (auto elim!: returns_mono dest: no_rival_top)
  qed
  show ?thesis
    using sched lock by (cases k) (simp_all add: run_kont_def Let_def osQueue_end_def osTaskDelete_end_def same)
qed

lemma handler_top:
  assumes "system_ok A s" and "handler_ok A s is"
  shows "returns (OS_ISR is s) (\<lambda>(r, s'). top_runs A s')"
  unfolding OS_ISR_def returns_bind
proof (rule returns_mono [OF isr_calls_ok [OF assms]])
  fix s1 assume "system_ok A s1"
  then show "returns (leave (osCurrentTask s1) (KReturn VVoid) (\<lambda>_ s. Some (Returned VVoid, s)) (osSchedule 0 s1))
      (\<lambda>(r, s'). top_runs A s')"
    using schedule_ok [of A s1 0 "KReturn VVoid" VVoid] system_okD by (auto elim!: returns_mono)
qed

lemma tick_top:
  assumes "system_ok A s" and "keeps_kernel A fire"
  shows "returns (tick_interrupt fire s) (\<lambda>(r, s'). top_runs A s')"
  using osTickHandler_rest [OF system_okD [OF assms(1)] assms(2)] by (auto elim!: returns_mono)

lemma step_top:
  assumes "step fire A a s s'" and "system_ok A s" and "keeps_kernel A fire" and "\<not> relocks a s" and "top_runs A s"
  shows "top_runs A s'"
  using assms(1)
proof (rule stepE)
  fix c r assume "a = Call c" "allowed A s c" "do_call c s = Some (r, s')"
  then show ?thesis using call_top [OF assms(2)] assms(4,5) by (fastforce simp: top_after_def returns_iff)
next
  fix k r assume "a = Back" "cont s (osCurrentTask s) = Some k" "run_kont k (taken (osCurrentTask s) s) = Some (r, s')"
  then show ?thesis using kont_top [OF assms(2)] assms(4,5) by (fastforce simp: returns_iff)
next
  fix "is" r assume "handler_ok A s is" "OS_ISR is s = Some (r, s')"
  then show ?thesis using handler_top [OF assms(2)] by (fastforce simp: returns_iff)
next
  fix r assume "tick_interrupt fire s = Some (r, s')"
  then show ?thesis using tick_top [OF assms(2,3)] by (simp add: returns_iff)
next
  fix p bs assume "s' = ram_upd (poke p bs) s"
  then show ?thesis using assms(5) by (simp add: top_runs_def)
qed

end
