(* ===== verification/Boot.thy ===== *)
theory Boot
  imports Preemption
begin

text \<open>
  From power on: \<open>osInit\<close>, the objects and tasks that \<open>main\<close> makes, \<open>osRun\<close>, and whatever tasks
  and interrupts do after that. The invariant of the system holds from \<open>osRun\<close> on; before, it
  holds but for the priority of \<open>main\<close>, which nobody may preempt.
\<close>

section \<open>Objects\<close>

datatype making =
    MSemaphore addr u8 u8
  | MMutex addr
  | MEvent addr
  | MQueue addr addr u8 u8

fun make :: "making \<Rightarrow> kernel \<Rightarrow> kernel" where
  "make (MSemaphore m n limit) s = osSemaphoreInit m n limit s"
| "make (MMutex m) s = osMutexInit m s"
| "make (MEvent e) s = osEventInit e s"
| "make (MQueue q buf sz n) s = osQueueInit q buf sz n s"

text \<open>Nobody uses the object, and the buffer of a queue is not where a stack ends.\<close>

definition waited_for :: "addr set \<Rightarrow> kernel \<Rightarrow> head \<Rightarrow> bool" where
  "waited_for A s h \<longleftrightarrow> (\<exists>t \<in> A. waitList (tasks s t) = Some h)"

fun unused :: "addr set \<Rightarrow> kernel \<Rightarrow> making \<Rightarrow> bool" where
  "unused A s (MSemaphore m n limit) \<longleftrightarrow> n \<le> limit \<and> \<not> waited_for A s (SemHead m)"
| "unused A s (MMutex m) \<longleftrightarrow> owner (mutexes s m) = None"
| "unused A s (MEvent e) \<longleftrightarrow> \<not> waited_for A s (EventHead e)"
| "unused A s (MQueue q buf sz n) \<longleftrightarrow>
     harmless A s (region buf (unat n * unat sz)) \<and> \<not> waited_for A s (QueueHead q)"

lemma list_empty:
  assumes "kernel_inv L TL OL A s" and "\<not> waited_for A s h" and "h \<noteq> ReadyHead" and "h \<noteq> DeadHead"
  shows "L h = []" and "rd s (Head h) = None"
proof -
  have pl: "set (L h) \<subseteq> A" "\<forall>t \<in> A. task_placed L TL s t" and R: "repr L TL s"
    using assms(1) by (auto simp: kernel_inv_def data_inv_def placed_def)
  then have "t \<notin> set (L h)" for t
    using assms(2-4) unfolding task_placed_def waited_for_def by blast
  then show "L h = []" by (cases "L h") auto
  then show "rd s (Head h) = None"
    using R unfolding repr_def lists_def by (metis chain.simps(1))
qed

lemma no_waiters:
  assumes K: "kernel_inv L TL OL A s"
  shows "\<not> waited_for A s (SemHead m) \<Longrightarrow> s_waiters (semaphores s m) = None"
    and "\<not> waited_for A s (EventHead e) \<Longrightarrow> e_waiters (events s e) = None"
    and "\<not> waited_for A s (QueueHead q) \<Longrightarrow> q_waiters (queues s q) = None"
    and "owner (mutexes s x) = None \<Longrightarrow> m_waiters (mutexes s x) = None"
proof -
  show "\<not> waited_for A s (SemHead m) \<Longrightarrow> s_waiters (semaphores s m) = None"
    "\<not> waited_for A s (EventHead e) \<Longrightarrow> e_waiters (events s e) = None"
    "\<not> waited_for A s (QueueHead q) \<Longrightarrow> q_waiters (queues s q) = None"
    using list_empty(2) [OF K, of "SemHead m"] list_empty(2) [OF K, of "EventHead e"]
      list_empty(2) [OF K, of "QueueHead q"] by simp_all
  assume free: "owner (mutexes s x) = None"
  have "lists L s" "owners {} L OL A s" using K by (simp_all add: kernel_inv_def repr_def data_inv_def)
  then have "L (MutexHead x) = []" "chain (rd s) Next (Head (MutexHead x)) (L (MutexHead x))"
    using free unfolding owners_def lists_def by blast+
  then show "m_waiters (mutexes s x) = None" by simp
qed

lemma make_same:
  "tasks (make x s) = tasks s" "osCurrentTask (make x s) = osCurrentTask s" "osIdleTask (make x s) = osIdleTask s"
  "ram (make x s) = ram s" "cont (make x s) = cont s" "osTicks (make x s) = osTicks s" "osTimers (make x s) = osTimers s"
  "timers (make x s) = timers s"
  by (cases x; simp add: osSemaphoreInit_def osMutexInit_def osEventInit_def osQueueInit_def)+

lemma make_rest:
  assumes r: "rest A s" and x: "unused A s x"
  shows "rest A (make x s)"
proof -
  from r obtain L TL OL where K: "kernel_inv L TL OL A s" by (auto simp: rest_def)
  then have R: "repr L TL s" and inv: "data_inv {} L TL OL A s" and own: "owners {} L OL A s"
    by (simp_all add: kernel_inv_def data_inv_def)
  have rd: "rd (make x s) = rd s"
  proof
    fix c
    show "rd (make x s) c = rd s c"
      using x list_empty(2) [OF K]
      by (cases "(s, c)" rule: rd.cases; cases x)
        (auto simp: osSemaphoreInit_def osMutexInit_def osEventInit_def osQueueInit_def dest: no_waiters [OF K])
  qed
  show ?thesis
  proof (cases "\<exists>m. x = MMutex m")
    case False
    then have m: "mutexes (make x s) = mutexes s" and tl: "osTimerList (make x s) = osTimerList s"
      by (cases x; simp add: osSemaphoreInit_def osMutexInit_def osEventInit_def osQueueInit_def)+
    have "rest A (make x s) = rest A s"
      by (rule rest_objects) (simp_all add: rd m tl make_same)
    then show ?thesis using r by simp
  next
    case True
    then obtain m where m: "x = MMutex m" and free: "owner (mutexes s m) = None" using x by auto
    let ?s = "osMutexInit m s"
    have eq: "make x s = ?s" by (simp add: m)
    have ord: "ord ?s = (ord s)(NextOwned m := None)"
    proof
      show "ord ?s c = ((ord s)(NextOwned m := None)) c" for c by (cases c) (simp_all add: osMutexInit_def)
    qed
    have same: "owner (mutexes ?s y) = owner (mutexes s y)" for y using free by (simp add: osMutexInit_def)
    have "trd ?s = trd s" by (rule trd_cong) (simp_all add: osMutexInit_def)
    then have "repr L TL ?s" using R repr_cong [OF rd [unfolded eq]] by blast
    moreover have "owners {} L OL A ?s"
    proof -
      have "m \<notin> set (OL t)" for t using own free unfolding owners_def by auto
      then have "chain (ord ?s) NextOwned (OwnedBy t) (OL t)" if "t \<in> A" for t
        using own that unfolding ord owners_def by (auto intro!: chain_upd_other)
      then show ?thesis using own unfolding owners_def same make_same(1) [of x s, unfolded eq] by blast
    qed
    moreover have "no_inversion L ?s"
      using inv unfolding data_inv_def no_inversion_def same make_same(1) [of x s, unfolded eq] by blast
    moreover have "placed {} L TL A ?s" "prio_sorted L ?s" "timed_sorted TL ?s" "bounded A ?s" "idle_ok {} A ?s"
      "canaries A ?s" "not_due TL ?s" "running {osCurrentTask ?s} A ?s"
      using K parts_cong [of ?s s] by (simp_all add: kernel_inv_def data_inv_def osMutexInit_def)
    ultimately have "kernel_inv L TL OL A ?s" using inv make_same(2) [of x s, unfolded eq] by (simp add: kernel_inv_def data_inv_def)
    then show ?thesis using r make_same [of x s] by (auto simp: rest_def eq)
  qed
qed

lemma make_ok:
  assumes s: "system_ok A s" and x: "unused A s x"
  shows "system_ok A (make x s)"
proof -
  note k = system_okD [OF s]
  have "objects_ok A (make x s)"
    using k(2) x unfolding objects_ok_def make_same
    by (cases x) (auto simp: osSemaphoreInit_def osMutexInit_def osEventInit_def osQueueInit_def waited_for_def)
  moreover have "queues_apart A (make x s)"
  proof (cases x)
    case (MQueue q buf sz n)
    then show ?thesis
      using k(3) x unfolding queues_apart_def harmless_def make_same
      by (auto simp: osQueueInit_def waited_for_def buffer_region_def harmless_def)
  qed (use k(3) in \<open>simp_all add: queues_apart_def harmless_def osSemaphoreInit_def osMutexInit_def osEventInit_def\<close>)
  moreover have "timers_ok (make x s)" using k(4) timers_ok_cong [of s "make x s"] by (simp add: make_same)
  ultimately show ?thesis using make_rest [OF k(1) x] by (simp add: system_ok_def)
qed

section \<open>Tasks\<close>

text \<open>Neither a buffer nor the room of a message is in the memory of a new task.\<close>

definition fits :: "addr set \<Rightarrow> kernel \<Rightarrow> addr \<Rightarrow> u16 \<Rightarrow> bool" where
  "fits A s mem len \<longleftrightarrow> fresh A s mem len \<and> \<not> len < OS_TASK_MEMORY OS_STACK_MIN \<and>
     (\<forall>q. mem \<notin> buffer_region (queues s q)) \<and>
     (\<forall>t \<in> A. \<forall>q. waitList (tasks s t) = Some (QueueHead q) \<longrightarrow>
        mem \<notin> region (wait (tasks s t)) (unat (itemSize (queues s q))))"

lemma harmless_insert: "harmless (insert t A) s X \<longleftrightarrow> stack (tasks s t) \<notin> X \<and> harmless A s X"
  by (simp add: harmless_def)

lemma new_task_ok:
  assumes s: "system_ok A s" and f: "fits A s mem len" and t: "t = task_place mem len"
  shows "returns (osReady t (prepared link fn param mem len prio dyn s))
    (\<lambda>s'. system_ok (insert t A) s' \<and> osCurrentTask s' = osCurrentTask s)"
proof -
  note k = system_okD [OF s]
  have len: "83 \<le> unat len" and fr: "fresh A s mem len" using f stack_min by (auto simp: fits_def)
  then have tA: "t \<notin> A" by (simp add: fresh_def t)
  show ?thesis
  proof (rule returns_mono [OF osTaskSetup_ready [OF k(1,2) fr len t]], elim conjE)
    fix s' assume s': "rest (insert t A) s'" "objects_ok (insert t A) s'" "osCurrentTask s' = osCurrentTask s"
      and d: "data_eq (set_state t OS_TASK_READY (prepared link fn param mem len prio dyn s)) s'"
    note e = data_eqD [OF d]
    have old: "stack (tasks s' x) = stack (tasks s x)" "waitList (tasks s' x) = waitList (tasks s x)"
        "wait (tasks s' x) = wait (tasks s x)" if "x \<in> A" for x
      using that tA by (auto simp: e t)
    have new: "stack (tasks s' t) = mem" "waitList (tasks s' t) = None"
      by (simp_all add: e t new_tcb_def zeroed_def)
    have q: "buffer_region (queues s' x) = buffer_region (queues s x)" "itemSize (queues s' x) = itemSize (queues s x)" for x
      by (simp_all add: buffer_region_def e)
    have "harmless A s' X = harmless A s X" for X by (auto simp: harmless_def old)
    then have "queues_apart (insert t A) s'"
      using k(3) f by (auto simp: queues_apart_def fits_def harmless_insert q old new)
    moreover have "same_timers s s'"
      unfolding e(22,27,29) by (simp add: prepared_def case_prod_unfold Let_def ram_upd_def)
    then have "timers_ok s'" using k(4) timers_ok_cong by blast
    ultimately show "system_ok (insert t A) s' \<and> osCurrentTask s' = osCurrentTask s"
      using s' by (simp add: system_ok_def)
  qed
qed

lemma create_ok:
  assumes s: "system_ok A s" and f: "fits A s mem len" and t: "t = task_place mem len"
  shows "returns (osTaskCreate link fn param (Some mem) len prio s)
    (\<lambda>(r, s'). system_ok (insert t A) s' \<and> top_runs (insert t A) s')"
proof -
  have len: "\<not> len < OS_TASK_MEMORY OS_STACK_MIN" using f by (simp add: fits_def)
  show ?thesis
    unfolding osTaskCreate_def osTaskSetup_prepared [OF len t] returns_bind
  proof (rule returns_mono [OF new_task_ok [OF s f t]], elim conjE)
    fix s1 assume s1: "system_ok (insert t A) s1"
    note sched = schedule_ok [OF system_okD(1,2) [OF s1], of 0 "KReturn (VTask (Some t))" "VTask (Some t)"]
    have "returns (leave (osCurrentTask s1) (KReturn (VTask (Some t)))
        (\<lambda>_ s. Some (Returned (VTask (Some t)), s)) (osSchedule 0 s1)) (\<lambda>(r, s'). top_runs (insert t A) s')"
      using sched by (auto elim!: returns_mono)
    moreover have "returns (leave (osCurrentTask s1) (KReturn (VTask (Some t)))
        (\<lambda>_ s. Some (Returned (VTask (Some t)), s)) (osSchedule 0 s1)) (\<lambda>(r, s'). system_ok (insert t A) s')"
      by (rule system_ok_call [OF s1]) (use sched in \<open>auto intro!: untouched elim!: returns_mono\<close>)
    ultimately show "returns (leave (osCurrentTask s1) (KReturn (VTask (Some t)))
        (\<lambda>_ s. Some (Returned (VTask (Some t)), s)) (osSchedule 0 s1))
        (\<lambda>(r, s'). system_ok (insert t A) s' \<and> top_runs (insert t A) s')"
      by (auto simp: returns_iff)
  qed
qed

section \<open>Before the system runs\<close>

text \<open>
  \<open>low\<close> is what \<open>osRun\<close> does to the priority of the idle task, which is \<open>main\<close> until then:
  with priority 255 nobody takes the processor away from it.
\<close>

definition low :: "kernel \<Rightarrow> kernel" where
  "low s = set_basePriority (osIdleTask s) 0 (set_priority (osIdleTask s) 0 s)"

definition booting :: "addr set \<Rightarrow> kernel \<Rightarrow> bool" where
  "booting A s \<longleftrightarrow>
     osCurrentTask s = osIdleTask s \<and> priority (tasks s (osIdleTask s)) = 255 \<and> system_ok A (low s)"

lemma low_simps [simp]:
  "osCurrentTask (low s) = osCurrentTask s" "osIdleTask (low s) = osIdleTask s" "queues (low s) = queues s"
  "stack (tasks (low s) t) = stack (tasks s t)" "waitList (tasks (low s) t) = waitList (tasks s t)"
  "wait (tasks (low s) t) = wait (tasks s t)" "rd (low s) = rd s" "mutexes (low s) = mutexes s"
  "tnext (tasks (low s) t) = tnext (tasks s t)" "ram (low s) = ram s"
  "t \<noteq> osIdleTask s \<Longrightarrow> tasks (low s) t = tasks s t"
  by (simp_all add: low_def)

text \<open>A state differs from its low one in two members of one task.\<close>

lemma low_wr: "wr c v (low s) = low (wr c v s)"
  by (cases "(c, v, s)" rule: wr.cases) (simp_all add: low_def task_upd_def fun_eq_iff)

lemma low_prepared: "task_place mem len \<noteq> osIdleTask s \<Longrightarrow>
    prepared link fn param mem len prio dyn (low s) = low (prepared link fn param mem len prio dyn s)"
  by (simp add: prepared_def case_prod_unfold Let_def low_def save_def ram_upd_def task_upd_def fun_upd_twist)

lemma osReady_low:
  assumes R: "lists L s" and i: "osIdleTask s \<notin> set (L ReadyHead)" and t: "t \<noteq> osIdleTask s"
  shows "osReady t (low s) = map_option low (osReady t s)"
proof -
  let ?u = "set_state t OS_TASK_READY s" and ?k = "priority (tasks s t)"
  have ch: "chain (rd s) Next (Head ReadyHead) (L ReadyHead)" using R by (simp add: lists_def)
  have u: "set_state t OS_TASK_READY (low s) = low ?u" "rd ?u = rd s"
    by (use t in \<open>simp add: low_def task_upd_def fun_upd_twist\<close>, simp)
  have p: "priority (tasks (low ?u) x) = priority (tasks s x)" "priority (tasks ?u x) = priority (tasks s x)"
    if "x \<noteq> osIdleTask s" for x using that by (simp_all add: low_def)
  have q: "priority (tasks (low ?u) x) = priority (tasks ?u x)" if "x \<in> set (L ReadyHead)" for x
  proof -
    have "x \<noteq> osIdleTask s" using i that by auto
    then show ?thesis by (simp add: low_def)
  qed
  have same: "takeWhile (\<lambda>x. ?k \<le> priority (tasks (low ?u) x)) (L ReadyHead) =
      takeWhile (\<lambda>x. ?k \<le> priority (tasks ?u x)) (L ReadyHead)"
    "dropWhile (\<lambda>x. ?k \<le> priority (tasks (low ?u) x)) (L ReadyHead) =
      dropWhile (\<lambda>x. ?k \<le> priority (tasks ?u x)) (L ReadyHead)"
    by (intro takeWhile_cong dropWhile_cong refl, simp only: q)+
  have links: "set_tnext t v (low ?u) = low (set_tnext t v ?u)" for v
    using low_wr [of "Next t" v ?u] by simp
  show ?thesis
    unfolding osReady_def osListInsert_def Let_def u(1)
    by (simp add: p t u(2) walk_chain [OF ch] same links low_wr)
qed

lemma max_u8: "(y :: u8) \<le> 255"
proof -
  have "unat y < 2 ^ LENGTH(8)" by (rule unsigned_less)
  then show ?thesis by (simp add: word_le_nat_alt)
qed

lemma boot_create:
  assumes b: "booting A s" and f: "fits A s mem len" and t: "t = task_place mem len"
  shows "returns (osTaskCreate link fn param (Some mem) len prio s)
    (\<lambda>(r, s'). r = Returned (VTask (Some t)) \<and> booting (insert t A) s')"
proof -
  have len: "\<not> len < OS_TASK_MEMORY OS_STACK_MIN" using f by (simp add: fits_def)
  have s: "system_ok A (low s)" and cur: "osCurrentTask s = osIdleTask s"
    and top: "priority (tasks s (osIdleTask s)) = 255" using b by (simp_all add: booting_def)
  have f': "fits A (low s) mem len" using f by (simp add: fits_def fresh_def harmless_def)
  let ?p = "prepared link fn param mem len prio 0"
  from system_okD(1) [OF s] obtain L TL OL where K: "kernel_inv L TL OL A (low s)" by (auto simp: rest_def)
  have tA: "t \<notin> A" using f by (simp add: fits_def fresh_def t)
  have R: "lists L (?p s)" and out: "t \<notin> set (L h)" and i: "osIdleTask s \<notin> set (L ReadyHead)" and ti: "t \<noteq> osIdleTask s" for h
  proof -
    have o: "t \<notin> set (L h)" "t \<noteq> osIdleTask (low s)" for h
      using outside [of L TL OL A "low s" t] K tA by (simp_all add: kernel_inv_def)
    then show "t \<notin> set (L h)" "t \<noteq> osIdleTask s" for h by simp_all
    show "lists L (?p s)"
      using K o unfolding kernel_inv_def repr_def lists_def prepared_simps low_simps t [symmetric]
      by (auto intro!: chain_upd_other)
    have "absent (osCurrentTask (low s)) L TL" by (rule current_detached(2) [OF K])
    then show "osIdleTask s \<notin> set (L ReadyHead)" using cur by (simp add: absent_def)
  qed
  have ready: "osReady t (?p (low s)) = map_option low (osReady t (?p s))"
    using osReady_low [OF R] i ti t low_prepared [of mem len s] by simp
  from new_task_ok [OF s f' t, of link fn param prio 0] ready
  obtain s1 where s1: "osReady t (?p s) = Some s1" "system_ok (insert t A) (low s1)" "osCurrentTask s1 = osIdleTask s"
    using cur by (auto simp: returns_iff)
  define x where "x = set_state t OS_TASK_READY (?p s)"
  have "lists L x" using R by (simp add: x_def)
  from osListInsert_spec [OF this out, of ReadyHead "priority (tasks x t)"] s1(1)
  have "relinked x s1" by (simp add: osReady_def returns_iff x_def)
  moreover have "osIdleTask x = osIdleTask s" "priority (tasks x (osIdleTask s)) = 255"
    using top ti t by (simp_all add: x_def)
  ultimately have s1': "osIdleTask s1 = osIdleTask s" "priority (tasks s1 (osIdleTask s)) = 255"
    by (simp_all add: relinked_def)
  have "\<not> osScheduleNeeded 0 s1"
    using s1(3) s1'(2) max_u8
    by (auto simp: osScheduleNeeded_def not_less split: option.splits)
  then have "osTaskCreate link fn param (Some mem) len prio s = Some (Returned (VTask (Some t)), s1)"
    by (simp add: osTaskCreate_def osTaskSetup_prepared [OF len t] s1(1) osSchedule_def leave_def)
  moreover have "booting (insert t A) s1" using s1 s1' by (simp add: booting_def)
  ultimately show ?thesis by simp
qed

lemma boot_make:
  assumes "booting A s" and "unused A s x"
  shows "booting A (make x s)"
proof -
  have "unused A (low s) x" using assms(2) by (cases x) (auto simp: waited_for_def harmless_def)
  then have "system_ok A (make x (low s))" using assms(1) make_ok by (simp add: booting_def)
  moreover have "make x (low s) = low (make x s)"
    by (cases x) (simp_all add: low_def osSemaphoreInit_def osMutexInit_def osEventInit_def osQueueInit_def task_upd_def
        sem_upd_def mutex_upd_def event_upd_def queue_upd_def)
  ultimately show ?thesis using assms(1) by (simp add: booting_def make_same)
qed

lemma osRun_ok:
  assumes "booting A s"
  shows "returns (osRun s) (\<lambda>(r, s'). system_ok A s' \<and> top_runs A s')"
proof -
  have s: "system_ok A (low s)" using assms by (simp add: booting_def)
  note sched = schedule_ok [OF system_okD(1,2) [OF s], of 0 "KReturn VVoid" VVoid]
  have run: "osRun s = leave (osCurrentTask (low s)) (KReturn VVoid) (\<lambda>_ s. Some (Returned VVoid, s)) (osSchedule 0 (low s))"
    by (simp add: osRun_def low_def Let_def)
  have "returns (osRun s) (\<lambda>(r, s'). system_ok A s')"
    unfolding run by (rule system_ok_call [OF s]) (use sched in \<open>auto intro!: untouched elim!: returns_mono\<close>)
  moreover have "returns (osRun s) (\<lambda>(r, s'). top_runs A s')"
    unfolding run using sched by (auto elim!: returns_mono)
  ultimately show ?thesis by (auto simp: returns_iff)
qed

section \<open>Power on\<close>

text \<open>The variables of the kernel are zero, no task or timer is on a list, nobody is in a call.\<close>

definition power_on :: "kernel \<Rightarrow> bool" where
  "power_on s \<longleftrightarrow>
     (\<forall>t. tasks s t = zeroed) \<and>
     (\<forall>m. mutexes s m = \<lparr>m_waiters = None, owner = None, nextOwned = None\<rparr>) \<and>
     (\<forall>m. semaphores s m = \<lparr>s_waiters = None, s_count = 0, s_limit = 0\<rparr>) \<and>
     (\<forall>q. queues s q = \<lparr>q_waiters = None, buffer = 0, itemSize = 0, q_length = 0, q_count = 0, q_head = 0\<rparr>) \<and>
     (\<forall>e. events s e = \<lparr>e_waiters = None, e_flags = 0\<rparr>) \<and>
     osReadyList s = None \<and> osTimerList s = None \<and> osDeadList s = None \<and> osTimers s = None \<and>
     (\<forall>t. cont s t = None)"

lemma osInit_ok:
  assumes p: "power_on s" and stk: "stk = (if 0x2100 < heap_start then heap_start else 0x2100)" "stk < spr - 16"
  shows "booting {osIdleTask s} (osInit heap_start spr s)"
proof -
  let ?i = "osIdleTask s" and ?s = "osInit heap_start spr s" and ?n = "unat (spr - 16) - unat stk"
  have stk': "(if RAMEND + 1 - OS_CFG_MAIN_STACK_SIZE < heap_start then heap_start
      else RAMEND + 1 - OS_CFG_MAIN_STACK_SIZE) = stk"
    by (simp add: stk)
  have eq: "?s = (set_basePriority ?i 255 (set_priority ?i 255 (set_state ?i OS_TASK_RUNNING
      (ram_upd (memset ?n stk OS_STACK_FILL) (task_upd ?i (stack_update (\<lambda>_. stk)) s)))))\<lparr>osCurrentTask := ?i\<rparr>"
    unfolding osInit_def Let_def stk' by simp
  note zero = p [unfolded power_on_def]
  let ?l = "low ?s"
  have simps: "osCurrentTask ?s = ?i" "osIdleTask ?s = ?i" "priority (tasks ?s ?i) = 255"
    by (simp_all add: eq)
  have idle: "stack (tasks ?l ?i) = stk" "state (tasks ?l ?i) = OS_TASK_RUNNING" "priority (tasks ?l ?i) = 0"
      "basePriority (tasks ?l ?i) = 0" "waitList (tasks ?l ?i) = None"
    using zero by (simp_all add: eq low_def zeroed_def)
  note idle = idle idle [unfolded low_simps]
  have none: "rd ?l (Head h) = None" "trd ?l TimerHead = None" "ord ?l (OwnedBy t) = None" "owner (mutexes ?l m) = None" for h t m
  proof -
    show "rd ?l (Head h) = None" using zero by (cases h) (simp_all add: eq low_def)
    show "trd ?l TimerHead = None" "ord ?l (OwnedBy t) = None" "owner (mutexes ?l m) = None"
      using zero by (simp_all add: eq low_def zeroed_def)
  qed
  have ram: "ram ?l stk = OS_STACK_FILL"
  proof -
    have lt: "unat stk < unat (spr - 16)" using stk(2) by (simp add: word_less_nat_alt)
    then have "stk \<in> region stk ?n" by (auto simp: region_def intro!: exI [of _ 0])
    moreover have "?n \<le> 65536"
    proof -
      have "unat (spr - 16) < 2 ^ LENGTH(16)" by (rule unsigned_less)
      then show ?thesis by simp
    qed
    ultimately show ?thesis by (simp add: eq low_def ram_upd_def memset_set)
  qed
  note ram = ram ram [unfolded low_simps]
  have "repr (\<lambda>_. []) [] ?l" using none(1,2) by (simp add: repr_def lists_def timer_list_def)
  moreover have "placed {} (\<lambda>_. []) [] {?i} ?l" by (simp add: placed_def task_placed_def idle valid_states_def)
  moreover have "owners {} (\<lambda>_. []) (\<lambda>_. []) {?i} ?l" using none(3,4) by (simp add: owners_def)
  moreover have "prio_sorted (\<lambda>_. []) ?l" "timed_sorted [] ?l" "no_inversion (\<lambda>_. []) ?l" "not_due [] ?l"
    by (simp_all add: prio_sorted_def timed_sorted_def no_inversion_def not_due_def)
  moreover have "bounded {?i} ?l" "idle_ok {} {?i} ?l" "canaries {?i} ?l" "running {?i} {?i} ?l"
    by (simp_all add: bounded_def idle_ok_def canaries_def running_def idle ram simps)
  ultimately have "kernel_inv (\<lambda>_. []) [] (\<lambda>_. []) {?i} ?l"
    by (simp add: kernel_inv_def data_inv_def simps)
  then have "rest {?i} ?l" by (auto simp: rest_def simps)
  moreover have q: "queues ?s = queues s" "semaphores ?l = semaphores s" by (simp_all add: eq low_def)
  have "objects_ok {?i} ?l" using zero by (simp add: objects_ok_def idle q)
  moreover have "queues_apart {?i} ?l"
    using zero by (simp add: queues_apart_def idle q buffer_region_def region_def harmless_def)
  moreover have "timers_ok ?l"
    unfolding timers_ok_def
    by (rule exI [of _ "[]"]) (use zero in \<open>simp add: timer_chain_def timers_sorted_def eq low_def\<close>)
  ultimately show ?thesis by (simp add: booting_def system_ok_def simps)
qed

section \<open>What is reachable\<close>

text \<open>
  \<open>boots\<close> is what \<open>main\<close> may do up to \<open>osRun\<close>, \<open>reachable\<close> what comes after it: steps of the
  running task and of interrupts, new objects and new tasks. The set is the tasks there are,
  \<open>P\<close> says which steps the application takes.
\<close>

inductive boots :: "addr set \<Rightarrow> kernel \<Rightarrow> bool" where
  boots_init: "power_on s \<Longrightarrow> (if 0x2100 < heap_start then heap_start else 0x2100) < spr - 16 \<Longrightarrow>
    boots {osIdleTask s} (osInit heap_start spr s)"
| boots_make: "boots A s \<Longrightarrow> unused A s x \<Longrightarrow> boots A (make x s)"
| boots_create: "boots A s \<Longrightarrow> fits A s mem len \<Longrightarrow>
    osTaskCreate link fn param (Some mem) len prio s = Some (r, s') \<Longrightarrow> boots (insert (task_place mem len) A) s'"

inductive reachable :: "callback \<Rightarrow> (action \<Rightarrow> kernel \<Rightarrow> bool) \<Rightarrow> addr set \<Rightarrow> kernel \<Rightarrow> bool" for fire P where
  reach_run: "boots A s \<Longrightarrow> osRun s = Some (r, s') \<Longrightarrow> reachable fire P A s'"
| reach_step: "reachable fire P A s \<Longrightarrow> step fire A a s s' \<Longrightarrow> P a s \<Longrightarrow> reachable fire P A s'"
| reach_make: "reachable fire P A s \<Longrightarrow> cont s (osCurrentTask s) = None \<Longrightarrow> unused A s x \<Longrightarrow>
    reachable fire P A (make x s)"
| reach_create: "reachable fire P A s \<Longrightarrow> cont s (osCurrentTask s) = None \<Longrightarrow> fits A s mem len \<Longrightarrow>
    osTaskCreate link fn param (Some mem) len prio s = Some (r, s') \<Longrightarrow>
    reachable fire P (insert (task_place mem len) A) s'"

lemma boots_ok: "boots A s \<Longrightarrow> booting A s"
proof (induction rule: boots.induct)
  case (boots_init s heap_start spr)
  then show ?case using osInit_ok [OF _ refl] by blast
next
  case (boots_make A s x)
  then show ?case by (blast intro: boot_make)
next
  case (boots_create A s mem len link fn param prio r s')
  then show ?case using boot_create [OF _ _ refl, of A s mem len link fn param prio] by (auto simp: returns_iff)
qed

lemma reachable_ok:
  assumes "reachable fire P A s" and "\<And>A. keeps_kernel A fire"
  shows "system_ok A s"
  using assms(1)
proof (induction rule: reachable.induct)
  case (reach_run A s r s')
  then show ?case using osRun_ok [OF boots_ok] by (fastforce simp: returns_iff)
next
  case (reach_step A s a s')
  then show ?case using step_ok assms(2) by blast
next
  case (reach_make A s x)
  then show ?case by (simp add: make_ok)
next
  case (reach_create A s mem len link fn param prio r s')
  then show ?case using create_ok [OF _ _ refl, of A s mem len link fn param prio] by (auto simp: returns_iff)
qed

lemma reachable_top:
  assumes "reachable fire P A s" and "\<And>A. keeps_kernel A fire" and "\<And>a s. P a s \<Longrightarrow> \<not> relocks a s"
  shows "top_runs A s"
  using assms(1)
proof (induction rule: reachable.induct)
  case (reach_run A s r s')
  then show ?case using osRun_ok [OF boots_ok] by (fastforce simp: returns_iff)
next
  case (reach_step A s a s')
  then show ?case using step_top reachable_ok assms(2,3) by blast
next
  case (reach_make A s x)
  then show ?case by (simp add: top_runs_def make_same)
next
  case (reach_create A s mem len link fn param prio r s')
  then show ?case
    using create_ok [OF reachable_ok [OF reach_create.hyps(1) assms(2)] reach_create.hyps(3) refl,
        of link fn param prio] by (auto simp: returns_iff)
qed

end
