(* ===== verification/Lock_Frames.thy ===== *)
theory Lock_Frames
  imports Boot
begin

text \<open>
  Who waits for a mutex, and who owns one, through the calls of the kernel, the handlers of
  interrupts and the tick: a task that waits for a mutex goes on waiting, or is told that it
  has not got it, or owns it; and nobody loses a mutex but by giving it back or by its end.
\<close>

section \<open>Waiting for a mutex\<close>

text \<open>
  A task in a call of \<open>osMutexTryLock\<close>: it is waiting for the mutex, or it waits no longer, and
  then it has been told that it has got the mutex exactly if it is the owner. Only the tasks in
  \<open>F\<close> may fail to get it, only they wait with a timeout.
\<close>

definition fine :: "addr set \<Rightarrow> addr \<Rightarrow> addr \<Rightarrow> kernel \<Rightarrow> bool" where
  "fine F t m s \<longleftrightarrow> (t \<in> F \<or> state (tasks s t) AND OS_TASK_TIMED = 0) \<and>
     (waitList (tasks s t) = Some (MutexHead m) \<or>
      waitList (tasks s t) = None \<and>
        (t \<in> F \<and> result (tasks s t) = 0 \<or> result (tasks s t) \<noteq> 0 \<and> owner (mutexes s m) = Some t))"

text \<open>
  What a call does to the tasks: they stay in order but for those in \<open>C\<close>, only those in \<open>D\<close>
  lose a mutex, who leaves the processor in which call is in \<open>K\<close>, and nobody takes a free mutex
  or begins to wait for one in any other call.
\<close>

definition fair :: "addr set \<Rightarrow> addr set \<Rightarrow> addr set \<Rightarrow> (addr \<times> kont) set \<Rightarrow> kernel \<Rightarrow> kernel \<Rightarrow> bool" where
  "fair F C D K s s' \<longleftrightarrow>
     (\<forall>t m. t \<notin> C \<longrightarrow> fine F t m s \<longrightarrow> fine F t m s') \<and>
     (\<forall>m t. t \<notin> D \<longrightarrow> owner (mutexes s m) = Some t \<longrightarrow> owner (mutexes s' m) = Some t) \<and>
     (\<forall>m. owner (mutexes s m) = None \<longrightarrow> (\<forall>t. (t, KMutexTryLock m) \<notin> K) \<longrightarrow> owner (mutexes s' m) = None) \<and>
     (\<forall>t. cont s' t = cont s t \<or> (\<exists>k. cont s' t = Some k \<and> (t, k) \<in> K)) \<and>
     (\<forall>t m. waitList (tasks s' t) = Some (MutexHead m) \<longrightarrow>
        waitList (tasks s t) = Some (MutexHead m) \<or> (t, KMutexTryLock m) \<in> K)"

text \<open>The calls but \<open>osMutexTryLock\<close>.\<close>

definition others :: "addr \<Rightarrow> (addr \<times> kont) set" where
  "others c = {(t, k). t = c \<and> (\<forall>m. k \<noteq> KMutexTryLock m)}"

lemma others_iff [simp]: "(t, k) \<in> others c \<longleftrightarrow> t = c \<and> (\<forall>m. k \<noteq> KMutexTryLock m)"
  by (simp add: others_def)

abbreviation fairs ::
  "addr set \<Rightarrow> addr set \<Rightarrow> addr set \<Rightarrow> (addr \<times> kont) set \<Rightarrow> kernel \<Rightarrow> outcome \<times> kernel \<Rightarrow> bool" where
  "fairs F C D K s x \<equiv> fair F C D K s (snd x)"

lemma fair_refl [simp]: "fair F C D K s s"
  by (simp add: fair_def)

lemma fairD:
  assumes "fair F C D K s s'"
  shows "t \<notin> C \<Longrightarrow> fine F t m s \<Longrightarrow> fine F t m s'"
    and "t \<notin> D \<Longrightarrow> owner (mutexes s m) = Some t \<Longrightarrow> owner (mutexes s' m) = Some t"
    and "(\<And>k. (t, k) \<notin> K) \<Longrightarrow> cont s' t = cont s t"
    and "owner (mutexes s m) = None \<Longrightarrow> (\<And>t. (t, KMutexTryLock m) \<notin> K) \<Longrightarrow> owner (mutexes s' m) = None"
    and "(t, KMutexTryLock m) \<notin> K \<Longrightarrow> waitList (tasks s' t) = Some (MutexHead m) \<Longrightarrow>
      waitList (tasks s t) = Some (MutexHead m)"
  using assms unfolding fair_def by blast+

lemma fair_trans:
  assumes "fair F C D K s s1" and "fair F C D K s1 s2"
  shows "fair F C D K s s2"
proof -
  have "cont s2 t = cont s t \<or> (\<exists>k. cont s2 t = Some k \<and> (t, k) \<in> K)" for t
    using assms unfolding fair_def by (metis (no_types, lifting))
  moreover have "owner (mutexes s2 m) = None"
    if "owner (mutexes s m) = None" "\<forall>t. (t, KMutexTryLock m) \<notin> K" for m
    using fairD(4) [OF assms(2) fairD(4) [OF assms(1)]] that by blast
  moreover have "waitList (tasks s t) = Some (MutexHead m)"
    if "waitList (tasks s2 t) = Some (MutexHead m)" "(t, KMutexTryLock m) \<notin> K" for t m
    using fairD(5) [OF assms(1) _ fairD(5) [OF assms(2)]] that by blast
  ultimately show ?thesis
    unfolding fair_def using fairD(1,2) [OF assms(1)] fairD(1,2) [OF assms(2)] by blast
qed

lemma fair_mono: "fair F C D K s s' \<Longrightarrow> C \<subseteq> C' \<Longrightarrow> D \<subseteq> D' \<Longrightarrow> K \<subseteq> K' \<Longrightarrow> fair F C' D' K' s s'"
  unfolding fair_def by blast

lemma fair_anyone: "fair F {} {} {} s s' \<Longrightarrow> fair F C D K s s'"
  by (erule fair_mono) simp_all

text \<open>Whoever was not in order before, or is so again, need not be an exception.\<close>

lemma fair_settled:
  assumes "fair F B D K s s'" and "\<And>t m. t \<in> B \<Longrightarrow> t \<notin> C \<Longrightarrow> fine F t m s \<Longrightarrow> fine F t m s'"
  shows "fair F C D K s s'"
proof -
  have "fine F t m s'" if "t \<notin> C" "fine F t m s" for t m
    using assms that unfolding fair_def by (cases "t \<in> B") blast+
  then show ?thesis using assms(1) by (simp add: fair_def)
qed

lemma fair_cong:
  assumes "\<And>m. owner (mutexes s2 m) = owner (mutexes s1 m)"
    and "\<And>t. t \<notin> C \<Longrightarrow> waitList (tasks s2 t) = waitList (tasks s1 t)"
    and "\<And>t. t \<notin> C \<Longrightarrow> result (tasks s2 t) = result (tasks s1 t)"
    and "\<And>t. t \<notin> C \<Longrightarrow> state (tasks s1 t) AND OS_TASK_TIMED = 0 \<Longrightarrow> state (tasks s2 t) AND OS_TASK_TIMED = 0"
    and "cont s2 = cont s1"
    and "\<And>t m. waitList (tasks s2 t) = Some (MutexHead m) \<Longrightarrow>
      waitList (tasks s1 t) = Some (MutexHead m) \<or> (t, KMutexTryLock m) \<in> K"
  shows "fair F C D K s s1 \<Longrightarrow> fair F C D K s s2"
  using assms unfolding fair_def fine_def by (simp, metis)

section \<open>Assignments\<close>

lemma fair_task_upd [untouched]:
  "fair F C D K s0 s \<Longrightarrow> (\<And>k. t \<notin> C \<Longrightarrow> waitList (f k) = waitList k) \<Longrightarrow> (\<And>k. t \<notin> C \<Longrightarrow> result (f k) = result k) \<Longrightarrow>
   (\<And>k. t \<notin> C \<Longrightarrow> state k AND OS_TASK_TIMED = 0 \<Longrightarrow> state (f k) AND OS_TASK_TIMED = 0) \<Longrightarrow>
   (\<And>k m. waitList (f k) = Some (MutexHead m) \<Longrightarrow> waitList k = Some (MutexHead m) \<or> (t, KMutexTryLock m) \<in> K) \<Longrightarrow>
   fair F C D K s0 (task_upd t f s)"
  by (rule fair_cong [of _ s]) (auto split: if_splits)

lemma fair_objects [untouched]:
  assumes "fair F C D K s0 s"
  shows "fair F C D K s0 (sem_upd a f s)" and "fair F C D K s0 (event_upd a g s)" and "fair F C D K s0 (queue_upd a h s)"
    and "fair F C D K s0 (ram_upd r s)" and "fair F C D K s0 (s\<lparr>osDeadList := l\<rparr>)" and "fair F C D K s0 (s\<lparr>osAging := n\<rparr>)"
  by (rule fair_cong [OF _ _ _ _ _ _ assms], simp_all add: ram_upd_def)+

lemma wr_noted [simp]:
  "owner (mutexes (wr c v s) m) = owner (mutexes s m)" "owner (mutexes (twr d v s) m) = owner (mutexes s m)"
  "waitList (tasks (wr c v s) t) = waitList (tasks s t)" "waitList (tasks (twr d v s) t) = waitList (tasks s t)"
  "result (tasks (wr c v s) t) = result (tasks s t)" "result (tasks (twr d v s) t) = result (tasks s t)"
  "state (tasks (wr c v s) t) = state (tasks s t)" "state (tasks (twr d v s) t) = state (tasks s t)"
  "cont (wr c v s) = cont s" "cont (twr d v s) = cont s"
  "osCurrentTask (wr c v s) = osCurrentTask s" "osCurrentTask (twr d v s) = osCurrentTask s"
  by (cases "(c, v, s)" rule: wr.cases; simp; fail | cases d; simp; fail)+

lemma fair_links:
  "fair F C D K s0 s \<Longrightarrow> fair F C D K s0 (wr c v s)" "fair F C D K s0 s \<Longrightarrow> fair F C D K s0 (twr d v s)"
  "fair F C D K s0 s \<Longrightarrow> fair F C D K s0 (owr e v s)"
  by (rule fair_cong [of _ s]; simp)+

lemma fair_save [untouched]:
  "fair F C D K s0 s \<Longrightarrow> (t, k) \<in> K \<Longrightarrow> fair F C D K s0 (save t k s)"
  by (auto simp: fair_def save_def fine_def)

text \<open>
  The scheduler keeps things in order, and does not touch what a task waits for, what it is
  told, or who owns what.
\<close>

interpretation noted: scheduling_frame
    "\<lambda>s. fair F C D K s0 s \<and> Q (waitList (tasks s t)) (result (tasks s t)) (\<lambda>m. owner (mutexes s m)) \<and>
       (b \<longrightarrow> state (tasks s t) AND OS_TASK_TIMED = 0)"
  for F C D K s0 t Q b
  by unfold_locales (auto intro!: fair_links fair_task_upd elim: fair_cong [rotated 6])

interpretation fair: scheduling_frame "fair F C D K s0" for F C D K s0
  by unfold_locales (auto intro!: fair_links fair_task_upd elim: fair_cong [rotated 6])

interpretation stays: relinking_frame "\<lambda>s. fair F C D K s0 s \<and> osCurrentTask s = c" for F C D K s0 c
  by unfold_locales (auto intro!: fair_links fair_task_upd)

lemma fair_leave [untouched]:
  assumes "holds m (fairs F C D K s)" and "(t, k) \<in> K" and "\<And>v s1. fair F C D K s s1 \<Longrightarrow> holds (go v s1) (fairs F C D K s)"
  shows "holds (leave t k go m) (fairs F C D K s)"
  unfolding leave_def
  by (rule holds_bind [OF assms(1)]) (auto simp: assms(2,3) fair_save split: outcome.split)

lemmas fair_osSchedule [untouched] = fair.osSchedule

lemma fair_osBlock [untouched]:
  assumes "fair F C D K s0 s" and "osCurrentTask s \<in> C"
    and "\<And>m. l = Some (MutexHead m) \<Longrightarrow> (osCurrentTask s, KMutexTryLock m) \<in> K"
  shows "holds (osBlock l d s) (fairs F C D K s0)"
  by (rule fair.osBlock [OF assms(1)]) (use assms(2,3) in \<open>auto intro: fair_task_upd\<close>)


section \<open>Waking up\<close>

lemma unblock_noted:
  assumes "fair F C D K s0 s" and "t \<in> C"
  shows "holds (osUnblock t s) (\<lambda>s'. fair F C D K s0 s' \<and> waitList (tasks s' t) = None \<and>
    result (tasks s' t) = result (tasks s t) \<and> (\<lambda>m. owner (mutexes s' m)) = (\<lambda>m. owner (mutexes s m)))"
proof -
  let ?Q = "\<lambda>w r o'. r = result (tasks s t) \<and> o' = (\<lambda>m. owner (mutexes s m))"
  let ?P = "\<lambda>w r o'. w = None \<and> r = result (tasks s t) \<and> o' = (\<lambda>m. owner (mutexes s m))"
  show ?thesis
    unfolding osUnblock_def
  proof (rule holds_bind [where P = "\<lambda>s. fair F C D K s0 s \<and> ?P (waitList (tasks s t)) (result (tasks s t)) (\<lambda>m. owner (mutexes s m))"])
    show "holds (case waitList (tasks s t) of None \<Rightarrow> Some s
        | Some l \<Rightarrow> Option.bind (osListRemove l t s) (\<lambda>s. Some (set_waitList t None s)))
      (\<lambda>s. fair F C D K s0 s \<and> ?P (waitList (tasks s t)) (result (tasks s t)) (\<lambda>m. owner (mutexes s m)))"
      using assms
      by (auto intro!: holds_bind [OF noted.lists(2) [where Q = ?Q and t = t and b = False]] fair_task_upd
          split: option.split)
  next
    fix s1 assume s1: "fair F C D K s0 s1 \<and> ?P (waitList (tasks s1 t)) (result (tasks s1 t)) (\<lambda>m. owner (mutexes s1 m))"
    show "holds (if state (tasks s1 t) AND OS_TASK_TIMED \<noteq> 0 then osTimerListRemove t s1 else Some s1)
      (\<lambda>s'. fair F C D K s0 s' \<and> ?P (waitList (tasks s' t)) (result (tasks s' t)) (\<lambda>m. owner (mutexes s' m)))"
      using noted.lists(3) [where Q = ?P and b = False and t = t and s = s1] s1 by simp
  qed
qed

lemma wake_noted:
  assumes "fair F C D K s0 s" and "t \<in> C"
  shows "holds (osWake t v s) (\<lambda>s'. fair F C D K s0 s' \<and> waitList (tasks s' t) = None \<and>
    result (tasks s' t) = v \<and> (\<lambda>m. owner (mutexes s' m)) = (\<lambda>m. owner (mutexes s m)) \<and>
    state (tasks s' t) AND OS_TASK_TIMED = 0)"
proof -
  let ?P = "\<lambda>w r o'. w = None \<and> r = v \<and> o' = (\<lambda>m. owner (mutexes s m))"
  have "fair F C D K s0 (set_result t v s)" using assms by (auto intro!: fair_task_upd)
  from unblock_noted [OF this assms(2)]
  have unblock: "holds (osUnblock t (set_result t v s)) (\<lambda>s'. fair F C D K s0 s' \<and>
      ?P (waitList (tasks s' t)) (result (tasks s' t)) (\<lambda>m. owner (mutexes s' m)))"
    by simp
  have ready: "holds (osReady t s1) (\<lambda>s'. fair F C D K s0 s' \<and> waitList (tasks s' t) = None \<and>
      result (tasks s' t) = v \<and> (\<lambda>m. owner (mutexes s' m)) = (\<lambda>m. owner (mutexes s m)) \<and>
      state (tasks s' t) AND OS_TASK_TIMED = 0)"
    if s1: "fair F C D K s0 s1 \<and> ?P (waitList (tasks s1 t)) (result (tasks s1 t)) (\<lambda>m. owner (mutexes s1 m))" for s1
  proof -
    have "fair F C D K s0 (set_state t OS_TASK_READY s1)" using s1 by (auto intro!: fair_task_upd)
    then show ?thesis
      using noted.lists(1) [where Q = ?P and b = True and t = t and s = "set_state t OS_TASK_READY s1"] s1
      by (simp add: osReady_def)
  qed
  show ?thesis
    unfolding osWake_def Let_def by (rule holds_bind [OF unblock]) (rule ready)
qed

lemma fair_wake [untouched]:
  assumes "fair F C D K s0 s" and "t \<in> C"
  shows "holds (osUnblock t s) (fair F C D K s0)" and "holds (osWake t v s) (fair F C D K s0)"
  using unblock_noted [OF assms] wake_noted [OF assms, of v]
  by (auto simp: holds_def split: option.splits)

section \<open>Calls that concern no mutex\<close>

lemma others_sub: "others c \<subseteq> K \<Longrightarrow> (\<And>m. k \<noteq> KMutexTryLock m) \<Longrightarrow> (c, k) \<in> K"
  by auto

lemma fair_calls:
  assumes "fair F C D K s0 s" and "osCurrentTask s \<in> C" and "others (osCurrentTask s) \<subseteq> K"
  shows "holds (osYield s) (fairs F C D K s0)" and "holds (osDelay d s) (fairs F C D K s0)"
    and "holds (snd (osDelayUntil p d s)) (fairs F C D K s0)"
    and "holds (osSemaphoreTake m d s) (fairs F C D K s0)" and "holds (osEventWait e f q d s) (fairs F C D K s0)"
  using assms others_sub [OF assms(3)]
  by (auto simp: osYield_def osDelay_def osDelayUntil_def osSemaphoreTake_def osEventWait_def Let_def intro!: untouched)

lemma fair_schedule [untouched]:
  "fair F C D K s0 s \<Longrightarrow> (t, KReturn v) \<in> K \<Longrightarrow> holds (leave t (KReturn v) (\<lambda>_ s. Some (Returned w, s)) (osSchedule y s)) (fairs F C D K s0)"
  by (auto intro!: untouched)

lemma fair_then_schedule:
  "holds m (\<lambda>s. fair F C D K s0 s \<and> (osCurrentTask s, KReturn v) \<in> K) \<Longrightarrow>
   holds (Option.bind m (\<lambda>s. leave (osCurrentTask s) (KReturn v) (\<lambda>_ s. Some (Returned w, s)) (osSchedule y s)))
     (fairs F C D K s0)"
  by (erule holds_bind) (auto intro: fair_schedule)

lemma fair_osMutexTryLock_end [untouched]: "fair F C D K s0 s \<Longrightarrow> holds (osMutexTryLock_end m b s) (fairs F C D K s0)"
  unfolding osMutexTryLock_end_def
  by (rule holds_bind [of _ "fair F C D K s0"]) (auto intro!: untouched split: option.split)

lemma fair_queues:
  assumes "fair F C D K s0 s" and "set_option (q_waiters (queues s q)) \<subseteq> C" and "osCurrentTask s \<in> C"
  shows "holds (osQueuePut q i d s) (fairs F C D K s0)" and "holds (osQueueGet q i d s) (fairs F C D K s0)"
  using assms
  by (auto simp: osQueuePut_def osQueueGet_def osQueueAppend_def Let_def
      intro!: holds_bind [of _ "fair F C D K s0"] untouched split: option.split)

lemma fair_osTaskSetPriority:
  assumes "fair F C D K s0 s" and "(osCurrentTask s, KReturn VVoid) \<in> K"
  shows "holds (osTaskSetPriority u p s) (fairs F C D K s0)"
proof -
  let ?P = "\<lambda>s'. fair F C D K s0 s' \<and> osCurrentTask s' = osCurrentTask s"
  have "?P (set_basePriority t q s)" for t q using assms by (auto intro!: untouched)
  then show ?thesis
    using assms(2) stays.members(2)
    by (auto simp: osTaskSetPriority_def Let_def
        intro!: holds_bind [of _ ?P] holds_look stays.osPriorityRaise stays.osRequeue fair_schedule)
qed

lemma fair_osEventSetFromISR:
  assumes "fair F UNIV D K s0 s"
  shows "holds (osEventSetFromISR e f s) (fair F UNIV D K s0)"
proof -
  have loop: "fair F UNIV D K s0 s \<longrightarrow> fair F UNIV D K s0 s'" if "osEventSetFromISR_loop e t s = Some s'" for t s s'
  proof (rule osEventSetFromISR_loop.raw_induct [OF _ that, where P = "\<lambda>_ _ s s'. fair F UNIV D K s0 s \<longrightarrow> fair F UNIV D K s0 s'"], goal_cases)
    case (1 rec e t s s')
    show ?case
    proof
      assume s: "fair F UNIV D K s0 s"
      have "fair F UNIV D K s0 s1" if "osWake t 1 (set_wait t v s) = Some s1" for t v s1
        by (rule holds_Some [OF fair_wake(2) that]) (use s in \<open>auto intro!: untouched\<close>)
      moreover have "fair F UNIV D K s0 s1" if "osWake t 1 (set_wait t v (event_upd e g s)) = Some s1" for t v g s1
        by (rule holds_Some [OF fair_wake(2) that]) (use s in \<open>auto intro!: untouched\<close>)
      ultimately show "fair F UNIV D K s0 s'"
        using 1 s by (auto simp: Let_def bind_eq_Some_conv split: if_splits option.splits)
    qed
  qed
  have "fair F UNIV D K s0 (event_upd e g s)" for g using assms by (auto intro!: untouched)
  then show ?thesis
    using loop by (cases "osEventSetFromISR e f s") (auto simp: osEventSetFromISR_def Let_def)
qed

text \<open>Whoever waits for something else is not one of those who wait for a mutex.\<close>

lemma waiters_elsewhere:
  assumes "rest A s"
  shows "t \<in> set_option (s_waiters (semaphores s x)) \<Longrightarrow> \<not> fine F t m s"
    and "t \<in> set_option (q_waiters (queues s q)) \<Longrightarrow> \<not> fine F t m s"
  using sem.most_important(2) [OF assms, of x t] queue.most_important(2) [OF assms, of q t]
  by (auto simp: fine_def)

lemma holds_settled:
  assumes "holds x (fair F B D K s)" and "\<And>t m. t \<in> B \<Longrightarrow> t \<notin> C \<Longrightarrow> \<not> fine F t m s"
  shows "holds x (fair F C D K s)"
  using assms(1) fair_settled [OF _ assms(2) [THEN notE]] by (auto simp: holds_def split: option.splits)

lemma fair_isr:
  assumes r: "rest A s" and ok: "objects_ok A s"
  shows "holds (osSemaphoreGiveFromISR m s) (fair F {} {} {} s)" and "holds (osTaskResumeFromISR t s) (fair F {} {} {} s)"
    and "holds (osEventSetFromISR e f s) (fair F {} {} {} s)"
proof -
  let ?X = "set_option (s_waiters (semaphores s m))"
  have "holds (osSemaphoreGiveFromISR m s) (fair F ?X {} {} s)"
    by (auto simp: osSemaphoreGiveFromISR_def intro!: untouched split: option.split)
  then show "holds (osSemaphoreGiveFromISR m s) (fair F {} {} {} s)"
    by (rule holds_settled) (rule waiters_elsewhere(1) [OF r])
  show "holds (osTaskResumeFromISR t s) (fair F {} {} {} s)"
    by (auto simp: osTaskResumeFromISR_def intro!: untouched)
  have "holds (osEventSetFromISR e f s) (fair F UNIV {} {} s)"
    by (rule fair_osEventSetFromISR) simp
  from holds_returns [OF osEventSetFromISR_rest [OF r ok, of e f] this]
  show "holds (osEventSetFromISR e f s) (fair F {} {} {} s)"
  proof (elim returnsE conjE exE)
    fix s' ws assume m: "osEventSetFromISR e f s = Some s'"
      and ws: "set ws = {t \<in> A. waitList (tasks s t) = Some (EventHead e)}"
      and served: "served e s (serve s (e_flags (events s e) OR f) ws) s'" and f: "fair F UNIV {} {} s s'"
    let ?D = "fst ` set (snd (serve s (e_flags (events s e) OR f) ws))"
    have D: "?D \<subseteq> set ws" by (rule serve_set)
    have "fine F t m s'" if "fine F t m s" for t m
    proof -
      have "t \<notin> ?D" using that D ws by (auto simp: fine_def)
      then show ?thesis
        using served that fairD(2) [OF f, of t m] unfolding served_def event_frame_def fine_def by auto
    qed
    then have "fair F {} {} {} s s'" by (intro fair_settled [OF f])
    then show ?thesis using m by simp
  qed
qed


section \<open>Queues\<close>

text \<open>A call that returns without a switch leaves the current task alone.\<close>

interpretation here: relinking_frame "\<lambda>s. osCurrentTask s = c" for c
  by unfold_locales simp_all

lemma here_wake [untouched]:
  assumes "osCurrentTask s = c"
  shows "holds (osUnblock t s) (\<lambda>s. osCurrentTask s = c)" and "holds (osWake t v s) (\<lambda>s. osCurrentTask s = c)"
proof -
  have unblock: "holds (osUnblock t s) (\<lambda>s. osCurrentTask s = c)" if "osCurrentTask s = c" for s
    unfolding osUnblock_def
    by (rule holds_bind [of _ "\<lambda>s. osCurrentTask s = c"])
      (use that in \<open>auto intro!: here.lists holds_bind [of _ "\<lambda>s. osCurrentTask s = c"] split: option.split\<close>)
  show "holds (osUnblock t s) (\<lambda>s. osCurrentTask s = c)" by (rule unblock [OF assms])
  show "holds (osWake t v s) (\<lambda>s. osCurrentTask s = c)"
    unfolding osWake_def Let_def by (rule holds_bind [OF unblock]) (use assms in \<open>auto intro!: here.osReady\<close>)
qed

lemma block_here: "holds (osBlock l d s) (\<lambda>(r, s'). r = Switched \<or> osCurrentTask s' = osCurrentTask s)"
  by (auto simp: osBlock_def Let_def intro!: holds_bind [OF holds_any])

lemma queue_here:
  "holds (osQueuePut q i d s) (\<lambda>(r, s'). r = Switched \<or> osCurrentTask s' = osCurrentTask s)"
  "holds (osQueueGet q i d s) (\<lambda>(r, s'). r = Switched \<or> osCurrentTask s' = osCurrentTask s)"
proof -
  let ?P = "\<lambda>s'. osCurrentTask s' = osCurrentTask s"
  have block: "holds (osBlock l d (set_wait t v s)) (\<lambda>(r, s'). r = Switched \<or> osCurrentTask s' = osCurrentTask s)" for l t v
    using block_here [of l d "set_wait t v s"] by simp
  show "holds (osQueuePut q i d s) (\<lambda>(r, s'). r = Switched \<or> osCurrentTask s' = osCurrentTask s)"
    "holds (osQueueGet q i d s) (\<lambda>(r, s'). r = Switched \<or> osCurrentTask s' = osCurrentTask s)"
    by (auto simp: osQueuePut_def osQueueGet_def osQueueAppend_def Let_def
        intro!: holds_bind [of _ ?P] here_wake block split: option.split)
qed

lemma fair_waiting:
  assumes r: "rest A s"
  defines "c \<equiv> osCurrentTask s"
  shows "holds (osQueueSend q i d s) (fairs F {c} {} (others c) s)"
    and "holds (osQueueReceive q i d s) (fairs F {c} {} (others c) s)"
    and "holds (osQueueSendFromISR q i s) (fairs F {c} {} {} s)"
    and "holds (osQueueReceiveFromISR q i s) (fairs F {c} {} {} s)"
proof -
  let ?X = "set_option (q_waiters (queues s q)) \<union> {c}"
  have settled: "holds m (fairs F {c} {} {} s)" if "holds m (fairs F ?X {} {} s)" for m
    using that waiters_elsewhere(2) [OF r] by (auto simp: holds_def split: option.splits intro: fair_settled)
  have calls: "holds (osQueuePut q i d s) (fairs F {c} {} {} s)" "holds (osQueueGet q i d s) (fairs F {c} {} {} s)" for d
    by (rule settled, rule fair_queues; auto simp: c_def)+
  have fin: "holds (leave c KQueue osQueue_end m) (fairs F {c} {} (others c) s)"
    if m: "holds m (fairs F {c} {} {} s)" "holds m (\<lambda>(r, s'). r = Switched \<or> osCurrentTask s' = c)" for m
  proof (cases m)
    case (Some x)
    then obtain r s1 where x: "m = Some (r, s1)" by (cases x) auto
    have f: "fair F {c} {} (others c) s s1" using m(1) x by (auto elim: fair_mono)
    show ?thesis
    proof (cases r)
      case (Returned v)
      then have "holds (osQueue_end v s1) (fairs F {c} {} (others c) s)"
        unfolding osQueue_end_def by (intro fair_schedule [OF f]) (use m(2) x in simp)
      then show ?thesis using x Returned by (simp add: leave_def)
    qed (use x f in \<open>simp add: leave_def fair_save\<close>)
  qed (simp add: leave_def)
  show "holds (osQueueSend q i d s) (fairs F {c} {} (others c) s)" "holds (osQueueReceive q i d s) (fairs F {c} {} (others c) s)"
    unfolding osQueueSend_def osQueueReceive_def c_def [symmetric]
    by (rule fin [OF calls(1) queue_here(1) [where s = s, folded c_def]],
        rule fin [OF calls(2) queue_here(2) [where s = s, folded c_def]])
  show "holds (osQueueSendFromISR q i s) (fairs F {c} {} {} s)" "holds (osQueueReceiveFromISR q i s) (fairs F {c} {} {} s)"
    unfolding osQueueSendFromISR_def osQueueReceiveFromISR_def by (rule calls)+
qed

section \<open>Suspending\<close>

lemma fair_osTaskSuspend:
  "holds (osTaskSuspend u s) (fairs F ({task_or_current u s} - F) {} (others (osCurrentTask s)) s)"
proof -
  define t c where "t = task_or_current u s" and "c = osCurrentTask s"
  let ?Q = "\<lambda>w r o'. w \<in> {None, waitList (tasks s t)}"
  let ?P = "\<lambda>s'. fair F {t} {} {} s s' \<and> ?Q (waitList (tasks s' t)) (result (tasks s' t)) (\<lambda>m. owner (mutexes s' m)) \<and>
    osCurrentTask s' = c"
  have detach: "holds (osTaskDetach t s) ?P"
  proof -
    have "fair F {t} {} {} s s \<and> ?Q (waitList (tasks s t)) (result (tasks s t)) (\<lambda>m. owner (mutexes s m)) \<and>
        (False \<longrightarrow> state (tasks s t) AND OS_TASK_TIMED = 0)" by simp
    from noted.lists(2) [where Q = ?Q and b = False, OF this, of ReadyHead t] have "holds (osListRemove ReadyHead t s) ?P"
      using here.lists(2) [of s c ReadyHead t]
      by (auto simp: c_def holds_def split: option.splits)
    moreover have "holds (osUnblock t s) ?P"
      using unblock_noted [of F "{t}" "{}" "{}" s s t] here_wake(1) [of s c t]
      by (auto simp: c_def holds_def split: option.splits)
    ultimately show ?thesis by (simp add: osTaskDetach_def)
  qed
  have told: "fair F ({t} - F) {} (others c) s (set_state t OS_TASK_SUSPENDED (set_result t 0 s1))" if s1: "?P s1" for s1
  proof (rule fair_settled)
    have "fair F {t} {} (others c) s s1" using s1 by (auto elim: fair_mono)
    then show "fair F {t} {} (others c) s (set_state t OS_TASK_SUSPENDED (set_result t 0 s1))" by (auto intro!: untouched)
    show "fine F t' m (set_state t OS_TASK_SUSPENDED (set_result t 0 s1))" if "t' \<in> {t}" "t' \<notin> {t} - F" "fine F t' m s" for t' m
      using that s1 by (auto simp: fine_def)
  qed
  define go where "go s1 = (let s = set_state t OS_TASK_SUSPENDED (set_result t 0 s1) in
    if t = osCurrentTask s then Option.bind (osDispatch s) (\<lambda>s. Some (Switched, save t (KReturn VVoid) s))
    else Some (Returned VVoid, s))" for s1
  have "holds (go s1) (fairs F ({t} - F) {} (others c) s)" if P: "?P s1" for s1
  proof -
    have "holds (Option.bind (osDispatch (set_state t OS_TASK_SUSPENDED (set_result t 0 s1)))
        (\<lambda>s. Some (Switched, save t (KReturn VVoid) s))) (fairs F ({t} - F) {} (others c) s)" if "t = c"
      by (rule holds_bind [OF fair.osDispatch [OF told [OF P]]]) (simp add: fair_save that)
    then show ?thesis using told [OF P] P by (simp add: go_def Let_def)
  qed
  then have "holds (Option.bind (osTaskDetach t s) go) (fairs F ({t} - F) {} (others c) s)" by (rule holds_bind [OF detach])
  then show ?thesis by (simp add: osTaskSuspend_def t_def [symmetric] c_def [symmetric] go_def [abs_def] Let_def)
qed

section \<open>Mutexes\<close>

lemma fair_owner:
  assumes "\<And>t. owner (mutexes s m) = Some t \<Longrightarrow> t \<in> C \<and> t \<in> D"
    and "owner (mutexes s m) = None \<Longrightarrow> \<exists>t. (t, KMutexTryLock m) \<in> K"
  shows "fair F C D K s (set_owner m v s)" and "fair F C D K s (osMutexOwn m w s)"
  using assms by (auto simp: fair_def fine_def)

lemma fair_osMutexPass:
  assumes c: "owner (mutexes s m) = Some c"
    and w: "\<And>w. m_waiters (mutexes s m) = Some w \<Longrightarrow> waitList (tasks s w) = Some (MutexHead m)"
  shows "holds (osMutexPass m s) (fair F {c} {c} {} s)"
proof (cases "m_waiters (mutexes s m)")
  case None
  then show ?thesis using c fair_owner(1) [of s m "{c}" "{c}" "{}"] by (simp add: osMutexPass_def)
next
  case (Some x)
  have "fair F {c, x} {c} {} s (osMutexOwn m x s)" by (rule fair_owner) (simp_all add: c)
  from wake_noted [OF this, of x 1]
  have "holds (osWake x 1 (osMutexOwn m x s)) (\<lambda>s'. fair F {c, x} {c} {} s s' \<and> waitList (tasks s' x) = None \<and>
      result (tasks s' x) = 1 \<and> owner (mutexes s' m) = Some x \<and> state (tasks s' x) AND OS_TASK_TIMED = 0)"
    by (auto simp: holds_def fun_eq_iff split: option.splits)
  then show ?thesis
    using Some w [OF Some] by (auto simp: osMutexPass_def holds_def fine_def split: option.splits intro: fair_settled)
qed

lemma fair_osMutexUnlock:
  assumes r: "rest A s" and c: "c = osCurrentTask s"
  shows "holds (osMutexUnlock m s) (fairs F {c} {c} (others c) s)"
proof (cases "owner (mutexes s m) = Some c")
  case False
  then show ?thesis by (simp add: osMutexUnlock_def c)
next
  case True
  define tail where "tail s2 = Option.bind (osInheritedPriority c s2) (\<lambda>p.
    leave c (KReturn VVoid) (\<lambda>_ s. Some (Returned VVoid, s)) (osSchedule 0 (set_priority c p s2)))" for s2
  have pass: "holds (osMutexPass m s1) (fair F {c} {c} {} s)"
    if s1: "fair F {c} {c} {} s s1" "mutexes s1 m = (mutexes s m)\<lparr>nextOwned := x\<rparr>" "\<And>t. waitList (tasks s1 t) = waitList (tasks s t)"
    for s1 x
  proof -
    have "waitList (tasks s w) = Some (MutexHead m)" if "m_waiters (mutexes s m) = Some w" for w
      using mutex.most_important(2) [OF r, of m w] that by simp
    then have "holds (osMutexPass m s1) (fair F {c} {c} {} s1)"
      using True by (intro fair_osMutexPass) (simp_all add: s1(2,3))
    then show ?thesis using fair_trans [OF s1(1)] by (auto simp: holds_def split: option.splits)
  qed
  have disown: "holds (osMutexDisown m c s) (\<lambda>s1. fair F {c} {c} {} s s1 \<and>
      (\<exists>x. mutexes s1 m = (mutexes s m)\<lparr>nextOwned := x\<rparr>) \<and> (\<forall>t. waitList (tasks s1 t) = waitList (tasks s t)))"
  proof -
    have "\<exists>x. mutexes (owr d v s) m = (mutexes s m)\<lparr>nextOwned := x\<rparr>" for d v
      by (cases d; cases "mutexes s m") auto
    moreover have "\<exists>x. mutexes s m = (mutexes s m)\<lparr>nextOwned := x\<rparr>" by (cases "mutexes s m") auto
    ultimately show ?thesis
      by (auto simp: osMutexDisown_def intro!: untouched fair_links split: option.split)
  qed
  have "osMutexUnlock m s = Option.bind (osMutexDisown m c s) (\<lambda>s1. Option.bind (osMutexPass m s1) tail)"
    using True by (simp add: osMutexUnlock_def tail_def [abs_def] c Let_def)
  moreover have "holds (tail s2) (fairs F {c} {c} (others c) s)" if "fair F {c} {c} {} s s2" for s2
  proof -
    have "fair F {c} {c} (others c) s s2" using that by (rule fair_mono) simp_all
    then show ?thesis by (auto simp: tail_def intro!: untouched)
  qed
  ultimately show ?thesis
    using pass by (auto intro!: holds_bind [OF disown] holds_bind [of _ "fair F {c} {c} {} s"])
qed


lemma handed_fair: "handed t s s' \<Longrightarrow> wakes s s' \<Longrightarrow> fair F {t} {t} {} s s'"
proof -
  assume h: "handed t s s'" and w: "wakes s s'"
  have "fine F x m s'" if x: "x \<noteq> t" "fine F x m s" for x m
  proof -
    have st: "state (tasks s' x) = state (tasks s x) \<or> state (tasks s' x) = OS_TASK_READY"
      using wakesD(9) [OF w, of x] by blast
    then have time: "x \<in> F \<or> state (tasks s' x) AND OS_TASK_TIMED = 0"
      using x(2) by (auto simp: fine_def)
    have "owner (mutexes s' m) = Some x" if "owner (mutexes s m) = Some x"
      using h that x(1) by (simp add: handed_def)
    moreover have "waitList (tasks s' x) = waitList (tasks s x) \<and> result (tasks s' x) = result (tasks s x) \<or>
        (\<exists>m. waitList (tasks s x) = Some (MutexHead m) \<and> waitList (tasks s' x) = None \<and>
           result (tasks s' x) \<noteq> 0 \<and> owner (mutexes s' m) = Some x)"
      using h x(1) by (simp add: handed_def)
    ultimately show ?thesis using x(2) time by (auto simp: fine_def)
  qed
  moreover have "waitList (tasks s x) = Some (MutexHead m)" if "waitList (tasks s' x) = Some (MutexHead m)" for x m
    using w that unfolding wakes_def by (metis option.distinct(1))
  ultimately show ?thesis using h wakesD(4) [OF w] by (simp add: fair_def handed_def)
qed

lemma fair_osTaskDelete_end: "fair F C D K s0 s \<Longrightarrow> (osCurrentTask s, KReturn VVoid) \<in> K \<Longrightarrow> holds (osTaskDelete_end s) (fairs F C D K s0)"
  unfolding osTaskDelete_end_def by (rule fair_schedule)

lemma fair_osTaskDelete:
  assumes r: "rest A s" and t: "t = task_or_current u s" "t \<in> A"
  shows "holds (osTaskDelete u s) (fairs F {t} {t} (others (osCurrentTask s)) s)"
proof (cases "t = osIdleTask s \<or> state (tasks s t) AND OS_TASK_STATE = OS_TASK_DEAD")
  case True
  then show ?thesis by (auto simp: osTaskDelete_def t(1) Let_def)
next
  case False
  then have idle: "t \<noteq> osIdleTask s" and alive: "state (tasks s t) \<noteq> OS_TASK_DEAD" by auto
  from r obtain L TL OL where K: "kernel_inv L TL OL A s" by (auto simp: rest_def)
  then have R: "repr L TL s" and inv: "data_inv {} L TL OL A s" and nd: "not_due TL s"
    and run: "running {osCurrentTask s} A s" by (simp_all add: kernel_inv_def)
  define fin where "fin s2 = (if t = osCurrentTask (push_dead t s2)
      then Option.bind (osDispatch (push_dead t s2)) (\<lambda>s'. Some (Switched, save (osCurrentTask s) KDelete s'))
      else osTaskDelete_end (push_dead t s2))" for s2
  have unfold: "osTaskDelete u s = Option.bind (osTaskDetach t s) (\<lambda>s1.
      Option.bind (osMutexReleaseAll t (set_state t OS_TASK_DEAD s1)) fin)"
    using False unfolding osTaskDelete_def t(1) [symmetric] push_dead_def fin_def [abs_def] Let_def by simp
  let ?K = "others (osCurrentTask s)"
  have fin: "holds (fin s2) (fairs F {t} {t} ?K s)" if s2: "fair F {t} {t} {} s s2" "osCurrentTask s2 = osCurrentTask s" for s2
  proof -
    have "fair F {t} {t} ?K s s2" using s2(1) by (rule fair_mono) simp_all
    then have p: "fair F {t} {t} ?K s (push_dead t s2)" by (auto simp: push_dead_def intro!: untouched)
    have "holds (Option.bind (osDispatch (push_dead t s2)) (\<lambda>s'. Some (Switched, save (osCurrentTask s) KDelete s')))
        (fairs F {t} {t} ?K s)"
      by (rule holds_bind [OF fair.osDispatch [OF p]]) (simp add: fair_save)
    moreover have "osCurrentTask (push_dead t s2) = osCurrentTask s" using s2(2) by (simp add: push_dead_def)
    ultimately show ?thesis using fair_osTaskDelete_end [OF p] unfolding fin_def by auto
  qed
  have "holds (osTaskDetach t s) (fair F {t} {t} {} s)"
    by (auto simp: osTaskDetach_def intro!: untouched)
  from holds_returns [OF osTaskDetach_inv [OF R inv t(2) alive] this]
  have "returns (osTaskDetach t s) (\<lambda>s1. holds (osMutexReleaseAll t (set_state t OS_TASK_DEAD s1))
      (\<lambda>s'. fair F {t} {t} {} s s' \<and> osCurrentTask s' = osCurrentTask s))"
  proof (rule returns_mono, elim conjE exE)
    fix s1 L1 TL1
    assume s1: "repr L1 TL1 s1" "data_inv {t} L1 TL1 OL A s1" "absent t L1 TL1" "set TL1 \<subseteq> set TL"
      "data_eq (set_waitList t None s) s1" and f: "fair F {t} {t} {} s s1"
    define sd where "sd = set_state t OS_TASK_DEAD s1"
    note d = data_eqD [OF s1(5)]
    have Rd: "repr L1 TL1 sd" using s1(1) by (simp add: sd_def)
    have invd: "data_inv {t} L1 TL1 OL A sd" using s1(2,3) t(2) by (simp add: sd_def data_inv_unwait)
    have idled: "t \<noteq> osIdleTask sd" using idle by (simp add: sd_def d)
    have dd: "state (tasks sd t) = OS_TASK_DEAD" "waitList (tasks sd t) = None" by (simp_all add: sd_def d)
    have ndd: "not_due TL1 sd"
      using detached_not_due [OF nd s1(4,5)] by (simp add: not_due_def left_def sd_def)
    have rund: "running ({osCurrentTask s} - {t}) A sd" using run by (auto simp: running_def sd_def d)
    have fd: "fair F {t} {t} {} s sd" using f by (auto simp: sd_def intro!: untouched)
    have "returns (osMutexReleaseAll t sd) (\<lambda>s'. fair F {t} {t} {} s s' \<and> osCurrentTask s' = osCurrentTask s)"
      by (rule returns_mono [OF release_dead [OF Rd invd t(2) s1(3) idled dd ndd rund]])
        (elim exE conjE, rule conjI [OF fair_trans [OF fd handed_fair]], simp_all add: wakesD(3) sd_def d)
    then show "holds (osMutexReleaseAll t (set_state t OS_TASK_DEAD s1))
        (\<lambda>s'. fair F {t} {t} {} s s' \<and> osCurrentTask s' = osCurrentTask s)"
      by (auto simp: sd_def returns_iff)
  qed
  then show ?thesis
    unfolding unfold by (auto simp: returns_iff intro!: holds_bind [OF _ fin])
qed

lemma fair_osMutexTryLock:
  assumes r: "rest A s" and c: "c = osCurrentTask s"
  shows "holds (osMutexTryLock m d s) (fairs F {c} {} ({c} \<times> UNIV) s)"
proof (cases "owner (mutexes s m)")
  case None
  then show ?thesis using fair_owner(2) [of s m "{c}" "{}" "{c} \<times> UNIV" F c] by (simp add: osMutexTryLock_def c Let_def)
next
  case (Some t)
  have "holds (osPriorityRaise t (priority (tasks s c)) s) (fair F {c} {} ({c} \<times> UNIV) s)" by (auto intro!: untouched)
  from holds_returns [OF osPriorityRaise_no_rival [OF r Some, folded c] this]
  show ?thesis
    using Some c
    by (auto simp: osMutexTryLock_def Let_def returns_iff no_rival_def intro!: untouched)
qed

section \<open>The tick\<close>

text \<open>The functions of timers may call what an interrupt handler may call.\<close>

definition keeps_locks :: "callback \<Rightarrow> bool" where
  "keeps_locks fire \<longleftrightarrow> (\<forall>F A c f p s. kernel_ok A c s \<longrightarrow> holds (fire f p s) (fair F {} {} {} s))"

text \<open>Only tasks that wait with a timeout run out of time.\<close>

lemma fair_timed_out:
  assumes "data_eq (timed_out (up_next A s) (ticked s)) s'"
  shows "fair F {} {} {} s s'"
proof -
  note d = data_eqD [OF assms]
  have "fine F t m s'" if "fine F t m s" for t m
    using that by (auto simp: fine_def d timed_out_def up_next_def)
  then show ?thesis by (simp add: fair_def) (simp add: d timed_out_def)
qed

lemma keeps_locks_functions:
  assumes "keeps_kernel A fire" and "keeps_locks fire"
  shows "timer_functions fire (\<lambda>s. (kernel_ok A c s \<and> osTicks s = n) \<and> fair F {} {} {} s0 s) (\<lambda>_. ()) (\<lambda>_ _ _. ())"
proof
  note kernel = keeps_kernel_functions [OF assms(1), of c n]
  fix s f p assume s: "(kernel_ok A c s \<and> osTicks s = n) \<and> fair F {} {} {} s0 s"
  then have "holds (fire f p s) (fair F {} {} {} s)" using assms(2) unfolding keeps_locks_def by blast
  from holds_returns [OF timer_functions.fires [OF kernel conjunct1 [OF s]] this]
  show "returns (fire f p s) (\<lambda>s'. ((kernel_ok A c s' \<and> osTicks s' = n) \<and> fair F {} {} {} s0 s') \<and>
      () = () \<and> timers s' = timers s \<and> osTimers s' = osTimers s)"
    by (rule returns_mono) (use s fair_trans in blast)
next
  fix w s s' assume w: "timers_only w s s'" and s: "(kernel_ok A c s \<and> osTicks s = n) \<and> fair F {} {} {} s0 s"
  have s': "s' = s\<lparr>timers := timers s', osTimers := osTimers s'\<rparr>" using w by (simp add: timers_only_def)
  have "tasks s' = tasks s" "mutexes s' = mutexes s" "cont s' = cont s" by (subst s', simp)+
  then have "fair F {} {} {} s0 s'" by (intro fair_cong [OF _ _ _ _ _ _ conjunct2 [OF s]]) simp_all
  then show "((kernel_ok A c s' \<and> osTicks s' = n) \<and> fair F {} {} {} s0 s') \<and> () = ()"
    using s timers_only_kernel [OF w] by (simp add: kernel_ok_def)
qed

lemma fair_tick:
  assumes s: "system_ok A s" and fire: "keeps_kernel A fire" "keeps_locks fire"
  shows "holds (tick_interrupt fire s) (fairs F {} {} (others (osCurrentTask s)) s)"
proof -
  let ?n = "osTicks s + 1"
  define go where "go s = Option.bind (osSettle (osCurrentTask s) s) tick_end" for s
  have run: "osTickHandler fire s = Option.bind (osTimeouts ?n (ticked s)) (\<lambda>s1. Option.bind (osTimerTick fire ?n s1) go)"
    by (simp add: osTickHandler_parts go_def [abs_def])
  have go: "holds (go s2) (fairs F {} {} {} s)" if "fair F {} {} {} s s2" for s2
    unfolding go_def by (rule holds_bind [OF fair.osSettle [OF that] fair.tick_end]) (auto intro: fair_objects)
  note timeouts = returns_conj [OF osTimeouts_ok [OF system_okD [OF s]] osTimeouts_rest [OF system_okD(1,2) [OF s]]]
  have "holds (osTickHandler fire s) (fairs F {} {} {} s)"
    unfolding run
  proof (rule returnsE [OF timeouts], elim conjE exE)
    fix s1 X assume s1: "osTimeouts ?n (ticked s) = Some s1" "kernel_ok A (osCurrentTask s) s1" "osTicks s1 = ?n"
      "timer_chain X s1" "timers_sorted ?n X s1" "data_eq (timed_out (up_next A s) (ticked s)) s1"
    have "fair F {} {} {} s s1" by (rule fair_timed_out [OF s1(6)])
    then have "returns (osTimerTick fire ?n s1) (fair F {} {} {} s)"
      using timer_functions.fires_what_is_due [OF keeps_locks_functions [OF fire, where c = "osCurrentTask s" and n = ?n and F = F and ?s0.0 = s] s1(4,5)] s1(2,3)
      by (auto elim!: returns_mono)
    then show "holds (Option.bind (osTimeouts ?n (ticked s)) (\<lambda>s1. Option.bind (osTimerTick fire ?n s1) go)) (fairs F {} {} {} s)"
      using go by (auto simp: s1(1) returns_iff)
  qed
  then have "holds (osTickHandler fire s) (fairs F {} {} (others (osCurrentTask s)) s)"
    by (auto simp: holds_def split: option.splits elim: fair_mono)
  then show ?thesis unfolding tick_interrupt_def by (auto intro!: untouched)
qed

section \<open>Interrupt handlers\<close>

lemma fair_isr_call:
  assumes s: "system_ok A s"
  shows "holds (isr_call i s) (fair F {osCurrentTask s} {} {} s)"
proof -
  note isr = fair_isr [OF system_okD(1,2) [OF s]] and queue = fair_waiting [OF system_okD(1) [OF s]]
  have weak: "holds m (fair F {osCurrentTask s} {} {} s)" if "holds m (fair F {} {} {} s)" for m
    using that fair_anyone by (auto simp: holds_def split: option.splits)
  have "holds (map_option snd m) (fair F {osCurrentTask s} {} {} s)" if "holds m (fairs F {osCurrentTask s} {} {} s)" for m :: res
    using that by (cases m) auto
  then show ?thesis by (cases i) (auto intro: weak isr queue)
qed

lemma fair_isr_calls:
  "system_ok A s \<Longrightarrow> handler_ok A s is \<Longrightarrow> fair F {osCurrentTask s} {} {} s0 s \<Longrightarrow>
   holds (isr_calls is s) (\<lambda>s'. fair F {osCurrentTask s} {} {} s0 s' \<and> osCurrentTask s' = osCurrentTask s)"
proof (induction "is" arbitrary: s)
  case (Cons i "is")
  have "returns (isr_call i s) (\<lambda>s'. (system_ok A s' \<and> osCurrentTask s' = osCurrentTask s) \<and> fair F {osCurrentTask s} {} {} s s')"
    using holds_returns [OF isr_call_ok fair_isr_call [OF Cons.prems(1)]] Cons.prems by simp
  then obtain s1 where s1: "isr_call i s = Some s1" "system_ok A s1" "osCurrentTask s1 = osCurrentTask s"
    "fair F {osCurrentTask s} {} {} s s1" by (auto simp: returns_iff)
  then show ?case
    using Cons.IH [OF s1(2)] Cons.prems(2) fair_trans [OF Cons.prems(3) s1(4)] by simp
qed simp

lemma fair_handler:
  assumes "system_ok A s" and "handler_ok A s is"
  shows "holds (OS_ISR is s) (fairs F {osCurrentTask s} {} (others (osCurrentTask s)) s)"
proof -
  let ?c = "osCurrentTask s"
  have "holds (isr_calls is s) (\<lambda>s'. fair F {?c} {} {} s s' \<and> osCurrentTask s' = ?c)"
    by (rule fair_isr_calls [OF assms]) simp
  then have "holds (isr_calls is s) (\<lambda>s'. fair F {?c} {} (others ?c) s s' \<and> (osCurrentTask s', KReturn VVoid) \<in> others ?c)"
    by (auto simp: holds_def split: option.splits elim: fair_mono)
  then show ?thesis unfolding OS_ISR_def by (rule fair_then_schedule)
qed

end
