(* ===== verification/Mutual_Exclusion.thy ===== *)
theory Mutual_Exclusion
  imports Lock_Frames
begin

text \<open>
  Mutual exclusion: whenever a call of \<open>osMutexTryLock\<close> returns true, its task has become the
  owner of the mutex, also if it has been waiting, and it stays the owner until it unlocks the
  mutex or is deleted. So of all tasks that have locked a mutex and not unlocked it yet there
  is never more than one.
\<close>

section \<open>Every step\<close>

text \<open>The steps in which a task ceases to be the owner of a mutex.\<close>

fun gives_up :: "action \<Rightarrow> kernel \<Rightarrow> addr \<Rightarrow> addr \<Rightarrow> bool" where
  "gives_up (Call (CUnlock x)) s t m \<longleftrightarrow> x = m \<and> t = osCurrentTask s"
| "gives_up (Call (CDelete u)) s t m \<longleftrightarrow> t = task_or_current u s"
| "gives_up _ s t m \<longleftrightarrow> False"

text \<open>A task is deleted while it is in a call of \<open>osMutexTryLock\<close>.\<close>

fun ends_wait :: "action \<Rightarrow> kernel \<Rightarrow> bool" where
  "ends_wait (Call (CDelete u)) s \<longleftrightarrow>
     (case cont s (task_or_current u s) of Some (KMutexTryLock _) \<Rightarrow> True | _ \<Rightarrow> False)"
| "ends_wait _ s \<longleftrightarrow> False"

text \<open>
  A task that is not in \<open>F\<close> begins to wait for a mutex with a timeout, or is suspended while it
  waits for one.
\<close>

fun uncertain :: "addr set \<Rightarrow> action \<Rightarrow> kernel \<Rightarrow> bool" where
  "uncertain F (Call (CTryLock x n)) s \<longleftrightarrow> osCurrentTask s \<notin> F \<and> n \<noteq> OS_NO_WAIT \<and> n \<noteq> OS_WAIT_FOREVER"
| "uncertain F (Call (CSuspend u)) s \<longleftrightarrow> task_or_current u s \<notin> F \<and>
     (case cont s (task_or_current u s) of Some (KMutexTryLock _) \<Rightarrow> True | _ \<Rightarrow> False)"
| "uncertain F _ s \<longleftrightarrow> False"

lemma everybody_uncertain [simp]: "\<not> uncertain UNIV a s"
  by (cases "(UNIV :: addr set, a, s)" rule: uncertain.cases) simp_all

definition saves :: "call \<Rightarrow> kernel \<Rightarrow> (addr \<times> kont) set" where
  "saves c s = (case c of CTryLock _ _ \<Rightarrow> {osCurrentTask s} \<times> UNIV | _ \<Rightarrow> others (osCurrentTask s))"

definition disturbed :: "addr set \<Rightarrow> call \<Rightarrow> kernel \<Rightarrow> addr set" where
  "disturbed F c s = (case c of CDelete u \<Rightarrow> {task_or_current u s} | CSuspend u \<Rightarrow> {task_or_current u s} - F | _ \<Rightarrow> {})"

definition losers :: "call \<Rightarrow> kernel \<Rightarrow> addr set" where
  "losers c s = (case c of CUnlock _ \<Rightarrow> {osCurrentTask s} | CDelete u \<Rightarrow> {task_or_current u s} | _ \<Rightarrow> {})"

lemma fair_call:
  assumes s: "system_ok A s" and c: "allowed A s c"
  shows "holds (do_call c s) (fairs F (insert (osCurrentTask s) (disturbed F c s)) (losers c s) (saves c s) s)"
proof -
  let ?c = "osCurrentTask s"
  note r = system_okD(1) [OF s] and isr = fair_isr [OF system_okD(1,2) [OF s]]
  have more: "holds m (fairs F C' D' K' s)"
    if "holds m (fairs F C D K s)" "C \<subseteq> C'" "D \<subseteq> D'" "K \<subseteq> K'" for m C D K C' D' K'
    using that fair_mono by (auto simp: holds_def split: option.splits)
  have bits: "fair F {?c} {} (others ?c) s s" by simp
  have "holds (Option.bind m (\<lambda>s. leave (osCurrentTask s) (KReturn VVoid) (\<lambda>_ s. Some (Returned VVoid, s)) (osSchedule 0 s)))
      (fairs F {?c} {} (others ?c) s)"
    if "holds m (fair F {} {} {} s)" "holds m (\<lambda>s'. osCurrentTask s' = ?c)" for m
  proof (rule fair_then_schedule)
    show "holds m (\<lambda>s'. fair F {?c} {} (others ?c) s s' \<and> (osCurrentTask s', KReturn VVoid) \<in> others ?c)"
      using that by (auto simp: holds_def split: option.splits elim: fair_mono)
  qed
  note give = this
  have calls: "holds (osSemaphoreGive m s) (fairs F {?c} {} (others ?c) s)" "holds (osEventSet e f s) (fairs F {?c} {} (others ?c) s)"
    "t \<in> A \<Longrightarrow> holds (osTaskResume t s) (fairs F {?c} {} (others ?c) s)" for m t e f
    unfolding osSemaphoreGive_def osTaskResume_def osEventSet_def
    using isr isr_call_ok [OF s, of "IGive m"] isr_call_ok [OF s, of "IEventSet e f"] isr_call_ok [OF s, of "IResume t"]
    by (intro give; auto simp: returns_iff)+
  show ?thesis
  proof (cases c)
    case (CEventClear e f)
    then show ?thesis by (auto intro!: untouched simp: osEventClear_def)
  next
    case (CSuspend u)
    then show ?thesis
      using more [OF fair_osTaskSuspend [of u s F]] by (simp add: losers_def disturbed_def saves_def subset_insertI)
  next
    case (CSetPriority u p)
    then show ?thesis by (auto intro!: fair_osTaskSetPriority simp: saves_def)
  next
    case (CDelete u)
    then show ?thesis
      using more [OF fair_osTaskDelete [OF r refl, of u F]] c by (simp add: losers_def disturbed_def saves_def subset_insertI)
  qed (use fair_calls [OF bits] fair_waiting [OF r] fair_osMutexTryLock [OF r refl] fair_osMutexUnlock [OF r refl]
      calls c in \<open>simp_all add: losers_def disturbed_def saves_def\<close>)
qed

lemma idle_try:
  assumes r: "rest A s" and c: "osCurrentTask s = osIdleTask s"
  shows "holds (osMutexTryLock m d s) (\<lambda>x. cont (snd x) = cont s)"
proof (cases "owner (mutexes s m)")
  case None
  then show ?thesis by (simp add: osMutexTryLock_def Let_def)
next
  case (Some t)
  let ?c = "osCurrentTask s"
  have "holds (osPriorityRaise t (priority (tasks s ?c)) s) (fair UNIV {?c} {} {} s)" by (auto intro!: untouched)
  from holds_returns [OF osPriorityRaise_no_rival [OF r Some] this] obtain s1
    where s1: "osPriorityRaise t (priority (tasks s ?c)) s = Some s1" "fair UNIV {?c} {} {} s s1" "osCurrentTask s1 = ?c"
      "state (tasks s1 ?c) = OS_TASK_RUNNING" "osIdleTask s1 = osIdleTask s"
    by (auto simp: returns_iff no_rival_def)
  have "osBlock (Some (MutexHead m)) d (set_state ?c x s1) = Some (Returned (VBool False), s1)" for x
    using idle_does_not_wait [of s1] s1(3-5) c by simp
  moreover have "holds (osMutexTryLock_end m b s1) (\<lambda>x. cont (snd x) = cont s)" for b
    using fair_osMutexTryLock_end [OF s1(2), of m b] fairD(3)
    by (auto simp: holds_def fun_eq_iff split: option.splits)
  ultimately show ?thesis using Some by (simp add: osMutexTryLock_def Let_def s1(1) leave_def)
qed

section \<open>Those who wait\<close>

definition grants :: "addr set \<Rightarrow> addr set \<Rightarrow> kernel \<Rightarrow> bool" where
  "grants F A s \<longleftrightarrow> (\<forall>t \<in> A. \<forall>m. cont s t = Some (KMutexTryLock m) \<longrightarrow> fine F t m s)"

lemma grants_fair:
  assumes "grants F A s" and "fair F C D K s s'" and "\<And>t m. t \<in> A \<Longrightarrow> t \<in> C \<Longrightarrow> cont s t \<noteq> Some (KMutexTryLock m)"
    and "\<And>t m. t \<in> A \<Longrightarrow> (t, KMutexTryLock m) \<in> K \<Longrightarrow> cont s' t = Some (KMutexTryLock m) \<Longrightarrow> fine F t m s'"
  shows "grants F A s'"
  unfolding grants_def
proof (intro ballI allI impI)
  fix t m assume t: "t \<in> A" "cont s' t = Some (KMutexTryLock m)"
  show "fine F t m s'"
  proof (cases "(t, KMutexTryLock m) \<in> K")
    case False
    then have k: "cont s t = Some (KMutexTryLock m)" using assms(2) t(2) unfolding fair_def by (metis option.inject)
    then have "fine F t m s" "t \<notin> C" using assms(1,3) t(1) unfolding grants_def by blast+
    then show ?thesis using assms(2) unfolding fair_def by blast
  qed (use assms(4) t in blast)
qed

lemma grants_taken:
  assumes "grants F A s"
  shows "grants F A (taken c s)"
  using assms unfolding grants_def by (auto simp: taken_def fine_def)

text \<open>Who has begun to wait for a mutex is on its list.\<close>

lemma try_waits:
  assumes s: "system_ok A s" and c: "cont s (osCurrentTask s) = None" and m: "osMutexTryLock x d s = Some (r, s')"
    and k: "cont s' (osCurrentTask s) = Some (KMutexTryLock m)" and u: "\<not> uncertain F (Call (CTryLock x d)) s"
  shows "fine F (osCurrentTask s) m s'"
proof -
  note lock = osMutexTryLock_rest [OF system_okD(1,2) [OF s] refl, of x d]
  have "osCurrentTask s \<noteq> osIdleTask s"
    using idle_try [OF system_okD(1) [OF s], of x d] m c k by auto
  then show ?thesis
    using lock m c k u by (auto simp: fine_def split: option.splits if_splits)
qed

lemma fair_kont: "holds (run_kont k s) (fairs F {} {} (others (osCurrentTask s)) s)"
  unfolding run_kont_def Let_def osQueue_end_def osTaskDelete_end_def
  by (cases k) (auto intro!: untouched)

lemma fair_back:
  assumes "run_kont k (taken (osCurrentTask s) s) = Some (r, s')"
  shows "fair F {} {} (others (osCurrentTask s)) (taken (osCurrentTask s) s) s'"
  using fair_kont [of k "taken (osCurrentTask s) s" F] assms by (simp add: taken_def)

lemma step_fair:
  assumes st: "step fire A a s s'" and s: "system_ok A s" and fire: "keeps_kernel A fire" "keeps_locks fire"
    and g: "grants F A s" and e: "\<not> ends_wait a s" "\<not> uncertain F a s"
  shows "grants F A s'"
  using st
proof (rule stepE)
  fix c r assume c: "a = Call c" "cont s (osCurrentTask s) = None" "allowed A s c" "do_call c s = Some (r, s')"
  have f: "fair F (insert (osCurrentTask s) (disturbed F c s)) (losers c s) (saves c s) s s'"
    using fair_call [OF s c(3)] c(4) by simp
  show ?thesis
  proof (rule grants_fair [OF g f])
    show "cont s t \<noteq> Some (KMutexTryLock m)" if "t \<in> insert (osCurrentTask s) (disturbed F c s)" for t m
      using that c(1,2) e by (auto simp: disturbed_def split: call.splits)
    show "fine F t m s'" if "(t, KMutexTryLock m) \<in> saves c s" "cont s' t = Some (KMutexTryLock m)" for t m
      using that try_waits [OF s c(2)] c(1,4) e by (auto simp: saves_def split: call.splits)
  qed
next
  fix k r assume "run_kont k (taken (osCurrentTask s) s) = Some (r, s')"
  note f = fair_back [OF this]
  show ?thesis by (rule grants_fair [OF grants_taken [OF g] f]) simp_all
next
  fix "is" r assume i: "cont s (osCurrentTask s) = None" "handler_ok A s is" "OS_ISR is s = Some (r, s')"
  then have "fair F {osCurrentTask s} {} (others (osCurrentTask s)) s s'" using fair_handler [OF s, of "is"] by simp
  then show ?thesis by (rule grants_fair [OF g]) (use i(1) in auto)
next
  fix r assume "tick_interrupt fire s = Some (r, s')"
  then have "fair F {} {} (others (osCurrentTask s)) s s'" using fair_tick [OF s fire] by simp
  then show ?thesis by (rule grants_fair [OF g]) auto
next
  fix p bs assume "s' = ram_upd (poke p bs) s"
  then show ?thesis using g by (simp add: grants_def fine_def)
qed

section \<open>Those who own\<close>

lemma step_owner:
  assumes st: "step fire A a s s'" and s: "system_ok A s" and fire: "keeps_kernel A fire" "keeps_locks fire"
    and o': "owner (mutexes s m) = Some t" and g: "\<not> gives_up a s t m"
  shows "owner (mutexes s' m) = Some t"
  using st
proof (rule stepE)
  fix c r assume c: "a = Call c" "allowed A s c" "do_call c s = Some (r, s')"
  have f: "fair UNIV (insert (osCurrentTask s) (disturbed UNIV c s)) (losers c s) (saves c s) s s'"
    using fair_call [OF s c(2)] c(3) by simp
  show ?thesis
  proof (cases "t \<in> losers c s")
    case False
    then show ?thesis using f o' unfolding fair_def by blast
  next
    case True
    then obtain x where x: "c = CUnlock x" "t = osCurrentTask s" "x \<noteq> m"
      using g c(1) by (auto simp: losers_def split: call.splits)
    show ?thesis
      using osMutexUnlock_rest [OF system_okD(1,2) [OF s], of x] c(3) x o' by (auto split: if_splits)
  qed
next
  fix k r assume "run_kont k (taken (osCurrentTask s) s) = Some (r, s')"
  from fair_back [OF this] show ?thesis using o' by (simp add: fair_def taken_def)
next
  fix "is" r assume i: "handler_ok A s is" "OS_ISR is s = Some (r, s')"
  then have "fair UNIV {osCurrentTask s} {} (others (osCurrentTask s)) s s'" using fair_handler [OF s, of "is"] by simp
  then show ?thesis using o' by (simp add: fair_def)
next
  fix r assume "tick_interrupt fire s = Some (r, s')"
  then have "fair UNIV {} {} (others (osCurrentTask s)) s s'" using fair_tick [OF s fire] by simp
  then show ?thesis using o' by (simp add: fair_def)
next
  fix p bs assume "s' = ram_upd (poke p bs) s"
  then show ?thesis using o' by simp
qed

text \<open>The steps in which a call of \<open>osMutexTryLock\<close> returns true.\<close>

definition true :: "res \<Rightarrow> bool" where
  "true x \<longleftrightarrow> (case x of Some (Returned v, _) \<Rightarrow> v = VBool True | _ \<Rightarrow> False)"

fun locks :: "action \<Rightarrow> kernel \<Rightarrow> addr \<Rightarrow> bool" where
  "locks (Call (CTryLock x n)) s m \<longleftrightarrow> x = m \<and> true (osMutexTryLock m n s)"
| "locks Back s m \<longleftrightarrow> cont s (osCurrentTask s) = Some (KMutexTryLock m) \<and>
     true (run_kont (KMutexTryLock m) (taken (osCurrentTask s) s))"
| "locks _ s m \<longleftrightarrow> False"

lemma step_locks:
  assumes st: "step fire A a s s'" and s: "system_ok A s" and g: "grants F A s" and l: "locks a s m"
  shows "owner (mutexes s' m) = Some (osCurrentTask s)"
  using st
proof (rule stepE)
  fix c r assume c: "a = Call c" "do_call c s = Some (r, s')"
  with l obtain n where "c = CTryLock m n" by (cases c) auto
  then show ?thesis
    using osMutexTryLock_rest [OF system_okD(1,2) [OF s] refl, of m n] c l
    by (auto simp: true_def split: option.splits if_splits)
next
  fix k r assume k: "a = Back" "cont s (osCurrentTask s) = Some k" "run_kont k (taken (osCurrentTask s) s) = Some (r, s')"
  let ?c = "osCurrentTask s"
  have c: "?c \<in> A" "waitList (tasks s ?c) = None"
    using rest_current running_waits_for_nothing system_okD(1) [OF s] by auto
  then have o': "result (tasks s ?c) \<noteq> 0 \<Longrightarrow> owner (mutexes s m) = Some ?c"
    using g k l by (auto simp: grants_def fine_def)
  have m: "k = KMutexTryLock m" "true (Some (r, s'))" using k l by auto
  then have "osMutexTryLock_end m (result (tasks s ?c) \<noteq> 0) (taken ?c s) = Some (r, s')"
    using k(3) by (simp add: run_kont_def taken_def)
  moreover from this have "result (tasks s ?c) \<noteq> 0"
    using m(2) by (auto simp: true_def osMutexTryLock_end_def bind_eq_Some_conv split: outcome.splits)
  ultimately show ?thesis using o' by (auto simp: osMutexTryLock_end_def taken_def)
qed (use l in simp_all)

section \<open>Before the first lock\<close>

text \<open>Until the first task has run nobody owns a mutex, and nobody is in a call that waits.\<close>

definition plain :: "kernel \<Rightarrow> bool" where
  "plain s \<longleftrightarrow> (\<forall>m. owner (mutexes s m) = None) \<and>
     (\<forall>t. case cont s t of None \<Rightarrow> True | Some (KReturn _) \<Rightarrow> True | Some (KStart _ _) \<Rightarrow> True | _ \<Rightarrow> False)"

lemma plain_cong:
  "plain s \<Longrightarrow> (\<And>m. owner (mutexes s' m) = owner (mutexes s m)) \<Longrightarrow> cont s' = cont s \<Longrightarrow> plain s'"
  by (simp add: plain_def)

interpretation plain: scheduling_frame plain
  by unfold_locales (erule plain_cong; simp)+

lemma plain_save: "plain s \<Longrightarrow> plain (save t (KReturn v) s)" "plain s \<Longrightarrow> plain (save t (KStart f p) s)"
  by (simp_all add: plain_def)

lemma plain_schedule:
  assumes "plain s"
  shows "holds (leave t (KReturn v) (\<lambda>_ s. Some (Returned w, s)) (osSchedule y s)) (\<lambda>x. plain (snd x))"
  unfolding leave_def
  by (rule holds_bind [OF plain.osSchedule [OF assms]]) (auto simp: plain_save split: outcome.split)

lemma plain_osTaskSetup: "plain s \<Longrightarrow> holds (osTaskSetup link f p mem len prio dyn s) (\<lambda>x. plain (snd x))"
proof (cases "mem = None \<or> len < OS_TASK_MEMORY OS_STACK_MIN")
  case True
  then show "plain s \<Longrightarrow> ?thesis" by (auto simp: osTaskSetup_def split: option.split)
next
  case False
  then obtain a where a: "mem = Some a" "\<not> len < OS_TASK_MEMORY OS_STACK_MIN" by auto
  assume "plain s"
  then have "plain (prepared link f p a len prio dyn s)" by (simp add: plain_def)
  from plain.osReady [OF this] show ?thesis
    unfolding a(1) osTaskSetup_prepared [OF a(2) refl] by (rule holds_bind) (rule plain_schedule)
qed

lemma plain_make: "plain s \<Longrightarrow> plain (make x s)"
  by (cases x) (auto simp: plain_def osSemaphoreInit_def osMutexInit_def osEventInit_def osQueueInit_def)

lemma boots_plain: "boots A s \<Longrightarrow> plain s"
proof (induction rule: boots.induct)
  case (boots_init s heap_start spr)
  then show ?case by (simp add: power_on_def plain_def osInit_def Let_def ram_upd_def)
next
  case (boots_create A s mem len link fn param prio r s')
  then show ?case using plain_osTaskSetup [of s link fn param "Some mem" len prio 0] by (simp add: osTaskCreate_def)
qed (simp add: plain_make)

lemma osRun_plain:
  assumes "plain s" and "osRun s = Some (r, s')"
  shows "plain s'"
proof -
  let ?s = "set_basePriority (osIdleTask s) 0 (set_priority (osIdleTask s) 0 s)"
  have "plain ?s" by (rule plain_cong [OF assms(1)]) simp_all
  from plain_schedule [OF this, of "osCurrentTask s" VVoid VVoid 0] assms(2) show ?thesis
    by (simp add: osRun_def Let_def)
qed

lemma plain_grants: "plain s \<Longrightarrow> grants F A s"
proof -
  assume "plain s"
  then have "cont s t \<noteq> Some (KMutexTryLock m)" for t m
    unfolding plain_def by (metis (mono_tags, lifting) kont.case(4) option.case(2))
  then show ?thesis by (simp add: grants_def)
qed

section \<open>Who holds what\<close>

text \<open>
  As \<open>reachable\<close>, with the pairs \<open>(t, m)\<close> of a task and a mutex such that a call of
  \<open>osMutexTryLock\<close> has told the task that it has locked the mutex, and since then it has neither
  unlocked the mutex nor been deleted.
\<close>

inductive holding ::
  "callback \<Rightarrow> (action \<Rightarrow> kernel \<Rightarrow> bool) \<Rightarrow> addr set \<Rightarrow> kernel \<Rightarrow> (addr \<times> addr) set \<Rightarrow> bool" for fire P where
  hold_run: "boots A s \<Longrightarrow> osRun s = Some (r, s') \<Longrightarrow> holding fire P A s' {}"
| hold_step: "holding fire P A s H \<Longrightarrow> step fire A a s s' \<Longrightarrow> P a s \<Longrightarrow>
    holding fire P A s' ({(t, m). (t, m) \<in> H \<and> \<not> gives_up a s t m} \<union> {(t, m). t = osCurrentTask s \<and> locks a s m})"
| hold_make: "holding fire P A s H \<Longrightarrow> cont s (osCurrentTask s) = None \<Longrightarrow> unused A s x \<Longrightarrow>
    holding fire P A (make x s) H"
| hold_create: "holding fire P A s H \<Longrightarrow> cont s (osCurrentTask s) = None \<Longrightarrow> fits A s mem len \<Longrightarrow>
    osTaskCreate link fn param (Some mem) len prio s = Some (r, s') \<Longrightarrow>
    holding fire P (insert (task_place mem len) A) s' H"

lemma holding_reachable: "holding fire P A s H \<Longrightarrow> reachable fire P A s"
  by (induction rule: holding.induct) (blast intro: reachable.intros)+

lemma reachable_holding: "reachable fire P A s \<Longrightarrow> \<exists>H. holding fire P A s H"
  by (induction rule: reachable.induct) (blast intro: holding.intros)+

text \<open>New objects and new tasks change nothing for those who wait or own.\<close>

lemma make_locks:
  assumes "unused A s x"
  shows "grants F A s \<Longrightarrow> grants F A (make x s)" and "owner (mutexes s m) = Some t \<Longrightarrow> owner (mutexes (make x s) m) = Some t"
  using assms
  by (cases x; auto simp: grants_def fine_def osSemaphoreInit_def osMutexInit_def osEventInit_def osQueueInit_def)+

lemma fair_create:
  assumes len: "\<not> len < OS_TASK_MEMORY OS_STACK_MIN" and m: "osTaskCreate link fn param (Some mem) len prio s = Some (r, s')"
  shows "fair F {} {} {(t, k). \<forall>m. k \<noteq> KMutexTryLock m} (prepared link fn param mem len prio 0 s) s'"
proof -
  let ?t = "task_place mem len" and ?K = "{(t, k). \<forall>m. k \<noteq> KMutexTryLock m}"
  define s1 where "s1 = prepared link fn param mem len prio 0 s"
  have "holds (osReady ?t s1) (\<lambda>s'. fair F {} {} ?K s1 s' \<and> (osCurrentTask s', KReturn (VTask (Some ?t))) \<in> ?K)"
    using fair.osReady [of F "{}" "{}" ?K s1 s1 ?t] by simp
  then have "holds (osTaskSetup link fn param (Some mem) len prio 0 s) (fairs F {} {} ?K s1)"
    unfolding osTaskSetup_prepared [OF len refl] s1_def [symmetric] by (rule fair_then_schedule)
  then show ?thesis using m by (simp add: osTaskCreate_def s1_def)
qed

lemma create_locks:
  assumes "fits A s mem len" and m: "osTaskCreate link fn param (Some mem) len prio s = Some (r, s')"
  shows "grants F A s \<Longrightarrow> grants F (insert (task_place mem len) A) s'"
    and "owner (mutexes s m) = Some t \<Longrightarrow> owner (mutexes s' m) = Some t"
proof -
  let ?t = "task_place mem len"
  have new: "?t \<notin> A" "\<not> len < OS_TASK_MEMORY OS_STACK_MIN"
    using assms(1) by (simp_all add: fits_def fresh_def stack_min)
  note f = fair_create [OF new(2) m]
  show "owner (mutexes s' m) = Some t" if "owner (mutexes s m) = Some t"
    using fairD(2) [OF f] that by simp
  assume "grants F A s"
  then have "grants F (insert ?t A) (prepared link fn param mem len prio 0 s)"
    using new(1) by (auto simp: grants_def fine_def)
  then show "grants F (insert ?t A) s'" by (rule grants_fair [OF _ f]) simp_all
qed

text \<open>Whoever holds a mutex is its owner.\<close>

lemma holding_owner:
  assumes "holding fire P A s H" and fire: "\<And>A. keeps_kernel A fire" "keeps_locks fire"
    and P: "\<And>a s. P a s \<Longrightarrow> \<not> ends_wait a s \<and> \<not> uncertain F a s"
  shows "grants F A s \<and> (\<forall>(t, m) \<in> H. owner (mutexes s m) = Some t)"
  using assms(1)
proof (induction rule: holding.induct)
  case (hold_run A s r s')
  then show ?case using plain_grants osRun_plain boots_plain by blast
next
  case (hold_step A s H a s')
  have ok: "system_ok A s" using reachable_ok [OF holding_reachable [OF hold_step.hyps(1)] fire(1)] .
  have "grants F A s'"
    using step_fair [OF hold_step.hyps(2) ok fire] hold_step.IH P [OF hold_step.hyps(3)] by blast
  moreover have "owner (mutexes s' m) = Some t" if "(t, m) \<in> H" "\<not> gives_up a s t m" for t m
    using step_owner [OF hold_step.hyps(2) ok fire _ that(2)] that(1) hold_step.IH by blast
  moreover have "owner (mutexes s' m) = Some (osCurrentTask s)" if "locks a s m" for m
    using step_locks [OF hold_step.hyps(2) ok _ that] hold_step.IH by blast
  ultimately show ?case by auto
next
  case (hold_make A s H x)
  then show ?case using make_locks by blast
next
  case (hold_create A s H mem len link fn param prio r s')
  then show ?case using create_locks [OF hold_create.hyps(3,4)] by auto
qed

lemmas reachable_grants = holding_owner [THEN conjunct1]

text \<open>Whoever cannot fail to get the mutex comes back with it.\<close>

lemma grants_locks:
  assumes s: "system_ok A s" and g: "grants F A s" and t: "osCurrentTask s \<notin> F"
    and k: "cont s (osCurrentTask s) = Some (KMutexTryLock m)"
  shows "result (tasks s (osCurrentTask s)) \<noteq> 0" and "locks Back s m" and "owner (mutexes s m) = Some (osCurrentTask s)"
proof -
  let ?c = "osCurrentTask s"
  have "?c \<in> A" "waitList (tasks s ?c) = None"
    using rest_current running_waits_for_nothing system_okD(1) [OF s] by auto
  then show "result (tasks s ?c) \<noteq> 0" and "owner (mutexes s m) = Some ?c"
    using g t k by (auto simp: grants_def fine_def)
  then show "locks Back s m"
    using k by (auto simp: true_def run_kont_def taken_def osMutexTryLock_end_def)
qed

text \<open>Functions that give a semaphore.\<close>

lemma giver_keeps_locks: "keeps_locks giver"
  unfolding keeps_locks_def giver_def by (auto simp: kernel_ok_def intro: fair_isr)

end
