(* ===== verification/Programs.thy ===== *)
theory Programs
  imports Mutual_Exclusion
begin

text \<open>
  What the programs that come with the kernel have in common: static memory for tasks and for a
  queue, a \<open>main\<close> which makes the queue and the tasks and runs them.
\<close>

section \<open>Where things are\<close>

text \<open>
  Addresses are the linker's: of the functions of the tasks, of their memory, of the mutex, of
  the queue and its buffer, and of the messages, which are variables on stacks.
\<close>

record layout =
  idle_at :: addr
  heap_start :: addr
  spr :: addr
  linker :: "u16 \<times> u16"
  entry_of :: "nat \<Rightarrow> u16"
  memory_of :: "nat \<Rightarrow> addr"
  mutex_at :: addr
  queue_at :: addr
  queueMemory_at :: addr
  message_at :: "nat \<Rightarrow> addr"

text \<open>The numbers of the tasks of a program and of its messages, and what its queue holds.\<close>

record shape =
  members :: "nat set"
  rooms :: "nat set"
  item_size :: u8
  item_count :: u8

definition OS_MS :: "nat \<Rightarrow> u16" where
  "OS_MS ms = of_nat ((ms * OS_CFG_TICK_HZ + 999) mod 2 ^ 32 div 1000)"

definition OS_QUEUE_MEMORY :: "u16 \<Rightarrow> u16 \<Rightarrow> u16" where
  "OS_QUEUE_MEMORY sz n = sz * n"

lemma OS_QUEUE_MEMORY_holds: "unat (OS_QUEUE_MEMORY (ucast (sz :: u8)) (ucast (n :: u8))) = unat n * unat sz"
proof -
  have "unat sz < 2 ^ 8" "unat n < 2 ^ 8" using unsigned_less [of sz] unsigned_less [of n] by simp_all
  then have "unat sz * unat n \<le> 255 * 255" by (intro mult_mono) simp_all
  then show ?thesis
    by (simp add: OS_QUEUE_MEMORY_def unat_word_ariths unsigned_ucast_eq take_bit_nat_eq_self mult.commute)
qed

text \<open>Size of the memory of a task.\<close>

abbreviation sizeof_memory :: u16 where
  "sizeof_memory \<equiv> OS_TASK_MEMORY 128"

definition task :: "layout \<Rightarrow> nat \<Rightarrow> addr" where
  "task L i = task_place (memory_of L i) sizeof_memory"

definition tasks_of :: "shape \<Rightarrow> layout \<Rightarrow> addr set" where
  "tasks_of P L = insert (idle_at L) (task L ` members P)"

text \<open>
  What is relied on of the linker: the tasks are different, and the ends of the stacks are neither
  in the memory of another task nor in a buffer or a message, which do not overlap.
\<close>

definition main_stack :: "layout \<Rightarrow> addr" where
  "main_stack L = (if 0x2100 < heap_start L then heap_start L else 0x2100)"

definition ends :: "shape \<Rightarrow> layout \<Rightarrow> addr set" where
  "ends P L = insert (main_stack L) (memory_of L ` members P)"

definition buffer_of :: "shape \<Rightarrow> layout \<Rightarrow> addr set" where
  "buffer_of P L = region (queueMemory_at L) (unat (item_count P) * unat (item_size P))"

definition room_of :: "shape \<Rightarrow> layout \<Rightarrow> nat \<Rightarrow> addr set" where
  "room_of P L i = region (message_at L i) (unat (item_size P))"

definition layout_ok :: "shape \<Rightarrow> layout \<Rightarrow> bool" where
  "layout_ok P L \<longleftrightarrow>
     main_stack L < spr L - 16 \<and> inj_on (task L) (members P) \<and> idle_at L \<notin> task L ` members P \<and>
     (\<forall>i \<in> members P. main_stack L \<notin> region (memory_of L i) (unat sizeof_memory) \<and>
        region (memory_of L i) (unat sizeof_memory) \<inter> ends P L \<subseteq> {memory_of L i}) \<and>
     buffer_of P L \<inter> ends P L = {} \<and>
     (\<forall>i \<in> rooms P. room_of P L i \<inter> ends P L = {} \<and> room_of P L i \<inter> buffer_of P L = {} \<and>
        (\<forall>j \<in> rooms P. i \<noteq> j \<longrightarrow> room_of P L i \<inter> room_of P L j = {}))"

lemma layout_okD:
  assumes "layout_ok P L"
  shows "main_stack L < spr L - 16"
    and "i \<in> members P \<Longrightarrow> j \<in> members P \<Longrightarrow> task L i = task L j \<longleftrightarrow> i = j"
    and "i \<in> members P \<Longrightarrow> task L i \<noteq> idle_at L" and "i \<in> members P \<Longrightarrow> idle_at L \<noteq> task L i"
    and "i \<in> members P \<Longrightarrow> main_stack L \<notin> region (memory_of L i) (unat sizeof_memory)"
    and "i \<in> members P \<Longrightarrow> j \<in> members P \<Longrightarrow> memory_of L j \<in> region (memory_of L i) (unat sizeof_memory) \<Longrightarrow>
      memory_of L j = memory_of L i"
    and "buffer_of P L \<inter> ends P L = {}"
    and "i \<in> rooms P \<Longrightarrow> room_of P L i \<inter> ends P L = {}"
    and "i \<in> rooms P \<Longrightarrow> room_of P L i \<inter> buffer_of P L = {}"
    and "i \<in> rooms P \<Longrightarrow> j \<in> rooms P \<Longrightarrow> i \<noteq> j \<Longrightarrow> room_of P L i \<inter> room_of P L j = {}"
proof -
  note L = assms [unfolded layout_ok_def]
  show "main_stack L < spr L - 16" "i \<in> members P \<Longrightarrow> task L i \<noteq> idle_at L" "i \<in> members P \<Longrightarrow> idle_at L \<noteq> task L i"
    "i \<in> members P \<Longrightarrow> main_stack L \<notin> region (memory_of L i) (unat sizeof_memory)"
    "buffer_of P L \<inter> ends P L = {}" "i \<in> rooms P \<Longrightarrow> room_of P L i \<inter> ends P L = {}"
    "i \<in> rooms P \<Longrightarrow> room_of P L i \<inter> buffer_of P L = {}"
    "i \<in> rooms P \<Longrightarrow> j \<in> rooms P \<Longrightarrow> i \<noteq> j \<Longrightarrow> room_of P L i \<inter> room_of P L j = {}"
    using L by (auto, metis image_eqI)
  show "i \<in> members P \<Longrightarrow> j \<in> members P \<Longrightarrow> task L i = task L j \<longleftrightarrow> i = j"
    using L inj_on_eq_iff by metis
  show "i \<in> members P \<Longrightarrow> j \<in> members P \<Longrightarrow> memory_of L j \<in> region (memory_of L i) (unat sizeof_memory) \<Longrightarrow>
      memory_of L j = memory_of L i"
    using L by (auto simp: ends_def)
qed

text \<open>Where the stacks of the tasks created so far and the buffer of the queue are.\<close>

definition arranged :: "shape \<Rightarrow> layout \<Rightarrow> nat set \<Rightarrow> kernel \<Rightarrow> bool" where
  "arranged P L T s \<longleftrightarrow>
     osIdleTask s = idle_at L \<and> osTimers s = None \<and> stack (tasks s (idle_at L)) = main_stack L \<and>
     (\<forall>i \<in> T. stack (tasks s (task L i)) = memory_of L i) \<and>
     buffer (queues s (queue_at L)) = queueMemory_at L \<and> itemSize (queues s (queue_at L)) = item_size P \<and>
     q_length (queues s (queue_at L)) = item_count P \<and> (\<forall>q. q \<noteq> queue_at L \<longrightarrow> q_length (queues s q) = 0)"

lemma arranged_in_place:
  "arranged P L T s \<Longrightarrow> in_place X s s' \<Longrightarrow> osTimers s' = osTimers s \<Longrightarrow> arranged P L T s'"
  unfolding arranged_def in_place_def by auto

lemma arranged_buffer:
  assumes "arranged P L T s"
  shows "buffer_region (queues s q) = (if q = queue_at L then buffer_of P L else {})"
  using assms by (simp add: arranged_def buffer_region_def buffer_of_def)

text \<open>The ends of the stacks are what nobody but the scheduler looks at.\<close>

lemma arranged_harmless:
  assumes "arranged P L (members P) s" and "X \<inter> ends P L = {}"
  shows "harmless (tasks_of P L) s X"
  using assms by (auto simp: harmless_def tasks_of_def arranged_def ends_def)

section \<open>Up to \<open>osRun\<close>\<close>

text \<open>Nobody waits for a mutex or a queue yet.\<close>

definition no_waits :: "kernel \<Rightarrow> bool" where
  "no_waits s \<longleftrightarrow> (\<forall>t. (\<forall>m. waitList (tasks s t) \<noteq> Some (MutexHead m)) \<and> (\<forall>q. waitList (tasks s t) \<noteq> Some (QueueHead q)))"

lemma no_waits_kept:
  assumes "no_waits s" and "in_place {} s s'" and "fair F C D {(t, k). \<forall>m. k \<noteq> KMutexTryLock m} s s'"
  shows "no_waits s'"
  using assms(1,2) fairD(5) [OF assms(3)] unfolding no_waits_def in_place_def by fastforce

text \<open>The state of a program between its first call and \<open>osRun\<close>.\<close>

definition built :: "shape \<Rightarrow> layout \<Rightarrow> nat set \<Rightarrow> kernel \<Rightarrow> bool" where
  "built P L T s \<longleftrightarrow> boots (insert (idle_at L) (task L ` T)) s \<and> arranged P L T s \<and> no_waits s"

lemma aside_create:
  assumes len: "\<not> len < OS_TASK_MEMORY OS_STACK_MIN" and m: "osTaskCreate link fn param (Some mem) len prio s = Some (r, s')"
  shows "aside {} (prepared link fn param mem len prio 0 s) s'"
proof -
  have "holds (osTaskSetup link fn param (Some mem) len prio 0 s) (asides {} (prepared link fn param mem len prio 0 s))"
    unfolding osTaskSetup_prepared [OF len refl]
    by (rule holds_bind [OF aside.osReady]) (auto intro!: untouched)
  then show ?thesis using m by (simp add: osTaskCreate_def)
qed

lemma prepared_osTimers: "osTimers (prepared link fn param mem len prio dyn s) = osTimers s"
  by (simp add: prepared_def case_prod_unfold Let_def ram_upd_def)

lemma sizeof_memory_enough [simp]: "\<not> sizeof_memory < OS_TASK_MEMORY OS_STACK_MIN"
  by (simp add: OS_TASK_MEMORY_def OS_STACK_MIN_def)

text \<open>\<open>osInit\<close> and \<open>osQueueInit\<close>.\<close>

lemma built_init:
  assumes L: "layout_ok P L" and on: "power_on s" "osIdleTask s = idle_at L"
  shows "built P L {} (osQueueInit (queue_at L) (queueMemory_at L) (item_size P) (item_count P) (osInit (heap_start L) (spr L) s))"
proof -
  define s0 where "s0 = osInit (heap_start L) (spr L) s"
  have b0: "boots {idle_at L} s0"
    using boots_init [OF on(1)] layout_okD(1) [OF L] unfolding on(2) [symmetric] s0_def main_stack_def by blast
  have st: "osTimers s0 = None" "osIdleTask s0 = idle_at L" "stack (tasks s0 (idle_at L)) = main_stack L"
      "queues s0 = queues s" "no_waits s0"
    using on
    by (simp_all add: s0_def osInit_def Let_def main_stack_def power_on_def no_waits_def zeroed_def ram_upd_def)
  let ?make = "MQueue (queue_at L) (queueMemory_at L) (item_size P) (item_count P)"
  have "main_stack L \<notin> buffer_of P L" using layout_okD(7) [OF L] by (auto simp: ends_def)
  then have "unused {idle_at L} s0 ?make"
    using st by (simp add: harmless_def waited_for_def no_waits_def buffer_of_def)
  then have "boots {idle_at L} (Boot.make ?make s0)" by (rule boots_make [OF b0])
  moreover have "arranged P L {} (Boot.make ?make s0)"
    using st on by (auto simp: arranged_def osQueueInit_def power_on_def)
  moreover have "no_waits (Boot.make ?make s0)" using st(5) by (simp add: no_waits_def osQueueInit_def)
  ultimately show ?thesis by (simp add: built_def s0_def)
qed

text \<open>\<open>osTaskCreate\<close>.\<close>

lemma built_create:
  assumes L: "layout_ok P L" and b: "built P L T s" and T: "insert i T \<subseteq> members P" "i \<notin> T"
  obtains r s' where "osTaskCreate (linker L) (entry_of L i) 0 (Some (memory_of L i)) sizeof_memory p s = Some (r, s')"
    and "built P L (insert i T) s'"
proof -
  let ?A = "insert (idle_at L) (task L ` T)"
  let ?p = "prepared (linker L) (entry_of L i) 0 (memory_of L i) sizeof_memory p 0 s"
  have bo: "boots ?A s" and a: "arranged P L T s" and w: "no_waits s" using b by (simp_all add: built_def)
  have i: "i \<in> members P" using T(1) by simp
  have other: "task L i \<noteq> task L j" "memory_of L j \<noteq> memory_of L i" if "j \<in> T" for j
  proof -
    show "task L i \<noteq> task L j" using layout_okD(2) [OF L i, of j] T that by auto
    then show "memory_of L j \<noteq> memory_of L i" unfolding task_def by auto
  qed
  have "harmless ?A s (region (memory_of L i) (unat sizeof_memory))"
    using a layout_okD(5) [OF L i] layout_okD(6) [OF L i] other(2) T(1) unfolding harmless_def arranged_def by fastforce
  moreover have "task L i \<notin> ?A" using layout_okD(3) [OF L i] other(1) by auto
  moreover have "memory_of L i \<in> ends P L" using i by (auto simp: ends_def)
  then have "memory_of L i \<notin> buffer_region (queues s q)" for q
    using layout_okD(7) [OF L] by (auto simp: arranged_buffer [OF a])
  ultimately have fits: "fits ?A s (memory_of L i) sizeof_memory"
    using w by (simp add: fits_def fresh_def task_def no_waits_def)
  from boot_create [OF boots_ok [OF bo] fits refl, of "linker L" "entry_of L i" 0 p]
  obtain r s' where m: "osTaskCreate (linker L) (entry_of L i) 0 (Some (memory_of L i)) sizeof_memory p s = Some (r, s')"
    by (auto simp: returns_iff)
  have as: "aside {} ?p s'" by (rule aside_create [OF _ m]) simp
  have "arranged P L (insert i T) ?p"
    using a other(1) [THEN not_sym] layout_okD(3) [OF L i]
    by (auto simp: arranged_def new_tcb_def prepared_osTimers task_def [symmetric])
  then have "arranged P L (insert i T) s'"
    using as arranged_in_place by (auto simp: aside_def)
  moreover have "no_waits ?p" using w by (auto simp: no_waits_def new_tcb_def zeroed_def)
  then have "no_waits s'"
    using no_waits_kept [OF _ _ fair_create [OF _ m]] as by (simp add: aside_def)
  moreover have "boots (insert (task L i) ?A) s'" using boots_create [OF bo fits m] by (simp add: task_def)
  ultimately show ?thesis using that m by (simp add: built_def insert_commute)
qed

text \<open>\<open>osRun\<close>: the first switch to a task.\<close>

lemma built_run:
  assumes b: "built P L (members P) s"
  obtains r k where "osRun s = Some (r, k)" and "reachable fire Q (tasks_of P L) k"
    and "arranged P L (members P) k" and "no_waits k" and "plain k"
proof -
  have bo: "boots (tasks_of P L) s" and a: "arranged P L (members P) s" and w: "no_waits s"
    using b by (simp_all add: built_def tasks_of_def)
  obtain r k where k: "osRun s = Some (r, k)" using osRun_ok [OF boots_ok [OF bo]] by (auto simp: returns_iff)
  have "holds (osRun s) (asides {} s)" "holds (osRun s) (fairs UNIV {} {} {(t, k). \<forall>m. k \<noteq> KMutexTryLock m} s)"
    by (auto simp: osRun_def Let_def intro!: untouched)
  then have run: "aside {} s k" "fair UNIV {} {} {(t, k). \<forall>m. k \<noteq> KMutexTryLock m} s k" by (simp_all add: k)
  have "arranged P L (members P) k" using arranged_in_place [OF a, of "{}" k] run(1) by (simp add: aside_def)
  moreover have "no_waits k" using no_waits_kept [OF w _ run(2)] run(1) by (simp add: aside_def)
  moreover have "reachable fire Q (tasks_of P L) k" by (rule reach_run [OF bo k])
  moreover have "plain k" by (rule osRun_plain [OF boots_plain [OF bo] k])
  ultimately show ?thesis using that k by blast
qed

end
