(* ===== verification/Program_Inv.thy ===== *)
theory Program_Inv
  imports Programs
begin

text \<open>
  Programs on top of the kernel: what its steps leave in place, who waits for the queue, and who is
  between \<open>osMutexLock\<close> and \<open>osMutexUnlock\<close>.
\<close>

section \<open>What the kernel does with the tasks\<close>

text \<open>The programs start no software timer.\<close>

definition no_timer :: callback where
  "no_timer fn param s = Some s"

text \<open>What the steps of the programs do not do.\<close>

definition careful :: "action \<Rightarrow> kernel \<Rightarrow> bool" where
  "careful a s \<longleftrightarrow> \<not> ends_wait a s \<and> \<not> uncertain {} a s \<and> \<not> relocks a s"

text \<open>Every step leaves buffers and stacks in place; only calls of the queue wait for it.\<close>

lemma aside_call:
  assumes r: "rest A s"
  shows "holds (do_call c s) (asides (case c of CSend _ _ _ \<Rightarrow> {osCurrentTask s} | CReceive _ _ _ \<Rightarrow> {osCurrentTask s} | _ \<Rightarrow> {}) s)"
  using running_waits_for_nothing [OF r]
  by (cases c) (auto intro!: untouched)

lemma aside_kont: "holds (run_kont k s) (asides {} s)"
  unfolding run_kont_def Let_def osQueue_end_def osTaskDelete_end_def
  by (cases k) (auto intro!: untouched)

lemma in_place_timed_out:
  assumes "data_eq (timed_out (up_next A s) (ticked s)) s'"
  shows "in_place {} s s'"
  by (auto simp: in_place_def data_eqD [OF assms] timed_out_def)

lemma in_place_tick:
  assumes s: "system_ok A s" and t: "osTimers s = None"
  shows "holds (tick_interrupt fire s) (\<lambda>x. in_place {} s (snd x) \<and> osTimers (snd x) = None)"
proof -
  let ?n = "osTicks s + 1"
  have "holds (osTickHandler fire s) (\<lambda>x. in_place {} s (snd x) \<and> osTimers (snd x) = None)"
  proof (rule returnsE [OF osTimeouts_rest [OF system_okD(1,2) [OF s]]], elim conjE)
    fix s1 assume s1: "osTimeouts ?n (ticked s) = Some s1" "data_eq (timed_out (up_next A s) (ticked s)) s1"
    have t1: "osTimers s1 = None" using t by (simp add: data_eqD [OF s1(2)] timed_out_def)
    then have "osTickHandler fire s = Option.bind (osSettle (osCurrentTask s1) s1) tick_end"
      by (simp add: osTickHandler_parts s1(1) osTimerTick.simps [of fire ?n s1])
    moreover have "holds (Option.bind (osSettle (osCurrentTask s1) s1) tick_end) (\<lambda>x. aside {} s1 (snd x))"
      by (rule holds_bind [OF aside.osSettle aside.tick_end]) simp_all
    ultimately show ?thesis
      using in_place_trans [OF in_place_timed_out [OF s1(2)]] t1 by (auto simp: holds_def aside_def split: option.splits)
  qed
  then show ?thesis
    unfolding tick_interrupt_def leave_def
    by (rule holds_bind) (auto simp: in_place_def split: outcome.split)
qed

lemma no_timer_keeps: "keeps_kernel A no_timer" "keeps_locks no_timer"
  by (auto simp: keeps_kernel_def keeps_locks_def no_timer_def)

lemma careful_grants:
  assumes "reachable no_timer careful A k"
  shows "system_ok A k" and "grants {} A k"
proof -
  obtain H where "holding no_timer careful A k H" using reachable_holding [OF assms] ..
  from holding_owner [OF this no_timer_keeps, of "{}"] show "grants {} A k" by (simp add: careful_def)
qed (rule reachable_ok [OF assms no_timer_keeps(1)])

text \<open>
  A step that concerns no mutex: owners stay owners, nobody begins to wait for a mutex, and only
  the running task enters or leaves a call.
\<close>

definition quiet :: "addr \<Rightarrow> kernel \<Rightarrow> kernel \<Rightarrow> bool" where
  "quiet c k k' \<longleftrightarrow>
     (\<forall>m. owner (mutexes k' m) = owner (mutexes k m)) \<and>
     (\<forall>t m. waitList (tasks k' t) = Some (MutexHead m) \<longrightarrow> waitList (tasks k t) = Some (MutexHead m)) \<and>
     (\<forall>t. t \<noteq> c \<longrightarrow> cont k' t = cont k t) \<and> (\<forall>m. cont k' c \<noteq> Some (KMutexTryLock m))"

lemma quiet_refl: "cont k c = None \<Longrightarrow> quiet c k k"
  by (simp add: quiet_def)

lemma fair_quiet:
  assumes f: "fair F C {} (others c) k k'" and c: "\<And>m. cont k c \<noteq> Some (KMutexTryLock m)"
  shows "quiet c k k'"
proof -
  have "owner (mutexes k' m) = owner (mutexes k m)" for m
    using fairD(2,4) [OF f] by (cases "owner (mutexes k m)") auto
  moreover have "cont k' t = cont k t" if "t \<noteq> c" for t
    using fairD(3) [OF f] that by simp
  moreover have "cont k' c \<noteq> Some (KMutexTryLock m)" for m
  proof -
    have "cont k' c = cont k c \<or> (\<exists>x. cont k' c = Some x \<and> (c, x) \<in> others c)" using f unfolding fair_def by blast
    then show ?thesis using c by auto
  qed
  moreover have "waitList (tasks k t) = Some (MutexHead m)" if "waitList (tasks k' t) = Some (MutexHead m)" for t m
    using fairD(5) [OF f _ that] by simp
  ultimately show ?thesis by (simp add: quiet_def)
qed

lemma quiet_step:
  assumes "step no_timer A a k k'" and s: "system_ok A k"
    and a: "\<And>m n. a \<noteq> Call (CTryLock m n)" "\<And>m. a \<noteq> Call (CUnlock m)" "\<And>u. a \<noteq> Call (CDelete u)"
  shows "quiet (osCurrentTask k) k k'"
  using assms(1)
proof (rule stepE)
  fix c r assume c: "a = Call c" "cont k (osCurrentTask k) = None" "allowed A k c" "do_call c k = Some (r, k')"
  then have "losers c k = {}" "saves c k = others (osCurrentTask k)"
    using a by (auto simp: losers_def saves_def split: call.splits)
  then show ?thesis
    using fair_call [OF s c(3), of UNIV] c(2,4) by (auto intro: fair_quiet)
next
  fix x r assume "run_kont x (taken (osCurrentTask k) k) = Some (r, k')"
  from fair_quiet [OF fair_back [OF this, of UNIV]]
  have "quiet (osCurrentTask k) (taken (osCurrentTask k) k) k'" by (simp add: taken_def)
  then show ?thesis by (auto simp: quiet_def taken_def)
next
  fix "is" r assume "cont k (osCurrentTask k) = None" "handler_ok A k is" "OS_ISR is k = Some (r, k')"
  then show ?thesis using fair_handler [OF s, of "is" UNIV] by (auto intro: fair_quiet)
next
  fix r assume "cont k (osCurrentTask k) = None" "tick_interrupt no_timer k = Some (r, k')"
  then show ?thesis using fair_tick [OF s no_timer_keeps, of UNIV] by (auto intro: fair_quiet)
next
  fix p bs assume "cont k (osCurrentTask k) = None" "k' = ram_upd (poke p bs) k"
  then show ?thesis by (simp add: quiet_def)
qed

text \<open>Stacks and buffers stay in place.\<close>

lemma step_place:
  assumes st: "step no_timer A a k k'" and s: "system_ok A k" and t: "osTimers k = None"
    and a: "\<And>q i n. a \<noteq> Call (CSend q i n)" "\<And>q i n. a \<noteq> Call (CReceive q i n)" "\<And>is. a \<noteq> Interrupt is"
  shows "in_place {} k k'" and "osTimers k' = None"
proof -
  have "in_place {} k k' \<and> osTimers k' = None"
    using st
  proof (rule stepE)
    fix c r assume c: "a = Call c" "do_call c k = Some (r, k')"
    then show ?thesis
      using aside_call [OF system_okD(1) [OF s], of c] a t by (auto simp: aside_def split: call.splits)
  next
    fix x r assume "run_kont x (taken (osCurrentTask k) k) = Some (r, k')"
    then have "aside {} (taken (osCurrentTask k) k) k'" using aside_kont [of x "taken (osCurrentTask k) k"] by simp
    then show ?thesis using t by (simp add: aside_def in_place_def taken_def)
  next
    fix r assume "tick_interrupt no_timer k = Some (r, k')"
    then show ?thesis using in_place_tick [OF s t, of no_timer] by simp
  qed (use a t in \<open>auto simp: in_place_def ram_upd_def\<close>)
  then show "in_place {} k k'" "osTimers k' = None" by simp_all
qed

section \<open>The queue\<close>

text \<open>Who waits for the queue has told it where its message is.\<close>

definition queue_waits :: "shape \<Rightarrow> layout \<Rightarrow> kernel \<Rightarrow> bool" where
  "queue_waits P L k \<longleftrightarrow> (\<forall>t q. waitList (tasks k t) = Some (QueueHead q) \<longrightarrow>
     (\<exists>i \<in> members P \<inter> rooms P. t = task L i \<and> wait (tasks k t) = message_at L i))"

lemma queue_waits_in_place:
  assumes "queue_waits P L k" and "in_place {} k k'"
  shows "queue_waits P L k'"
  using assms unfolding queue_waits_def in_place_def by (metis empty_iff)

text \<open>A message that nobody waits with may be used, by a task or by a handler.\<close>

lemma room_for_message:
  assumes L: "layout_ok P L" and a: "arranged P L (members P) k" and w: "queue_waits P L k" and i: "i \<in> rooms P"
    and free: "\<And>q. i \<in> members P \<Longrightarrow> waitList (tasks k (task L i)) \<noteq> Some (QueueHead q)"
  shows "message_room (tasks_of P L) k (queue_at L) (message_at L i)"
proof -
  have size: "itemSize (queues k (queue_at L)) = item_size P" using a by (simp add: arranged_def)
  have "harmless (tasks_of P L) k (room_of P L i)" by (rule arranged_harmless [OF a layout_okD(8) [OF L i]])
  moreover have "room_of P L i \<inter> buffer_region (queues k (queue_at L)) = {}"
    using layout_okD(9) [OF L i] by (simp add: arranged_buffer [OF a])
  moreover have "region (wait (tasks k t)) (unat (item_size P)) \<inter> room_of P L i = {}"
    if t: "waitList (tasks k t) = Some (QueueHead (queue_at L))" for t
  proof -
    obtain j where j: "j \<in> members P" "j \<in> rooms P" "t = task L j" "wait (tasks k t) = message_at L j"
      using w t unfolding queue_waits_def by blast
    have "j \<noteq> i" using free t j(1,3) by auto
    then have "room_of P L j \<inter> room_of P L i = {}" by (rule layout_okD(10) [OF L j(2) i])
    then show ?thesis by (simp add: room_of_def j(4))
  qed
  ultimately show ?thesis by (simp add: message_room_def Let_def size room_of_def)
qed

lemma queue_call_waits:
  assumes "returns m (\<lambda>(r, s'). goes_on A c r s' \<and> (r = Switched \<longrightarrow> wait (tasks s' c) = item))"
  shows "holds (leave c KQueue osQueue_end m)
    (\<lambda>x. \<forall>q. waitList (tasks (snd x) c) = Some (QueueHead q) \<longrightarrow> wait (tasks (snd x) c) = item)"
proof (rule returnsE [OF assms])
  fix x assume m: "m = Some x" and x: "case x of (r, s') \<Rightarrow> goes_on A c r s' \<and> (r = Switched \<longrightarrow> wait (tasks s' c) = item)"
  obtain r s1 where rs: "x = (r, s1)" by (cases x)
  show ?thesis
  proof (cases r)
    case (Returned v)
    then have "rest A s1" "osCurrentTask s1 = c" using x rs by (simp_all add: goes_on_def)
    then have none: "waitList (tasks s1 c) = None" using running_waits_for_nothing [of A s1] by simp
    have "holds (osQueue_end v s1) (asides {} s1)" by (rule aside_osQueue_end) simp
    then show ?thesis
      using none by (auto simp: m rs Returned leave_def holds_def aside_def in_place_def split: option.splits)
  qed (use x rs in \<open>simp add: m leave_def\<close>)
qed

lemma returns_pair: "returns m P \<Longrightarrow> \<exists>r s. m = Some (r, s)"
  by (cases m) auto

lemma queue_item:
  assumes s: "system_ok A k" and room: "message_room A k q item" and c: "c = osCurrentTask k"
  shows "returns (osQueuePut q item n k) (\<lambda>(r, s'). goes_on A c r s' \<and> (r = Switched \<longrightarrow> wait (tasks s' c) = item))"
    and "returns (osQueueGet q item n k) (\<lambda>(r, s'). goes_on A c r s' \<and> (r = Switched \<longrightarrow> wait (tasks s' c) = item))"
proof -
  let ?n = "unat (itemSize (queues k q))"
  have room: "harmless A k (region item ?n)" "region item ?n \<inter> buffer_region (queues k q) = {}"
      "\<And>t. t \<in> A \<Longrightarrow> waitList (tasks k t) = Some (QueueHead q) \<Longrightarrow> region (wait (tasks k t)) ?n \<inter> region item ?n = {}"
    using room unfolding message_room_def Let_def by blast+
  note put = osQueuePut_rest [OF system_okD(1-3) [OF s] c refl refl room, of n]
    and get = osQueueGet_rest [OF system_okD(1-3) [OF s] c refl refl room, of n]
  obtain r s1 where m: "osQueuePut q item n k = Some (r, s1)" using returns_pair [OF put] by blast
  show "returns (osQueuePut q item n k) (\<lambda>(r, s'). goes_on A c r s' \<and> (r = Switched \<longrightarrow> wait (tasks s' c) = item))"
    using put m by (cases r) (simp_all split: option.split_asm if_split_asm)
  obtain r' s2 where m': "osQueueGet q item n k = Some (r', s2)" using returns_pair [OF get] by blast
  show "returns (osQueueGet q item n k) (\<lambda>(r, s'). goes_on A c r s' \<and> (r = Switched \<longrightarrow> wait (tasks s' c) = item))"
    using get m' by (cases r') (simp_all split: option.split_asm if_split_asm)
qed

text \<open>The room a caller leaves when it has begun to wait for the queue.\<close>

definition noted_at :: "addr \<Rightarrow> addr \<Rightarrow> outcome \<times> kernel \<Rightarrow> bool" where
  "noted_at c item x \<longleftrightarrow> (\<forall>q. waitList (tasks (snd x) c) = Some (QueueHead q) \<longrightarrow> wait (tasks (snd x) c) = item)"

lemma queue_waits_call:
  assumes "system_ok A k" and "message_room A k q item" and "c = osCurrentTask k"
  shows "holds (osQueueSend q item n k) (noted_at c item)" and "holds (osQueueReceive q item n k) (noted_at c item)"
  using queue_call_waits [OF queue_item(1) [OF assms]] queue_call_waits [OF queue_item(2) [OF assms]]
  by (simp_all add: osQueueSend_def osQueueReceive_def noted_at_def [abs_def] assms(3))

section \<open>The mutex\<close>

text \<open>
  Who owns the mutex is inside; who is inside owns it, but for those that are waiting in
  \<open>osMutexLock\<close> for it. \<open>p\<close> is where the tasks are, \<open>locked\<close> the point after \<open>osMutexLock\<close>.
\<close>

definition locks_inv :: "nat set \<Rightarrow> layout \<Rightarrow> ('p \<Rightarrow> bool) \<Rightarrow> 'p \<Rightarrow> kernel \<Rightarrow> (nat \<Rightarrow> 'p) \<Rightarrow> bool" where
  "locks_inv N L inside locked k p \<longleftrightarrow>
     (\<forall>t m. waitList (tasks k t) = Some (MutexHead m) \<longrightarrow> m = mutex_at L \<and> (\<exists>i \<in> N. t = task L i \<and> p i = locked)) \<and>
     (\<forall>t m. cont k t = Some (KMutexTryLock m) \<longrightarrow> m = mutex_at L) \<and>
     (\<forall>t m. owner (mutexes k m) = Some t \<longrightarrow> m = mutex_at L \<and> (\<exists>i \<in> N. t = task L i \<and> inside (p i))) \<and>
     (\<forall>i \<in> N. inside (p i) \<longrightarrow> owner (mutexes k (mutex_at L)) = Some (task L i) \<or>
        cont k (task L i) = Some (KMutexTryLock (mutex_at L)) \<and> p i = locked)"

lemma locks_invD:
  assumes "locks_inv N L inside locked k p"
  shows "waitList (tasks k t) = Some (MutexHead m) \<Longrightarrow> m = mutex_at L \<and> (\<exists>i \<in> N. t = task L i \<and> p i = locked)"
    and "cont k t = Some (KMutexTryLock m) \<Longrightarrow> m = mutex_at L"
    and "owner (mutexes k m) = Some t \<Longrightarrow> m = mutex_at L \<and> (\<exists>i \<in> N. t = task L i \<and> inside (p i))"
    and "i \<in> N \<Longrightarrow> inside (p i) \<Longrightarrow> owner (mutexes k (mutex_at L)) = Some (task L i) \<or>
        cont k (task L i) = Some (KMutexTryLock (mutex_at L)) \<and> p i = locked"
  using assms unfolding locks_inv_def by blast+

text \<open>A step that concerns no mutex; the running task goes on to its next point, or does not.\<close>

lemma locks_quiet:
  assumes inv: "locks_inv N L inside locked k p" and q: "quiet c k k'"
    and w: "waitList (tasks k c) = None"
    and own: "\<And>i. i \<in> N \<Longrightarrow> c = task L i \<Longrightarrow> inside (p i) \<Longrightarrow> owner (mutexes k (mutex_at L)) = Some c"
    and p': "\<And>i. i \<in> N \<Longrightarrow> inside (p' i) = inside (p i)" "\<And>i. i \<in> N \<Longrightarrow> task L i \<noteq> c \<Longrightarrow> p' i = p i"
  shows "locks_inv N L inside locked k' p'"
  unfolding locks_inv_def
proof (intro conjI allI impI ballI)
  note q = q [unfolded quiet_def]
  fix t m
  show "m = mutex_at L" "\<exists>i \<in> N. t = task L i \<and> p' i = locked" if "waitList (tasks k' t) = Some (MutexHead m)"
  proof -
    have t: "waitList (tasks k t) = Some (MutexHead m)" using q that by blast
    then have "t \<noteq> c" using w by auto
    then show "m = mutex_at L" "\<exists>i \<in> N. t = task L i \<and> p' i = locked"
      using locks_invD(1) [OF inv t] p'(2) by auto
  qed
  show "m = mutex_at L" if "cont k' t = Some (KMutexTryLock m)"
    using q that locks_invD(2) [OF inv] by (cases "t = c") auto
  show "m = mutex_at L" "\<exists>i \<in> N. t = task L i \<and> inside (p' i)" if "owner (mutexes k' m) = Some t"
    using q that locks_invD(3) [OF inv, of m t] p'(1) by auto
next
  fix i assume i: "i \<in> N" "inside (p' i)"
  then show "owner (mutexes k' (mutex_at L)) = Some (task L i) \<or>
      cont k' (task L i) = Some (KMutexTryLock (mutex_at L)) \<and> p' i = locked"
    using q [unfolded quiet_def] locks_invD(4) [OF inv i(1)] own [OF i(1)] p' [OF i(1)] by (cases "task L i = c") auto
qed

end
