(* ===== verification/Lock_Client.thy ===== *)
theory Lock_Client
  imports Program_Inv
begin

text \<open>
  A program whose tasks share a mutex and a queue: the invariant of its kernel and of the points its
  tasks are at, through everything the tasks, the handlers and the tick do.
\<close>

section \<open>A handler\<close>

text \<open>A handler never waits, so that it leaves alone what the task it interrupts has told the kernel.\<close>

lemma aside_send_isr: "holds (OS_ISR [IQueueSend q item] s) (asides {} s)"
proof -
  have "holds (osQueuePut q item OS_NO_WAIT s) (asides {} s)"
    by (auto simp: osQueuePut_def Let_def intro!: holds_bind [of _ "aside {} s"] untouched split: option.split)
  then have "holds (isr_calls [IQueueSend q item] s) (aside {} s)"
    by (cases "osQueuePut q item OS_NO_WAIT s") (auto simp: osQueueSendFromISR_def)
  then show ?thesis unfolding OS_ISR_def by (rule holds_bind) (auto intro!: untouched)
qed

section \<open>The invariant\<close>

definition program_inv :: "shape \<Rightarrow> ('p \<Rightarrow> bool) \<Rightarrow> 'p \<Rightarrow> layout \<Rightarrow> kernel \<Rightarrow> (nat \<Rightarrow> 'p) \<Rightarrow> bool" where
  "program_inv P inside locked L k p \<longleftrightarrow>
     layout_ok P L \<and> reachable no_timer careful (tasks_of P L) k \<and> arranged P L (members P) k \<and>
     queue_waits P L k \<and> locks_inv (members P) L inside locked k p"

text \<open>A call a task may make, but for those of the mutex, and a write to its message.\<close>

fun plain_action :: "shape \<Rightarrow> layout \<Rightarrow> nat \<Rightarrow> action \<Rightarrow> bool" where
  "plain_action P L i (Call (CDelay n)) \<longleftrightarrow> True"
| "plain_action P L i (Call (CDelayUntil p n)) \<longleftrightarrow> True"
| "plain_action P L i (Call (CSend q item n)) \<longleftrightarrow> q = queue_at L \<and> item = message_at L i \<and> i \<in> rooms P"
| "plain_action P L i (Call (CReceive q item n)) \<longleftrightarrow> q = queue_at L \<and> item = message_at L i \<and> i \<in> rooms P"
| "plain_action P L i (Write a bs) \<longleftrightarrow> a = message_at L i \<and> length bs = unat (item_size P) \<and> i \<in> rooms P"
| "plain_action P L i a \<longleftrightarrow> False"

text \<open>The task with this number has the processor and is in its own code.\<close>

definition runs :: "shape \<Rightarrow> layout \<Rightarrow> kernel \<Rightarrow> nat \<Rightarrow> bool" where
  "runs P L k i \<longleftrightarrow> i \<in> members P \<and> osCurrentTask k = task L i \<and> cont k (task L i) = None"

locale lock_client =
  fixes P :: shape and inside :: "'p \<Rightarrow> bool" and locking locked :: 'p
  assumes inside_locked: "inside locked" and outside_locking: "\<not> inside locking"
begin

abbreviation inv :: "layout \<Rightarrow> kernel \<Rightarrow> (nat \<Rightarrow> 'p) \<Rightarrow> bool" where
  "inv \<equiv> program_inv P inside locked"

lemma invD:
  assumes "inv L k p"
  shows "layout_ok P L" and "reachable no_timer careful (tasks_of P L) k" and "arranged P L (members P) k"
    and "queue_waits P L k" and "locks_inv (members P) L inside locked k p"
    and "system_ok (tasks_of P L) k" and "grants {} (tasks_of P L) k" and "osTimers k = None"
proof -
  show r: "reachable no_timer careful (tasks_of P L) k" and "layout_ok P L" and a: "arranged P L (members P) k"
    and "queue_waits P L k" and "locks_inv (members P) L inside locked k p"
    using assms by (simp_all add: program_inv_def)
  show "osTimers k = None" using a by (simp add: arranged_def)
  show "system_ok (tasks_of P L) k" "grants {} (tasks_of P L) k" using careful_grants [OF r] by simp_all
qed

lemma inv_start:
  assumes "layout_ok P L" and "reachable no_timer careful (tasks_of P L) k" and "arranged P L (members P) k"
    and "no_waits k" and "plain k" and "\<And>i. i \<in> members P \<Longrightarrow> \<not> inside (p i)"
  shows "inv L k p"
proof -
  have "cont k t \<noteq> Some (KMutexTryLock x)" for t x
    using assms(5) unfolding plain_def by (metis (mono_tags, lifting) kont.case(4) option.case(2))
  moreover have "owner (mutexes k x) = None" for x using assms(5) by (simp add: plain_def)
  ultimately show ?thesis
    using assms(1-4,6) by (simp add: program_inv_def locks_inv_def queue_waits_def no_waits_def)
qed

lemma top:
  assumes "inv L k p"
  shows "top_runs (tasks_of P L) k"
  by (rule reachable_top [OF invD(2) [OF assms] no_timer_keeps(1)]) (simp add: careful_def)

text \<open>At most one task is inside and not still waiting to be.\<close>

lemma inside_owner:
  assumes "inv L k p" and "i \<in> members P" and "inside (p i)" and "cont k (task L i) \<noteq> Some (KMutexTryLock (mutex_at L))"
  shows "owner (mutexes k (mutex_at L)) = Some (task L i)"
  using locks_invD(4) [OF invD(5) [OF assms(1)] assms(2,3)] assms(4) by blast

lemma owner_inside:
  assumes "inv L k p" and "i \<in> members P" and "owner (mutexes k (mutex_at L)) = Some (task L i)"
  shows "inside (p i)"
  using locks_invD(3) [OF invD(5) [OF assms(1)] assms(3)] layout_okD(2) [OF invD(1) [OF assms(1)] assms(2)] by blast

section \<open>The tick, a task that goes on with its call, and writes to memory\<close>

lemma inv_kernel:
  assumes inv: "inv L k p" and a: "a = Back \<or> a = Tick \<or> (\<exists>x bs. a = Write x bs)" and st: "step no_timer (tasks_of P L) a k k'"
  shows "inv L k' p" and "quiet (osCurrentTask k) k k'"
proof -
  note i = invD [OF inv]
  let ?c = "osCurrentTask k"
  have owns: "owner (mutexes k m) = Some ?c" "result (tasks k ?c) \<noteq> 0" if "cont k ?c = Some (KMutexTryLock m)" for m
    using grants_locks [OF i(6,7) _ that] by simp_all
  have "careful a k" using a owns by (auto simp: careful_def split: option.splits kont.splits)
  then have "reachable no_timer careful (tasks_of P L) k'" by (rule reach_step [OF i(2) st])
  moreover have place: "in_place {} k k'" "osTimers k' = None" using step_place [OF st i(6,8)] a by auto
  then have "arranged P L (members P) k'" using arranged_in_place [OF i(3)] i(8) by simp
  moreover have "queue_waits P L k'" by (rule queue_waits_in_place [OF i(4) place(1)])
  moreover show q: "quiet ?c k k'" by (rule quiet_step [OF st i(6)]) (use a in auto)
  have "locks_inv (members P) L inside locked k' p"
  proof (rule locks_quiet [OF i(5) q])
    show "waitList (tasks k ?c) = None" by (rule running_waits_for_nothing [OF system_okD(1) [OF i(6)]])
    show "owner (mutexes k (mutex_at L)) = Some ?c" if "j \<in> members P" "?c = task L j" "inside (p j)" for j
      using locks_invD(4) [OF i(5) that(1,3)] owns that(2) by auto
  qed simp_all
  ultimately show "inv L k' p" using i(1) by (simp add: program_inv_def)
qed

section \<open>A task in its own code\<close>

lemma runsD:
  assumes "inv L k p" and "runs P L k i"
  shows "i \<in> members P" and "osCurrentTask k = task L i" and "cont k (task L i) = None"
    and "waitList (tasks k (task L i)) = None" and "task L i \<noteq> osIdleTask k"
    and "inside (p i) \<longleftrightarrow> owner (mutexes k (mutex_at L)) = Some (task L i)"
proof -
  note inv = invD [OF assms(1)]
  show i: "i \<in> members P" and c: "osCurrentTask k = task L i" "cont k (task L i) = None"
    using assms(2) by (simp_all add: runs_def)
  show "waitList (tasks k (task L i)) = None"
    using running_waits_for_nothing [OF system_okD(1) [OF inv(6)]] c by simp
  show "task L i \<noteq> osIdleTask k" using layout_okD(3) [OF inv(1) i] inv(3) by (simp add: arranged_def)
  show "inside (p i) \<longleftrightarrow> owner (mutexes k (mutex_at L)) = Some (task L i)"
    using inside_owner [OF assms(1) i] owner_inside [OF assms(1) i] c by auto
qed

text \<open>A step that concerns no mutex takes the task on to another point that has the mutex as the one before.\<close>

lemma inv_next:
  assumes inv: "inv L k p" and i: "runs P L k i" and q: "inside q = inside (p i)"
    and k': "reachable no_timer careful (tasks_of P L) k'" "arranged P L (members P) k'" "queue_waits P L k'" "quiet (task L i) k k'"
  shows "inv L k' (p(i := q))"
proof -
  note i = runsD [OF inv i] and inv = invD [OF inv]
  have "locks_inv (members P) L inside locked k' (p(i := q))"
  proof (rule locks_quiet [OF inv(5) k'(4) i(4)])
    show "owner (mutexes k (mutex_at L)) = Some (task L i)" if "j \<in> members P" "task L i = task L j" "inside (p j)" for j
      using layout_okD(2) [OF inv(1) i(1) that(1)] that(2,3) i(6) by simp
  qed (use q in auto)
  then show ?thesis using inv(1) k'(1-3) by (simp add: program_inv_def)
qed

lemma inv_stay:
  assumes inv: "inv L k p" and i: "runs P L k i" and q: "inside q = inside (p i)"
  shows "inv L k (p(i := q))"
  using invD(2-4) [OF inv] runsD(3) [OF inv i] by (intro inv_next [OF inv i q]) (simp_all add: quiet_refl)

lemma inv_plain:
  assumes inv: "inv L k p" and i: "runs P L k i" and q: "inside q = inside (p i)"
    and a: "plain_action P L i a" and st: "step no_timer (tasks_of P L) a k k'"
  shows "inv L k' (p(i := q))" and "quiet (task L i) k k'"
proof -
  let ?c = "task L i"
  note i' = runsD [OF inv i] and inv' = invD [OF inv]
  have "careful a k" using a by (cases "(P, L, i, a)" rule: plain_action.cases) (auto simp: careful_def)
  then have r: "reachable no_timer careful (tasks_of P L) k'" by (rule reach_step [OF inv'(2) st])
  have "quiet (osCurrentTask k) k k'" by (rule quiet_step [OF st inv'(6)]) (use a in auto)
  then show quiet: "quiet ?c k k'" by (simp add: i'(2))
  have "arranged P L (members P) k' \<and> queue_waits P L k'"
  proof (cases "\<exists>c. a = Call c \<and> ((\<exists>q it n. c = CSend q it n) \<or> (\<exists>q it n. c = CReceive q it n))")
    case False
    have timers: "in_place {} k k'" "osTimers k' = None"
      by (rule step_place [OF st inv'(6,8)]; use False a in force)+
    then show ?thesis
      using arranged_in_place [OF inv'(3) timers(1)] queue_waits_in_place [OF inv'(4) timers(1)] inv'(8) by simp
  next
    case True
    then obtain c where c: "a = Call c" "(\<exists>n. c = CSend (queue_at L) (message_at L i) n) \<or> (\<exists>n. c = CReceive (queue_at L) (message_at L i) n)"
      and room: "i \<in> rooms P"
      using a by auto
    obtain r where m: "do_call c k = Some (r, k')" and ok: "allowed (tasks_of P L) k c" using st by (auto simp: c(1) step_Call)
    have as: "aside {?c} k k'"
      using aside_call [OF system_okD(1) [OF inv'(6)], of c] m c(2) i'(2) by (auto split: call.splits)
    then have place: "in_place {?c} k k'" by (simp add: aside_def)
    have "arranged P L (members P) k'" using arranged_in_place [OF inv'(3) place] as by (simp add: aside_def)
    moreover have "noted_at ?c (message_at L i) (r, k')"
      using holds_Some [OF queue_waits_call(1) [OF inv'(6) _ i'(2) [symmetric]]]
        holds_Some [OF queue_waits_call(2) [OF inv'(6) _ i'(2) [symmetric]]] m ok c(2)
      by auto
    then have "queue_waits P L k'"
      using inv'(4) place i'(1) room unfolding queue_waits_def in_place_def noted_at_def by (metis IntI prod.sel(2) singletonD)
    ultimately show ?thesis ..
  qed
  then show "inv L k' (p(i := q))" using inv_next [OF inv i q r _ _ quiet] by simp
qed

text \<open>Whatever of this a task is about to do, it can.\<close>

lemma plain_exists:
  assumes inv: "inv L k p" and i: "runs P L k i" and a: "plain_action P L i a"
  shows "\<exists>k'. step no_timer (tasks_of P L) a k k'"
proof -
  note i' = runsD [OF inv i] and inv' = invD [OF inv]
  note ex = steps_exist [OF inv'(6), where fire = no_timer]
  have cur: "cont k (osCurrentTask k) = None" using i'(2,3) by simp
  have room: "message_room (tasks_of P L) k (queue_at L) (message_at L i)" if "i \<in> rooms P"
    using room_for_message [OF inv'(1,3,4) that] i'(4) by simp
  have "harmless (tasks_of P L) k (room_of P L i)" if "i \<in> rooms P"
    by (rule arranged_harmless [OF inv'(3) layout_okD(8) [OF inv'(1) that]])
  then have harm: "harmless (tasks_of P L) k (region (message_at L i) (length bs))"
    if "i \<in> rooms P" "length bs = unat (item_size P)" for bs
    using that by (simp add: room_of_def)
  show ?thesis
    using ex(1) [OF cur] ex(5) [OF cur harm] room a by (cases "(P, L, i, a)" rule: plain_action.cases) auto
qed

section \<open>A handler that sends\<close>

lemma inv_handler:
  assumes inv: "inv L k p" and st: "step no_timer (tasks_of P L) (Interrupt [IQueueSend q item]) k k'"
  shows "inv L k' p" and "quiet (osCurrentTask k) k k'"
proof -
  note i = invD [OF inv]
  let ?c = "osCurrentTask k"
  obtain r where m: "OS_ISR [IQueueSend q item] k = Some (r, k')" and c: "cont k ?c = None"
    using st unfolding step_Interrupt by blast
  have "careful (Interrupt [IQueueSend q item]) k" by (simp add: careful_def)
  then have "reachable no_timer careful (tasks_of P L) k'" by (rule reach_step [OF i(2) st])
  moreover have as: "aside {} k k'" using aside_send_isr [of q item k] m by simp
  then have place: "in_place {} k k'" by (simp add: aside_def)
  then have "arranged P L (members P) k'" using arranged_in_place [OF i(3)] as by (simp add: aside_def)
  moreover have "queue_waits P L k'" by (rule queue_waits_in_place [OF i(4) place])
  moreover show q: "quiet ?c k k'" by (rule quiet_step [OF st i(6)]) auto
  have "locks_inv (members P) L inside locked k' p"
  proof (rule locks_quiet [OF i(5) q])
    show "waitList (tasks k ?c) = None" by (rule running_waits_for_nothing [OF system_okD(1) [OF i(6)]])
    show "owner (mutexes k (mutex_at L)) = Some ?c" if "j \<in> members P" "?c = task L j" "inside (p j)" for j
      using inside_owner [OF inv that(1,3)] c that(2) by simp
  qed simp_all
  ultimately show "inv L k' p" using i(1) by (simp add: program_inv_def)
qed

lemma handler_exists:
  assumes inv: "inv L k p" and c: "cont k (osCurrentTask k) = None" and j: "j \<in> rooms P" "j \<notin> members P"
  shows "\<exists>k'. step no_timer (tasks_of P L) (Interrupt [IQueueSend (queue_at L) (message_at L j)]) k k'"
proof -
  note i = invD [OF inv]
  have "message_room (tasks_of P L) k (queue_at L) (message_at L j)"
    using room_for_message [OF i(1,3,4) j(1)] j(2) by simp
  then have "handler_ok (tasks_of P L) k [IQueueSend (queue_at L) (message_at L j)]" by (simp split: option.split)
  then show ?thesis by (rule steps_exist(3) [OF i(6) c])
qed

section \<open>\<open>osMutexLock\<close>\<close>

lemma inv_lock:
  assumes inv: "inv L k p" and i: "runs P L k i" and p: "p i = locking"
    and st: "step no_timer (tasks_of P L) (Call (CTryLock (mutex_at L) OS_WAIT_FOREVER)) k k'"
  shows "inv L k' (p(i := locked))"
    and "case owner (mutexes k (mutex_at L)) of
        None \<Rightarrow> owner (mutexes k' (mutex_at L)) = Some (task L i)
      | Some t \<Rightarrow> owner (mutexes k' (mutex_at L)) = Some t \<and> t \<noteq> task L i"
proof -
  let ?c = "task L i" and ?m = "mutex_at L"
  note task = runsD [OF inv i] and inv' = invD [OF inv] and ok = system_okD(1,2) [OF invD(6) [OF inv]]
  obtain r where m: "osMutexTryLock ?m OS_WAIT_FOREVER k = Some (r, k')" using st by (auto simp: step_Call)
  have out: "owner (mutexes k ?m) \<noteq> Some ?c" using task(6) p outside_locking by simp
  then have "careful (Call (CTryLock ?m OS_WAIT_FOREVER)) k" using task(2) by (simp add: careful_def)
  then have reach: "reachable no_timer careful (tasks_of P L) k'" by (rule reach_step [OF inv'(2) st])
  have place: "in_place {} k k'" "osTimers k' = None" using step_place [OF st inv'(6,8)] by simp_all
  have f: "fair UNIV {?c} {} ({?c} \<times> UNIV) k k'"
    using fair_osMutexTryLock [where F = UNIV, OF ok(1) refl, of ?m OS_WAIT_FOREVER] task(2) m by simp
  have others: "cont k' t = cont k t" "waitList (tasks k' t) = Some (MutexHead x) \<Longrightarrow> waitList (tasks k t) = Some (MutexHead x)"
    if "t \<noteq> ?c" for t x
    using fairD(3,5) [OF f] that by simp_all
  have res: "case owner (mutexes k ?m) of
      None \<Rightarrow> k' = osMutexOwn ?m ?c k
    | Some t \<Rightarrow> same_owners k k' \<and> waitList (tasks k' ?c) = Some (MutexHead ?m) \<and> cont k' ?c = Some (KMutexTryLock ?m)"
    using osMutexTryLock_rest [OF ok refl, of ?m OS_WAIT_FOREVER] m task(2,5) by (simp split: option.splits)
  then show "case owner (mutexes k ?m) of
      None \<Rightarrow> owner (mutexes k' ?m) = Some ?c
    | Some t \<Rightarrow> owner (mutexes k' ?m) = Some t \<and> t \<noteq> ?c"
    using out by (auto simp: same_owners_def split: option.splits)
  let ?p = "p(i := locked)"
  have mine: "waitList (tasks k' ?c) = Some (MutexHead x) \<Longrightarrow> x = ?m" "cont k' ?c = Some (KMutexTryLock x) \<Longrightarrow> x = ?m"
    "owner (mutexes k' ?m) = Some ?c \<or> cont k' ?c = Some (KMutexTryLock ?m)"
    "owner (mutexes k' x) = Some t \<Longrightarrow> owner (mutexes k x) = Some t \<or> t = ?c \<and> x = ?m"
    "owner (mutexes k x) = Some t \<Longrightarrow> owner (mutexes k' x) = Some t" for x t
    using res task(3,4) by (auto simp: same_owners_def split: option.splits if_splits)
  have waits: "x = ?m \<and> (\<exists>j \<in> members P. t = task L j \<and> ?p j = locked)"
    if w: "waitList (tasks k' t) = Some (MutexHead x)" for t x
  proof (cases "t = ?c")
    case True
    then have "x = ?m" using mine(1) w by simp
    then show ?thesis using True task(1) by (auto intro: bexI [of _ i])
  next
    case False
    then show ?thesis using locks_invD(1) [OF inv'(5) others(2) [OF False w]] by auto
  qed
  have "locks_inv (members P) L inside locked k' ?p"
    unfolding locks_inv_def
  proof (intro conjI allI impI ballI)
    fix t x
    show "x = ?m" "\<exists>j \<in> members P. t = task L j \<and> ?p j = locked" if "waitList (tasks k' t) = Some (MutexHead x)"
      using waits [OF that] by blast+
    show "x = ?m" if "cont k' t = Some (KMutexTryLock x)"
      using that mine(2) others(1) locks_invD(2) [OF inv'(5), of t x] by (cases "t = ?c") auto
    show "x = ?m" "\<exists>j \<in> members P. t = task L j \<and> inside (?p j)" if "owner (mutexes k' x) = Some t"
      using mine(4) [OF that] locks_invD(3) [OF inv'(5), of x t] task(1) inside_locked by (auto intro: bexI [of _ i])
  next
    fix j assume j: "j \<in> members P" "inside (?p j)"
    show "owner (mutexes k' ?m) = Some (task L j) \<or> cont k' (task L j) = Some (KMutexTryLock ?m) \<and> ?p j = locked"
    proof (cases "j = i")
      case False
      then have "task L j \<noteq> ?c" using layout_okD(2) [OF inv'(1) j(1) task(1)] by simp
      then show ?thesis using locks_invD(4) [OF inv'(5) j(1)] j(2) False others(1) mine(5) by auto
    qed (use mine(3) in simp)
  qed
  then show "inv L k' ?p"
    using inv'(1) reach arranged_in_place [OF inv'(3) place(1)] place(2) inv'(8) queue_waits_in_place [OF inv'(4) place(1)]
    by (simp add: program_inv_def)
qed

section \<open>\<open>osMutexUnlock\<close>\<close>

lemma inv_unlock:
  assumes inv: "inv L k p" and i: "runs P L k i" and p: "inside (p i)" "p i \<noteq> locked" "\<not> inside q"
    and st: "step no_timer (tasks_of P L) (Call (CUnlock (mutex_at L))) k k'"
  shows "inv L k' (p(i := q))"
    and "owner (mutexes k' (mutex_at L)) = Some w \<Longrightarrow> \<exists>j \<in> members P. w = task L j \<and> j \<noteq> i \<and> p j = locked"
proof -
  let ?c = "task L i" and ?m = "mutex_at L" and ?p = "p(i := q)"
  note task = runsD [OF inv i] and inv' = invD [OF inv] and ok = system_okD(1,2) [OF invD(6) [OF inv]]
  obtain r where m: "osMutexUnlock ?m k = Some (r, k')" using st by (auto simp: step_Call)
  have own: "owner (mutexes k ?m) = Some ?c" using task(6) p(1) by simp
  have "careful (Call (CUnlock ?m)) k" by (simp add: careful_def)
  then have reach: "reachable no_timer careful (tasks_of P L) k'" by (rule reach_step [OF inv'(2) st])
  have place: "in_place {} k k'" "osTimers k' = None" using step_place [OF st inv'(6,8)] by simp_all
  have f: "fair UNIV {?c} {?c} (others ?c) k k'" using fair_osMutexUnlock [where F = UNIV, OF ok(1) refl, of ?m] task(2) m by simp
  have others: "t \<noteq> ?c \<Longrightarrow> cont k' t = cont k t" "waitList (tasks k' t) = Some (MutexHead x) \<Longrightarrow> waitList (tasks k t) = Some (MutexHead x)"
      "cont k' ?c \<noteq> Some (KMutexTryLock x)" for t x
    using fairD(3,5) [OF f] f task(3) unfolding fair_def by (auto, metis option.distinct(1) option.inject others_iff)
  have next_owner: "\<exists>j \<in> members P. w = task L j \<and> j \<noteq> i \<and> p j = locked" if "owner (mutexes k' ?m) = Some w" for w
  proof -
    have "m_waiters (mutexes k ?m) = Some w"
      using osMutexUnlock_rest [OF ok, of ?m] m own task(2) that by simp
    then have w: "waitList (tasks k w) = Some (MutexHead ?m)" using mutex.most_important(2) [OF ok(1), of ?m w] by simp
    then show ?thesis using locks_invD(1) [OF inv'(5) w] task(4) by auto
  qed
  then show "owner (mutexes k' ?m) = Some w \<Longrightarrow> \<exists>j \<in> members P. w = task L j \<and> j \<noteq> i \<and> p j = locked" .
  have other_mutex: "x = ?m" if "owner (mutexes k' x) = Some t" for x t
    using osMutexUnlock_rest [OF ok, of ?m] m own task(2) that locks_invD(3) [OF inv'(5), of x t] by auto
  have waits: "x = ?m \<and> (\<exists>j \<in> members P. t = task L j \<and> ?p j = locked)" if w: "waitList (tasks k' t) = Some (MutexHead x)" for t x
  proof -
    obtain j where j: "x = ?m" "j \<in> members P" "t = task L j" "p j = locked"
      using locks_invD(1) [OF inv'(5) others(2) [OF w]] by blast
    then have "?p j = locked" using p(2) by auto
    then show ?thesis using j(1-3) by blast
  qed
  have "locks_inv (members P) L inside locked k' ?p"
    unfolding locks_inv_def
  proof (intro conjI allI impI ballI)
    fix t x
    show "x = ?m" "\<exists>j \<in> members P. t = task L j \<and> ?p j = locked" if "waitList (tasks k' t) = Some (MutexHead x)"
      using waits [OF that] by blast+
    show "x = ?m" if "cont k' t = Some (KMutexTryLock x)"
      using that others(1,3) locks_invD(2) [OF inv'(5), of t x] by (cases "t = ?c") auto
    show "x = ?m" if "owner (mutexes k' x) = Some t" by (rule other_mutex [OF that])
    show "\<exists>j \<in> members P. t = task L j \<and> inside (?p j)" if o': "owner (mutexes k' x) = Some t"
    proof -
      obtain j where j: "j \<in> members P" "t = task L j" "j \<noteq> i" "p j = locked"
        using next_owner [of t] o' other_mutex [OF o'] by blast
      then show ?thesis using inside_locked by (auto intro!: bexI [of _ j])
    qed
  next
    fix j assume j: "j \<in> members P" "inside (?p j)"
    then have ji: "j \<noteq> i" using p(3) by auto
    then have "task L j \<noteq> ?c" using layout_okD(2) [OF inv'(1) j(1) task(1)] by simp
    then show "owner (mutexes k' ?m) = Some (task L j) \<or> cont k' (task L j) = Some (KMutexTryLock ?m) \<and> ?p j = locked"
      using locks_invD(4) [OF inv'(5) j(1)] j(2) ji own others(1) by auto
  qed
  then show "inv L k' ?p"
    using inv'(1) reach arranged_in_place [OF inv'(3) place(1)] place(2) inv'(8) queue_waits_in_place [OF inv'(4) place(1)]
    by (simp add: program_inv_def)
qed

text \<open>A task may lock and unlock whenever it has the processor.\<close>

lemma mutex_exists:
  assumes inv: "inv L k p" and i: "runs P L k i"
  shows "\<exists>k'. step no_timer (tasks_of P L) (Call (CTryLock m n)) k k'" and "\<exists>k'. step no_timer (tasks_of P L) (Call (CUnlock m)) k k'"
  using steps_exist(1) [OF invD(6) [OF inv], where fire = no_timer] runsD(2,3) [OF inv i] by simp_all

text \<open>The tick, and what is left of a call.\<close>

lemma kernel_exists:
  assumes inv: "inv L k p"
  shows "\<exists>k'. step no_timer (tasks_of P L) (if cont k (osCurrentTask k) = None then Tick else Back) k k'"
  using steps_exist(2,4) [OF invD(6) [OF inv], where fire = no_timer] no_timer_keeps(1) by auto

end

end
