(* ===== verification/Application.thy ===== *)
theory Application
  imports Lock_Client
begin

text \<open>
  \<^verbatim>\<open>main.c\<close>: the application that comes with the kernel. Four tasks, two of which change a pair of
  numbers under a mutex and one of which sends what it has read through a queue to another one.
\<close>

section \<open>Start\<close>

text \<open>The tasks are numbered as in the program; \<open>task03\<close> and \<open>task04\<close> have a \<open>number\<close>.\<close>

definition main_shape :: shape where
  "main_shape = \<lparr>members = {1, 2, 3, 4}, rooms = {3, 4}, item_size = 2, item_count = 3\<rparr>"

definition main :: "layout \<Rightarrow> kernel \<Rightarrow> res" where
  "main L s = do {
     let s = osInit (heap_start L) (spr L) s;
     let s = osQueueInit (queue_at L) (queueMemory_at L) 2 3 s;
     (_, s) \<leftarrow> osTaskCreate (linker L) (entry_of L 1) 0 (Some (memory_of L 1)) sizeof_memory 4 s;
     (_, s) \<leftarrow> osTaskCreate (linker L) (entry_of L 2) 0 (Some (memory_of L 2)) sizeof_memory 1 s;
     (_, s) \<leftarrow> osTaskCreate (linker L) (entry_of L 3) 0 (Some (memory_of L 3)) sizeof_memory 2 s;
     (_, s) \<leftarrow> osTaskCreate (linker L) (entry_of L 4) 0 (Some (memory_of L 4)) sizeof_memory 3 s;
     osRun s
   }"

section \<open>The tasks\<close>

text \<open>
  The points of the tasks where something else may come in between: a kernel call, or an access
  to what is shared. \<open>a++\<close> is a load and a store.
\<close>

datatype point =
    WakeInit | LedInit | Toggle | DelayUntil
  | Lock | LoadA | StoreA | LoadB | StoreB | LoadNumber | StoreNumber | Unlock | Send | Delay
  | Receive

fun task01 :: "point \<Rightarrow> point" where
  "task01 WakeInit = LedInit"
| "task01 LedInit = Toggle"
| "task01 Toggle = DelayUntil"
| "task01 p = Toggle"

fun task02 :: "point \<Rightarrow> point" where
  "task02 Lock = LoadA"
| "task02 LoadA = StoreA"
| "task02 StoreA = LoadB"
| "task02 LoadB = StoreB"
| "task02 StoreB = Unlock"
| "task02 p = Lock"

fun task03 :: "point \<Rightarrow> point" where
  "task03 Lock = LoadA"
| "task03 LoadA = StoreA"
| "task03 StoreA = LoadB"
| "task03 LoadB = StoreB"
| "task03 StoreB = LoadNumber"
| "task03 LoadNumber = StoreNumber"
| "task03 StoreNumber = Unlock"
| "task03 Unlock = Send"
| "task03 Send = Delay"
| "task03 p = Lock"

fun task04 :: "point \<Rightarrow> point" where
  "task04 p = Receive"

text \<open>Where a task goes on, by its number, and where it begins.\<close>

definition flow :: "nat \<Rightarrow> point \<Rightarrow> point" where
  "flow i = (if i = 1 then task01 else if i = 2 then task02 else if i = 3 then task03 else task04)"

definition starting :: "nat \<Rightarrow> point" where
  "starting i = (if i = 1 then WakeInit else if i = 4 then Receive else Lock)"

text \<open>
  The state: the kernel, the variables of the program, the point and the register of every task.
  \<open>turns\<close>, which the program does not have, counts the calls of \<open>osMutexUnlock\<close>.
\<close>

record app =
  kern :: kernel
  var_a :: u16
  var_b :: u16
  wake01 :: u16
  led_ddr :: u8
  led_port :: u8
  pc :: "nat \<Rightarrow> point"
  reg :: "nat \<Rightarrow> u16"
  turns :: nat

text \<open>What a task does to its kernel and its memory at a point, and to the variables.\<close>

fun kernel_action :: "layout \<Rightarrow> nat \<Rightarrow> app \<Rightarrow> point \<Rightarrow> action option" where
  "kernel_action L i st DelayUntil = Some (Call (CDelayUntil (wake01 st) (OS_MS 500)))"
| "kernel_action L i st Lock = Some (Call (CTryLock (mutex_at L) OS_WAIT_FOREVER))"
| "kernel_action L i st StoreNumber = Some (Write (message_at L i) [ucast (reg st i), ucast (drop_bit 8 (reg st i))])"
| "kernel_action L i st Unlock = Some (Call (CUnlock (mutex_at L)))"
| "kernel_action L i st Send = Some (Call (CSend (queue_at L) (message_at L i) OS_WAIT_FOREVER))"
| "kernel_action L i st Delay = Some (Call (CDelay (OS_MS 20)))"
| "kernel_action L i st Receive = Some (Call (CReceive (queue_at L) (message_at L i) (OS_MS 100)))"
| "kernel_action L i st p = None"

fun variables :: "nat \<Rightarrow> point \<Rightarrow> app \<Rightarrow> app" where
  "variables i WakeInit st = st\<lparr>wake01 := osTickCount (kern st)\<rparr>"
| "variables i LedInit st = st\<lparr>led_ddr := led_ddr st OR 0x80\<rparr>"
| "variables i Toggle st = st\<lparr>led_port := led_port st XOR 0x80\<rparr>"
| "variables i DelayUntil st = st\<lparr>wake01 := fst (osDelayUntil (wake01 st) (OS_MS 500) (kern st))\<rparr>"
| "variables i LoadA st = st\<lparr>reg := (reg st)(i := var_a st)\<rparr>"
| "variables i StoreA st = st\<lparr>var_a := reg st i + 1\<rparr>"
| "variables i LoadB st = st\<lparr>reg := (reg st)(i := var_b st)\<rparr>"
| "variables i StoreB st = st\<lparr>var_b := reg st i + 1\<rparr>"
| "variables i LoadNumber st = st\<lparr>reg := (reg st)(i := var_a st)\<rparr>"
| "variables i Unlock st = st\<lparr>turns := turns st + 1\<rparr>"
| "variables i p st = st"

section \<open>Every step\<close>

text \<open>
  The application begins with every task at its first point. The task that has the processor,
  and is not in a call, does what its point says; it goes on with a call it has been in; the
  tick interrupts it. The idle task, when there is nothing else to do, sleeps until the tick.
\<close>

definition started :: "kernel \<Rightarrow> app" where
  "started k = \<lparr>kern = k, var_a = 0, var_b = 0, wake01 = 0, led_ddr = 0, led_port = 0,
     pc = starting, reg = (\<lambda>_. 0), turns = 0\<rparr>"

inductive app_step :: "layout \<Rightarrow> app \<Rightarrow> app \<Rightarrow> bool" for L where
  app_task: "runs main_shape L (kern st) i \<Longrightarrow>
    (case kernel_action L i st (pc st i) of
       None \<Rightarrow> k = kern st | Some a \<Rightarrow> step no_timer (tasks_of main_shape L) a (kern st) k) \<Longrightarrow>
    app_step L st ((variables i (pc st i) st)\<lparr>kern := k, pc := (pc st)(i := flow i (pc st i))\<rparr>)"
| app_kernel: "a = Back \<or> a = Tick \<Longrightarrow> step no_timer (tasks_of main_shape L) a (kern st) k \<Longrightarrow>
    app_step L st (st\<lparr>kern := k\<rparr>)"

inductive app_reachable :: "layout \<Rightarrow> app \<Rightarrow> bool" for L where
  app_main: "power_on s \<Longrightarrow> osIdleTask s = idle_at L \<Longrightarrow> main L s = Some (r, k) \<Longrightarrow>
    app_reachable L (started k)"
| app_next: "app_reachable L st \<Longrightarrow> app_step L st st' \<Longrightarrow> app_reachable L st'"

section \<open>Up to \<open>osRun\<close>\<close>

lemma main_starts:
  assumes L: "layout_ok main_shape L" and on: "power_on s" "osIdleTask s = idle_at L"
  obtains r k where "main L s = Some (r, k)" and "reachable fire Q (tasks_of main_shape L) k"
    and "arranged main_shape L (members main_shape) k" and "no_waits k" and "plain k"
proof -
  note [simp] = main_shape_def
  let ?s1 = "osQueueInit (queue_at L) (queueMemory_at L) 2 3 (osInit (heap_start L) (spr L) s)"
  have s1: "built main_shape L {} ?s1" using built_init [OF L on] by simp
  obtain r2 s2 where s2: "osTaskCreate (linker L) (entry_of L 1) 0 (Some (memory_of L 1)) sizeof_memory 4 ?s1 = Some (r2, s2)"
      "built main_shape L {1} s2"
    by (rule built_create [OF L s1, where i = 1 and p = 4]) auto
  obtain r3 s3 where s3: "osTaskCreate (linker L) (entry_of L 2) 0 (Some (memory_of L 2)) sizeof_memory 1 s2 = Some (r3, s3)"
      "built main_shape L {2, 1} s3"
    by (rule built_create [OF L s2(2), where i = 2 and p = 1]) auto
  obtain r4 s4 where s4: "osTaskCreate (linker L) (entry_of L 3) 0 (Some (memory_of L 3)) sizeof_memory 2 s3 = Some (r4, s4)"
      "built main_shape L {3, 2, 1} s4"
    by (rule built_create [OF L s3(2), where i = 3 and p = 2]) auto
  obtain r5 s5 where s5: "osTaskCreate (linker L) (entry_of L 4) 0 (Some (memory_of L 4)) sizeof_memory 3 s4 = Some (r5, s5)"
      "built main_shape L {4, 3, 2, 1} s5"
    by (rule built_create [OF L s4(2), where i = 4 and p = 3]) auto
  have "{4, 3, 2, 1} = members main_shape" by auto
  then have b: "built main_shape L (members main_shape) s5" using s5(2) by simp
  obtain r k where k: "osRun s5 = Some (r, k)" "reachable fire Q (tasks_of main_shape L) k"
      "arranged main_shape L (members main_shape) k" "no_waits k" "plain k"
    by (rule built_run [OF b])
  have "main L s = Some (r, k)" by (simp add: main_def s2(1) s3(1) s4(1) s5(1) k(1) Let_def del: One_nat_def)
  then show ?thesis using that k(2-5) by blast
qed

end
