(* ===== verification/Application_Inv.thy ===== *)
theory Application_Inv
  imports Application
begin

text \<open>
  The invariant of the application of \<^verbatim>\<open>main.c\<close>: what the mutex protects.
\<close>

section \<open>The points of the tasks\<close>

text \<open>The points at which a task has the mutex.\<close>

fun inside :: "point \<Rightarrow> bool" where
  "inside LoadA = True"
| "inside StoreA = True"
| "inside LoadB = True"
| "inside StoreB = True"
| "inside LoadNumber = True"
| "inside StoreNumber = True"
| "inside Unlock = True"
| "inside p = False"

definition program :: "nat \<Rightarrow> point set" where
  "program i =
     (if i = 1 then {WakeInit, LedInit, Toggle, DelayUntil}
      else if i = 2 then {Lock, LoadA, StoreA, LoadB, StoreB, Unlock}
      else if i = 3 then {Lock, LoadA, StoreA, LoadB, StoreB, LoadNumber, StoreNumber, Unlock, Send, Delay}
      else {Receive})"

lemma flow_program: "p \<in> program i \<Longrightarrow> flow i p \<in> program i"
  by (auto simp: program_def flow_def split: if_splits)

text \<open>Only \<open>osMutexLock\<close> and \<open>osMutexUnlock\<close> lead from the outside to the inside and back.\<close>

lemma flow_inside:
  assumes "p \<in> program i"
  shows "p = Lock \<Longrightarrow> flow i p = LoadA" and "p = Unlock \<Longrightarrow> \<not> inside (flow i p)"
    and "p \<noteq> Lock \<Longrightarrow> p \<noteq> Unlock \<Longrightarrow> inside (flow i p) = inside p"
  using assms by (cases p; auto simp: program_def flow_def split: if_splits)+

lemma plain_program:
  assumes "p \<in> program i" and "i \<in> members main_shape" and "p \<noteq> Lock" and "p \<noteq> Unlock" and "kernel_action L i st p = Some a"
  shows "plain_action main_shape L i a"
  using assms by (cases p) (auto simp: program_def main_shape_def split: if_splits)

interpretation main: lock_client main_shape inside Lock LoadA
  by unfold_locales simp_all

section \<open>The numbers\<close>

text \<open>
  What the task that has the mutex has made of the numbers: \<open>n\<close> is what both were when it came,
  \<open>r\<close> is its register.
\<close>

fun halfway :: "point \<Rightarrow> u16 \<Rightarrow> u16 \<Rightarrow> u16 \<Rightarrow> u16 \<Rightarrow> bool" where
  "halfway LoadA n r a b \<longleftrightarrow> a = n \<and> b = n"
| "halfway StoreA n r a b \<longleftrightarrow> r = n \<and> a = n \<and> b = n"
| "halfway LoadB n r a b \<longleftrightarrow> a = n + 1 \<and> b = n"
| "halfway StoreB n r a b \<longleftrightarrow> r = n \<and> a = n + 1 \<and> b = n"
| "halfway p n r a b \<longleftrightarrow> a = n + 1 \<and> b = n + 1"

definition numbers_inv :: "layout \<Rightarrow> app \<Rightarrow> bool" where
  "numbers_inv L st \<longleftrightarrow>
     (case owner (mutexes (kern st) (mutex_at L)) of
        None \<Rightarrow> var_a st = of_nat (turns st) \<and> var_b st = of_nat (turns st)
      | Some t \<Rightarrow> \<forall>i \<in> members main_shape. t = task L i \<longrightarrow>
          halfway (pc st i) (of_nat (turns st)) (reg st i) (var_a st) (var_b st))"

section \<open>The invariant\<close>

definition app_inv :: "layout \<Rightarrow> app \<Rightarrow> bool" where
  "app_inv L st \<longleftrightarrow>
     program_inv main_shape inside LoadA L (kern st) (pc st) \<and> numbers_inv L st \<and>
     (\<forall>i \<in> members main_shape. pc st i \<in> program i)"

lemma app_inv_start:
  assumes L: "layout_ok main_shape L" and on: "power_on s" "osIdleTask s = idle_at L" and m: "main L s = Some (r, k)"
  shows "app_inv L (started k)"
proof -
  obtain r' k' where k': "main L s = Some (r', k')" "reachable no_timer careful (tasks_of main_shape L) k'"
      "arranged main_shape L (members main_shape) k'" "no_waits k'" "plain k'"
    by (rule main_starts [OF L on])
  then have k: "k' = k" using m by simp
  have "\<not> inside (starting i)" for i by (simp add: starting_def)
  then have "program_inv main_shape inside LoadA L k starting"
    using main.inv_start [OF L k'(2-5), of starting] by (simp add: k)
  moreover have "owner (mutexes k x) = None" for x using k'(5) by (simp add: k plain_def)
  moreover have "i \<in> members main_shape \<Longrightarrow> starting i \<in> program i" for i
    by (auto simp: starting_def program_def main_shape_def)
  ultimately show ?thesis by (simp add: app_inv_def started_def numbers_inv_def)
qed

text \<open>The task that owns the mutex makes the numbers what they should be at its next point.\<close>

lemma numbers_task:
  assumes L: "layout_ok main_shape L" and n: "numbers_inv L st" and i: "i \<in> members main_shape"
    and pr: "pc st i \<in> program i" and p: "p = pc st i" "p \<noteq> Lock" "p \<noteq> Unlock"
    and own: "inside p \<longleftrightarrow> owner (mutexes (kern st) (mutex_at L)) = Some (task L i)"
      "owner (mutexes k (mutex_at L)) = owner (mutexes (kern st) (mutex_at L))"
  shows "numbers_inv L ((variables i p st)\<lparr>kern := k, pc := (pc st)(i := flow i p)\<rparr>)"
proof (cases "inside p")
  case True
  let ?n = "of_nat (turns st)"
  have o': "owner (mutexes (kern st) (mutex_at L)) = Some (task L i)" using own(1) True by simp
  then have "halfway p ?n (reg st i) (var_a st) (var_b st)"
    using n i p(1) by (auto simp: numbers_inv_def)
  then have "halfway (flow i p) ?n (reg (variables i p st) i) (var_a (variables i p st)) (var_b (variables i p st)) \<and>
      turns (variables i p st) = turns st"
    using True p(3) pr unfolding p(1) [symmetric] by (cases p) (auto simp: program_def flow_def split: if_splits)
  then show ?thesis
    using own(2) o' layout_okD(2) [OF L i] by (auto simp: numbers_inv_def)
next
  case False
  have same: "var_a (variables i p st) = var_a st" "var_b (variables i p st) = var_b st"
      "reg (variables i p st) = reg st" "turns (variables i p st) = turns st"
    using False p(2) pr unfolding p(1) [symmetric] by (cases p; simp)+
  have "owner (mutexes (kern st) (mutex_at L)) \<noteq> Some (task L i)" using own(1) False by simp
  then show ?thesis
    using n own(2) by (auto simp: numbers_inv_def same split: option.splits)
qed

text \<open>\<open>osMutexLock\<close> and \<open>osMutexUnlock\<close>.\<close>

lemma numbers_lock:
  assumes L: "layout_ok main_shape L" and n: "numbers_inv L st" and i: "i \<in> members main_shape"
    and k: "case owner (mutexes (kern st) (mutex_at L)) of
        None \<Rightarrow> owner (mutexes k (mutex_at L)) = Some (task L i)
      | Some t \<Rightarrow> owner (mutexes k (mutex_at L)) = Some t \<and> t \<noteq> task L i"
  shows "numbers_inv L (st\<lparr>kern := k, pc := (pc st)(i := LoadA)\<rparr>)"
  using n k layout_okD(2) [OF L i] by (auto simp: numbers_inv_def split: option.splits)

lemma numbers_unlock:
  assumes L: "layout_ok main_shape L" and n: "numbers_inv L st" and i: "i \<in> members main_shape"
    and p: "pc st i = Unlock" and own: "owner (mutexes (kern st) (mutex_at L)) = Some (task L i)"
    and k: "\<And>w. owner (mutexes k (mutex_at L)) = Some w \<Longrightarrow>
      \<exists>j \<in> members main_shape. w = task L j \<and> j \<noteq> i \<and> pc st j = LoadA"
  shows "numbers_inv L (st\<lparr>turns := turns st + 1, kern := k, pc := (pc st)(i := q)\<rparr>)"
proof -
  have ab: "var_a st = of_nat (turns st) + 1" "var_b st = of_nat (turns st) + 1"
    using n own i p by (auto simp: numbers_inv_def)
  show ?thesis
  proof (cases "owner (mutexes k (mutex_at L))")
    case (Some w)
    then obtain j where j: "j \<in> members main_shape" "w = task L j" "j \<noteq> i" "pc st j = LoadA" using k by blast
    have "x = j" if "x \<in> members main_shape" "w = task L x" for x
      using layout_okD(2) [OF L that(1) j(1)] that(2) j(2) by simp
    then show ?thesis using j(3,4) Some ab by (auto simp: numbers_inv_def add.commute)
  qed (simp add: numbers_inv_def ab add.commute)
qed

lemma app_inv_step:
  assumes inv: "app_inv L st" and st: "app_step L st st'"
  shows "app_inv L st'"
  using st
proof (cases rule: app_step.cases)
  case (app_task i k)
  define p where "p = pc st i"
  have pi: "program_inv main_shape inside LoadA L (kern st) (pc st)" and n: "numbers_inv L st"
    and pr: "\<And>i. i \<in> members main_shape \<Longrightarrow> pc st i \<in> program i"
    using inv by (simp_all add: app_inv_def)
  note L = main.invD(1) [OF pi] and run = main.runsD [OF pi app_task(2)] and plain = main.inv_plain [OF pi app_task(2)]
  have pr': "p \<in> program i" using pr [OF run(1)] by (simp add: p_def)
  note flow = flow_inside [OF pr']
  have act: "case kernel_action L i st p of None \<Rightarrow> k = kern st | Some a \<Rightarrow> step no_timer (tasks_of main_shape L) a (kern st) k"
    using app_task(3) by (simp add: p_def)
  have rest: "app_inv L ((variables i p st)\<lparr>kern := k, pc := (pc st)(i := flow i p)\<rparr>)"
    if "program_inv main_shape inside LoadA L k ((pc st)(i := flow i p))"
      "numbers_inv L ((variables i p st)\<lparr>kern := k, pc := (pc st)(i := flow i p)\<rparr>)"
    using that pr flow_program [OF pr'] by (simp add: app_inv_def)
  have "app_inv L ((variables i p st)\<lparr>kern := k, pc := (pc st)(i := flow i p)\<rparr>)"
  proof (cases "p = Lock \<or> p = Unlock")
    case True
    then show ?thesis
    proof
      assume p: "p = Lock"
      then have "pc st i = Lock" "step no_timer (tasks_of main_shape L) (Call (CTryLock (mutex_at L) OS_WAIT_FOREVER)) (kern st) k"
        using act by (simp_all add: p_def)
      from main.inv_lock [OF pi app_task(2) this] show ?thesis
        using rest numbers_lock [OF L n run(1)] flow(1) p by simp
    next
      assume p: "p = Unlock"
      then have u: "inside (pc st i)" "pc st i \<noteq> LoadA" "\<not> inside (flow i p)" "pc st i = Unlock"
          "step no_timer (tasks_of main_shape L) (Call (CUnlock (mutex_at L))) (kern st) k"
        using act flow(2) by (simp_all add: p_def [symmetric])
      note unlock = main.inv_unlock [OF pi app_task(2) u(1-3,5)]
      have "owner (mutexes (kern st) (mutex_at L)) = Some (task L i)" using run(6) u(1) by simp
      from rest [OF unlock(1)] numbers_unlock [OF L n run(1) u(4) this unlock(2), where q = "flow i p"] p show ?thesis by simp
    qed
  next
    case False
    then have p: "p \<noteq> Lock" "p \<noteq> Unlock" and q: "inside (flow i p) = inside (pc st i)" using flow(3) by (auto simp: p_def)
    have "program_inv main_shape inside LoadA L k ((pc st)(i := flow i p)) \<and> quiet (task L i) (kern st) k"
    proof (cases "kernel_action L i st p")
      case None
      then show ?thesis using act main.inv_stay [OF pi app_task(2) q] quiet_refl run(3) by simp
    next
      case (Some a)
      then have "plain_action main_shape L i a" by (rule plain_program [OF pr' run(1) p])
      then show ?thesis using plain [OF q] act Some by simp
    qed
    then show ?thesis
      using rest numbers_task [OF L n run(1) pr [OF run(1)] p_def p] run(6) by (simp add: quiet_def p_def)
  qed
  then show ?thesis by (simp add: app_task(1) p_def)
next
  case (app_kernel a k)
  have pi: "program_inv main_shape inside LoadA L (kern st) (pc st)" using inv by (simp add: app_inv_def)
  have a: "a = Back \<or> a = Tick \<or> (\<exists>x bs. a = Write x bs)" using app_kernel(2) by blast
  show ?thesis
    using main.inv_kernel [OF pi a app_kernel(3)] inv
    by (simp add: app_inv_def app_kernel(1) numbers_inv_def quiet_def split: option.splits)
qed

lemma app_reachable_inv:
  assumes "layout_ok main_shape L" and "app_reachable L st"
  shows "app_inv L st"
  using assms(2) by induction (use app_inv_start app_inv_step assms(1) in blast)+

text \<open>
  Wherever the application has got to, it goes on: a task that has the processor does what is at
  its point, or what is left of its call, and the tick comes whenever it may.
\<close>

lemma app_goes_on:
  assumes inv: "app_inv L st"
  shows "\<exists>k. app_step L st (st\<lparr>kern := k\<rparr>)"
    and "runs main_shape L (kern st) i \<Longrightarrow> \<exists>st'. app_step L st st' \<and> pc st' i = flow i (pc st i)"
proof -
  have pi: "program_inv main_shape inside LoadA L (kern st) (pc st)"
    and pr: "\<And>i. i \<in> members main_shape \<Longrightarrow> pc st i \<in> program i"
    using inv by (simp_all add: app_inv_def)
  show "\<exists>k. app_step L st (st\<lparr>kern := k\<rparr>)"
  proof -
    obtain k where "step no_timer (tasks_of main_shape L)
        (if cont (kern st) (osCurrentTask (kern st)) = None then Tick else Back) (kern st) k"
      using main.kernel_exists [OF pi] by blast
    then have "app_step L st (st\<lparr>kern := k\<rparr>)" by (rule app_kernel [rotated]) simp
    then show ?thesis ..
  qed
  assume i: "runs main_shape L (kern st) i"
  have "\<exists>k. case kernel_action L i st (pc st i) of
      None \<Rightarrow> k = kern st | Some a \<Rightarrow> step no_timer (tasks_of main_shape L) a (kern st) k"
  proof (cases "pc st i = Lock \<or> pc st i = Unlock")
    case True
    then show ?thesis using main.mutex_exists [OF pi i] by auto
  next
    case False
    show ?thesis
    proof (cases "kernel_action L i st (pc st i)")
      case (Some a)
      then have "plain_action main_shape L i a"
        using plain_program [OF pr main.runsD(1)] main.runsD(1) [OF pi i] pi i False by blast
      then show ?thesis using main.plain_exists [OF pi i] Some by simp
    qed simp
  qed
  then obtain k where k: "case kernel_action L i st (pc st i) of
      None \<Rightarrow> k = kern st | Some a \<Rightarrow> step no_timer (tasks_of main_shape L) a (kern st) k" ..
  define st' where "st' = (variables i (pc st i) st)\<lparr>kern := k, pc := (pc st)(i := flow i (pc st i))\<rparr>"
  have "app_step L st st'" unfolding st'_def by (rule app_task [OF i k])
  moreover have "pc st' i = flow i (pc st i)" by (simp add: st'_def)
  ultimately show "\<exists>st'. app_step L st st' \<and> pc st' i = flow i (pc st i)" by blast
qed

end
