(* ===== verification/Sample_State.thy ===== *)
theory Sample_State
  imports System
begin

text \<open>
  A state of the kernel in which every kind of waiting occurs, at which the properties of the
  development are applied: the idle task and a task of priority 4
  (\<open>sample\<close>; \<open>sample_at p\<close> has it at \<open>p\<close>) are ready, the running task
  owns a mutex and has inherited the priority of the task waiting for it, other tasks wait for
  a semaphore (with a timeout), an event (two of them) and a queue, and one is suspended.
\<close>

section \<open>The state\<close>

definition sample_task :: "addr \<Rightarrow> u8 \<Rightarrow> u8 \<Rightarrow> u8 \<Rightarrow> head option \<Rightarrow> OsTask" where
  "sample_task t st prio base list =
     \<lparr>sp = t + 80, result = 0, tnext = None, waitList = list, timerNext = None, wake = 0, wait = 0,
      state = st, priority = prio, basePriority = base, tmutexes = None, stack = t, dynamic = 0\<rparr>"

definition sample_tasks :: "u8 \<Rightarrow> addr \<Rightarrow> OsTask" where
  "sample_tasks p t =
     (if t = 0x100 then sample_task t OS_TASK_READY 0 0 None
      else if t = 0x200 then (sample_task t OS_TASK_RUNNING 9 5 None)\<lparr>tmutexes := Some 0x10\<rparr>
      else if t = 0x300 then sample_task t 0x22 9 9 (Some (MutexHead 0x10))
      else if t = 0x400 then (sample_task t 0x12 12 12 (Some (SemHead 0x20)))\<lparr>wake := 100\<rparr>
      else if t = 0x500 then (sample_task t 0x02 7 7 (Some (EventHead 0x30)))
        \<lparr>wait := 0x0103, tnext := Some 0x900\<rparr>
      else if t = 0x600 then (sample_task t 0x02 3 3 (Some (QueueHead 0x40)))\<lparr>wait := 0x1900\<rparr>
      else if t = 0x700 then sample_task t OS_TASK_SUSPENDED 6 6 None
      else if t = 0x800 then (sample_task t OS_TASK_READY p p None)\<lparr>tnext := Some 0x100\<rparr>
      else if t = 0x900 then (sample_task t 0x02 2 2 (Some (EventHead 0x30)))\<lparr>wait := 0x0202\<rparr>
      else zeroed)"

definition sample_mutexes :: "addr \<Rightarrow> OsMutex" where
  "sample_mutexes m =
     (if m = 0x10 then \<lparr>m_waiters = Some 0x300, owner = Some 0x200, nextOwned = None\<rparr>
      else \<lparr>m_waiters = None, owner = None, nextOwned = None\<rparr>)"

definition sample_semaphores :: "addr \<Rightarrow> OsSemaphore" where
  "sample_semaphores m =
     (if m = 0x20 then \<lparr>s_waiters = Some 0x400, s_count = 0, s_limit = 3\<rparr>
      else if m = 0x21 then \<lparr>s_waiters = None, s_count = 1, s_limit = 1\<rparr>
      else \<lparr>s_waiters = None, s_count = 0, s_limit = 0\<rparr>)"

definition sample_queues :: "addr \<Rightarrow> OsQueue" where
  "sample_queues q =
     (if q = 0x40 then \<lparr>q_waiters = Some 0x600, buffer = 0x1a00, itemSize = 2, q_length = 2,
        q_count = 0, q_head = 1\<rparr>
      else if q = 0x41 then \<lparr>q_waiters = None, buffer = 0x1b00, itemSize = 2, q_length = 2,
        q_count = 1, q_head = 1\<rparr>
      else \<lparr>q_waiters = None, buffer = 0, itemSize = 0, q_length = 0, q_count = 0, q_head = 0\<rparr>)"

definition sample_events :: "addr \<Rightarrow> OsEvent" where
  "sample_events e =
     (if e = 0x30 then \<lparr>e_waiters = Some 0x500, e_flags = 0\<rparr>
      else if e = 0x31 then \<lparr>e_waiters = None, e_flags = 5\<rparr>
      else \<lparr>e_waiters = None, e_flags = 0\<rparr>)"

definition sample_timers :: "addr \<Rightarrow> OsTimer" where
  "sample_timers t =
     (if t = 0x50 then \<lparr>tm_next = Some 0x51, tm_when = 95, tm_period = 10, tm_function = 1, tm_param = 2\<rparr>
      else \<lparr>tm_next = None, tm_when = 99, tm_period = 0, tm_function = 1, tm_param = 3\<rparr>)"

definition sample_cont :: "addr \<Rightarrow> kont option" where
  "sample_cont t =
     (if t = 0x300 then Some (KMutexTryLock 0x10)
      else if t = 0x400 then Some KResult
      else if t = 0x500 \<or> t = 0x900 then Some KEventWait
      else if t = 0x600 then Some KQueue
      else if t = 0x200 then None
      else Some (KReturn VVoid))"

definition sample_at :: "u8 \<Rightarrow> kernel" where
  "sample_at p = \<lparr>tasks = sample_tasks p, mutexes = sample_mutexes, semaphores = sample_semaphores,
     queues = sample_queues, events = sample_events, timers = sample_timers, pools = (\<lambda>_. None),
     ram = (\<lambda>_. OS_STACK_FILL), osIdleTask = 0x100, osCurrentTask = 0x200, osReadyList = Some 0x800,
     osTimerList = Some 0x400, osTicks = 90, osAging = 1, osTimers = Some 0x50, osDeadList = None,
     osTaskReaper = False, heap = (\<lambda>_. None), cont = sample_cont\<rparr>"

abbreviation sample :: kernel where "sample \<equiv> sample_at 4"

definition sample_ids :: "addr set" where
  "sample_ids = {0x100, 0x200, 0x300, 0x400, 0x500, 0x600, 0x700, 0x800, 0x900}"

fun sample_lists :: "head \<Rightarrow> addr list" where
  "sample_lists ReadyHead = [0x800, 0x100]"
| "sample_lists (MutexHead m) = (if m = 0x10 then [0x300] else [])"
| "sample_lists (SemHead m) = (if m = 0x20 then [0x400] else [])"
| "sample_lists (QueueHead q) = (if q = 0x40 then [0x600] else [])"
| "sample_lists (EventHead e) = (if e = 0x30 then [0x500, 0x900] else [])"
| "sample_lists DeadHead = []"

definition sample_owned :: "addr \<Rightarrow> addr list" where
  "sample_owned t = (if t = 0x200 then [0x10] else [])"

lemmas sample_defs = sample_at_def sample_tasks_def sample_task_def sample_mutexes_def
  sample_semaphores_def sample_queues_def sample_events_def zeroed_def

section \<open>It satisfies the invariant\<close>

lemma sample_repr: "repr sample_lists [0x400] (sample_at p)"
proof -
  have "chain (rd (sample_at p)) Next (Head h) (sample_lists h)" for h
    by (cases h) (simp_all add: sample_defs)
  moreover have "h = h'" if "t \<in> set (sample_lists h)" "t \<in> set (sample_lists h')" for h h' t
    using that by (cases h; cases h') (auto split: if_splits)
  moreover have "timer_list [0x400] (sample_at p)"
    by (simp add: timer_list_def sample_defs)
  ultimately show ?thesis
    by (simp add: repr_def lists_def)
qed

lemma sample_placed: "placed {} sample_lists [0x400] sample_ids (sample_at p)"
proof -
  have "distinct (sample_lists h) \<and> set (sample_lists h) \<subseteq> sample_ids" for h
    by (cases h) (auto simp: sample_ids_def)
  moreover have "(t \<in> set (sample_lists h)) = (waitList (tasks (sample_at p) t) = Some h)"
    if "h \<noteq> ReadyHead" "h \<noteq> DeadHead" "t \<in> sample_ids" for t h
    using that by (cases h) (auto simp: sample_ids_def sample_defs)
  moreover have "state (tasks (sample_at p) t) \<in> valid_states" "waitList (tasks (sample_at p) t) \<noteq> Some ReadyHead"
    "waitList (tasks (sample_at p) t) \<noteq> Some DeadHead"
    "(t \<in> set (sample_lists ReadyHead)) = (state (tasks (sample_at p) t) = OS_TASK_READY)"
    "waitList (tasks (sample_at p) t) \<noteq> None \<longrightarrow> state (tasks (sample_at p) t) AND OS_TASK_STATE = OS_TASK_BLOCKED"
    "(t \<in> set [0x400]) = (state (tasks (sample_at p) t) AND OS_TASK_TIMED \<noteq> 0)"
    "(state (tasks (sample_at p) t) AND OS_TASK_MUTEX \<noteq> 0) = (\<exists>m. waitList (tasks (sample_at p) t) = Some (MutexHead m))"
    if "t \<in> sample_ids" for t
    using that by (auto simp: sample_ids_def sample_defs valid_states_def)
  ultimately show ?thesis
    by (simp add: placed_def task_placed_def sample_ids_def)
qed

lemma sample_data:
  assumes "p \<le> 254"
  shows "data_inv {} sample_lists [0x400] sample_owned sample_ids (sample_at p)"
proof -
  have "sorted_wrt (by_priority (sample_at p)) (sample_lists h)" for h
    by (cases h) (simp_all add: by_priority_def sample_defs)
  then have "prio_sorted sample_lists (sample_at p)" by (simp add: prio_sorted_def)
  moreover have "timed_sorted [0x400] (sample_at p)" by (simp add: timed_sorted_def)
  moreover have "owners {} sample_lists sample_owned sample_ids (sample_at p)"
    by (auto simp: owners_def sample_owned_def sample_ids_def sample_defs split: if_splits)
  moreover have "no_inversion sample_lists (sample_at p)"
    by (auto simp: no_inversion_def sample_defs split: if_splits)
  moreover have "bounded sample_ids (sample_at p)" "idle_ok {} sample_ids (sample_at p)" "canaries sample_ids (sample_at p)"
    "osCurrentTask (sample_at p) \<in> sample_ids"
    using assms by (simp_all add: bounded_def idle_ok_def canaries_def sample_ids_def sample_defs)
  ultimately show ?thesis using sample_placed by (simp add: data_inv_def)
qed

lemma sample_inv: "p \<le> 254 \<Longrightarrow> kernel_inv sample_lists [0x400] sample_owned sample_ids (sample_at p)"
proof -
  assume p: "p \<le> 254"
  have "not_due [0x400] (sample_at p)" by (simp add: not_due_def left_def sample_defs)
  moreover have "running {osCurrentTask (sample_at p)} sample_ids (sample_at p)"
    by (simp add: running_def sample_ids_def sample_defs)
  ultimately show ?thesis using sample_repr sample_data [OF p] by (simp add: kernel_inv_def)
qed

lemma sample_rest_at: "p \<le> 254 \<Longrightarrow> rest sample_ids (sample_at p)"
  using sample_inv [of p] by (auto simp: rest_def) (auto simp: sample_ids_def sample_cont_def sample_at_def)

lemma sample_rest: "rest sample_ids sample"
  by (rule sample_rest_at) simp

lemma sample_objects: "objects_ok sample_ids (sample_at p)"
  by (auto simp: objects_ok_def event_match_def wait_flags_def wait_options_def sample_ids_def sample_defs)

lemma sample_simps [simp]:
  "osCurrentTask (sample_at p) = 0x200" "osIdleTask (sample_at p) = 0x100" "osTicks (sample_at p) = 90"
  "semaphores (sample_at p) = sample_semaphores" "mutexes (sample_at p) = sample_mutexes"
  "events (sample_at p) = sample_events" "queues (sample_at p) = sample_queues"
  "tasks (sample_at p) = sample_tasks p" "timers (sample_at p) = sample_timers"
  "ram (sample_at p) = (\<lambda>_. OS_STACK_FILL)" "cont (sample_at p) = sample_cont"
  "osReadyList (sample_at p) = Some 0x800" "osDeadList (sample_at p) = None"
  by (simp_all add: sample_at_def)

lemma sample_top: "top_runs sample_ids sample"
  by (simp add: top_runs_def sample_ids_def sample_defs)

text \<open>The buffers of the queues, and the room of the receiver that waits for one of them.\<close>

lemma region_numeral: "region a (numeral n) = insert a (region (a + 1) (pred_numeral n))"
  by (simp add: numeral_eq_Suc region_Suc)

lemma sample_buffers:
  "buffer_region (sample_queues q) \<subseteq> region 0x1a00 4 \<union> region 0x1b00 4"
  by (simp add: buffer_region_def sample_queues_def)

lemma sample_harmless: "X \<subseteq> - sample_ids \<Longrightarrow> harmless sample_ids (sample_at p) X"
  by (auto simp: harmless_def sample_ids_def sample_defs)

lemma sample_apart: "queues_apart sample_ids (sample_at p)"
  unfolding queues_apart_def
proof (intro conjI allI ballI impI)
  have buf: "buffer_region (sample_queues q) \<subseteq> - sample_ids" for q
    using sample_buffers [of q] by (auto simp: region_numeral region_Suc sample_ids_def)
  show "harmless sample_ids (sample_at p) (buffer_region (queues (sample_at p) q))" for q
    using buf by (simp add: sample_harmless)
  fix t q assume t: "t \<in> sample_ids" "waitList (tasks (sample_at p) t) = Some (QueueHead q)"
  then have eq: "t = 0x600" "q = 0x40" by (auto simp: sample_ids_def sample_tasks_def sample_task_def)
  have room: "region (wait (tasks (sample_at p) t)) (unat (itemSize (queues (sample_at p) q))) = {0x1900, 0x1901}"
    unfolding eq by (simp add: sample_tasks_def sample_queues_def region_numeral region_Suc)
  show "harmless sample_ids (sample_at p) (region (wait (tasks (sample_at p) t)) (unat (itemSize (queues (sample_at p) q))))"
    unfolding room by (rule sample_harmless) (simp add: sample_ids_def)
  show "region (wait (tasks (sample_at p) t)) (unat (itemSize (queues (sample_at p) q))) \<inter>
      buffer_region (queues (sample_at p) q) = {}"
    unfolding room using sample_buffers [of q] by (auto simp: region_numeral region_Suc)
qed

text \<open>A queue with a message in it and nobody waiting, and the room for another message.\<close>

lemma sample_room:
  shows "sample_queues 0x41 = queues (sample_at p) 0x41" and "2 = unat (itemSize (sample_queues 0x41))"
    and "harmless sample_ids (sample_at p) (region 0x1800 2)"
    and "region 0x1800 2 \<inter> buffer_region (sample_queues 0x41) = {}"
    and "\<And>t. t \<in> sample_ids \<Longrightarrow> waitList (tasks (sample_at p) t) = Some (QueueHead 0x41) \<Longrightarrow>
      region (wait (tasks (sample_at p) t)) 2 \<inter> region 0x1800 2 = {}"
proof -
  have r: "region 0x1800 2 = {0x1800, 0x1801}" by (simp add: region_numeral region_Suc)
  show "sample_queues 0x41 = queues (sample_at p) 0x41" by simp
  show "2 = unat (itemSize (sample_queues 0x41))" by (simp add: sample_queues_def)
  show "harmless sample_ids (sample_at p) (region 0x1800 2)"
    unfolding r by (rule sample_harmless) (simp add: sample_ids_def)
  show "region 0x1800 2 \<inter> buffer_region (sample_queues 0x41) = {}"
    unfolding r using sample_buffers [of "0x41"] by (auto simp: region_numeral region_Suc)
  show "\<And>t. t \<in> sample_ids \<Longrightarrow> waitList (tasks (sample_at p) t) = Some (QueueHead 0x41) \<Longrightarrow>
      region (wait (tasks (sample_at p) t)) 2 \<inter> region 0x1800 2 = {}"
    by (auto simp: sample_ids_def sample_tasks_def sample_task_def)
qed

lemma sample_message:
  "messages (sample_queues 0x41) (\<lambda>_. 0xa5) = [[0xa5, 0xa5]]" "msg 0x1800 2 (\<lambda>_. 0xa5) = [0xa5, 0xa5]"
proof -
  have two: "[0..<2] = [0, 1]" by (simp add: numeral_2_eq_2)
  show "messages (sample_queues 0x41) (\<lambda>_. 0xa5) = [[0xa5, 0xa5]]" "msg 0x1800 2 (\<lambda>_. 0xa5) = [0xa5, 0xa5]"
    by (simp_all add: messages_def msg_def sample_queues_def two)
qed

end
