(* ===== verification/System_Properties.thy ===== *)
theory System_Properties
  imports Mutual_Exclusion Sample_State
begin

text \<open>
  Properties of the system from power on: the invariant holds in every state that is reachable,
  and whatever is done next comes to an end. They are applied to a run that starts with
  variables that are zero.
\<close>

section \<open>A run\<close>

definition switched_on :: kernel where
  "switched_on = \<lparr>tasks = (\<lambda>_. zeroed), mutexes = (\<lambda>_. \<lparr>m_waiters = None, owner = None, nextOwned = None\<rparr>),
     semaphores = (\<lambda>_. \<lparr>s_waiters = None, s_count = 0, s_limit = 0\<rparr>),
     queues = (\<lambda>_. \<lparr>q_waiters = None, buffer = 0, itemSize = 0, q_length = 0, q_count = 0, q_head = 0\<rparr>),
     events = (\<lambda>_. \<lparr>e_waiters = None, e_flags = 0\<rparr>), timers = sample_timers, pools = (\<lambda>_. None),
     ram = (\<lambda>_. 0), osIdleTask = 0x100, osCurrentTask = 0, osReadyList = None, osTimerList = None,
     osTicks = 0, osAging = 0, osTimers = None, osDeadList = None, osTaskReaper = False,
     heap = (\<lambda>_. None), cont = (\<lambda>_. None)\<rparr>"

definition first_task :: addr where
  "first_task = task_place 0x600 200"

text \<open>\<open>main\<close> makes a semaphore and a task.\<close>

lemma run_boots:
  obtains s0 r s where "boots {first_task, 0x100} s0" and "osRun s0 = Some (r, s)"
proof -
  let ?s0 = "osInit 0x400 0x21f0 switched_on"
  have on: "power_on switched_on" by (simp add: power_on_def switched_on_def)
  have idle: "osIdleTask switched_on = 0x100" by (simp add: switched_on_def)
  have "(if 0x2100 < 0x400 then 0x400 else 0x2100) < (0x21f0 :: addr) - 16" by simp
  from boots_init [OF on this] have b0: "boots {0x100} ?s0" by (simp add: idle)
  have unused: "unused {0x100} ?s0 (MSemaphore 0x20 1 5)"
    by (simp add: waited_for_def osInit_def Let_def switched_on_def zeroed_def)
  let ?s1 = "make (MSemaphore 0x20 1 5) ?s0"
  have b1: "boots {0x100} ?s1" by (rule boots_make [OF b0 unused])
  have idle1: "stack (tasks ?s1 0x100) = 0x2100" "waitList (tasks ?s1 0x100) = None"
      "buffer (queues ?s1 q) = 0" "q_length (queues ?s1 q) = 0" for q
    by (simp_all add: osInit_def Let_def switched_on_def zeroed_def osSemaphoreInit_def)
  have "0x2100 \<notin> region 0x600 200"
  proof
    assume "0x2100 \<in> region 0x600 200"
    then obtain i where "of_nat i = (0x2100 - 0x600 :: addr)" "i < 200"
      by (auto simp: region_def algebra_simps)
    then show False using of_nat_u16_inj [of i "0x1b00"] by simp
  qed
  then have fits: "fits {0x100} ?s1 0x600 200"
    by (simp del: make.simps add: fits_def fresh_def harmless_def idle1 buffer_region_def region_def task_place_def stack_min)
  from boot_create [OF boots_ok [OF b1] fits first_task_def, of "(1, 2)" 3 4 9]
  obtain r s2 where s2: "osTaskCreate (1, 2) 3 4 (Some 0x600) 200 9 ?s1 = Some (r, s2)"
    by (auto simp: returns_iff)
  have b2: "boots {first_task, 0x100} s2"
    using boots_create [OF b1 fits s2] by (simp add: first_task_def)
  from osRun_ok [OF boots_ok [OF b2]] obtain r' s3 where "osRun s2 = Some (r', s3)"
    by (auto simp: returns_iff)
  then show ?thesis using that [OF b2] by blast
qed

lemma run_starts:
  obtains s where "reachable fire P {first_task, 0x100} s"
proof -
  obtain s0 r s where "boots {first_task, 0x100} s0" "osRun s0 = Some (r, s)" by (rule run_boots)
  then show ?thesis by (rule that [OF reach_run])
qed

text \<open>The task that runs first locks a mutex.\<close>

lemma run_locks:
  assumes "\<And>a s. \<not> ends_wait a s \<Longrightarrow> P a s"
  obtains s t where "holding fire P {first_task, 0x100} s {(t, 0x10)}" and "cont s (osCurrentTask s) = None"
    and "owner (mutexes s 0x10) = Some t"
proof -
  let ?A = "{first_task, 0x100}"
  obtain s0 r s where b: "boots ?A s0" and run: "osRun s0 = Some (r, s)" by (rule run_boots)
  then have h: "holding fire P ?A s {}" by (rule hold_run)
  let ?c = "osCurrentTask s"
  have p: "plain s" by (rule osRun_plain [OF boots_plain [OF b] run])
  then have free: "owner (mutexes s m) = None" for m by (simp add: plain_def)
  have h1: "holding fire P ?A (taken ?c s) {}"
  proof (cases "cont s ?c")
    case None
    then have "taken ?c s = s" by (simp add: taken_def fun_upd_idem)
    then show ?thesis using h by simp
  next
    case (Some k)
    have "case cont s ?c of None \<Rightarrow> True | Some (KReturn _) \<Rightarrow> True | Some (KStart _ _) \<Rightarrow> True | _ \<Rightarrow> False"
      using p by (simp add: plain_def)
    then obtain v where v: "run_kont k (taken ?c s) = Some (Returned v, taken ?c s)" "\<And>m. k \<noteq> KMutexTryLock m"
      unfolding Some by (cases k) (auto simp: run_kont_def Let_def)
    then have "step fire ?A Back s (taken ?c s)" using Some by (auto simp: step_Back)
    from hold_step [OF h this assms] show ?thesis by (simp add: Some v(2))
  qed
  let ?s = "taken ?c s"
  have lock: "osMutexTryLock 0x10 0 ?s = Some (Returned (VBool True), osMutexOwn 0x10 ?c ?s)"
    using free by (simp add: osMutexTryLock_def taken_def)
  have "step fire ?A (Call (CTryLock 0x10 0)) ?s (osMutexOwn 0x10 ?c ?s)"
    using lock by (auto simp: step_Call taken_def)
  from hold_step [OF h1 this assms]
  have "holding fire P ?A (osMutexOwn 0x10 ?c ?s) {(t, m). t = osCurrentTask ?s \<and> m = 0x10}"
    using lock by (simp add: true_def eq_commute cong: conj_cong)
  moreover have "{(t, m). t = osCurrentTask ?s \<and> m = 0x10} = {(osCurrentTask ?s, 0x10)}" by auto
  ultimately show ?thesis using that [of "osMutexOwn 0x10 ?c ?s" "osCurrentTask ?s"] by (simp add: taken_def)
qed

section \<open>The invariant\<close>



text \<open>
  C2. The system is never stuck: in a state that is reachable the running task either is in its
  own code, and then every call it may make, every interrupt handler and the tick come to an
  end, or it is in a kernel call it has been switched away from, and then what is left of the
  call comes to an end. None of them follows a null pointer, loops for ever or stops the
  processor because of a stack overflow.
\<close>

theorem never_stuck:
  assumes "reachable fire P A s" and "\<And>A. keeps_kernel A fire"
  shows "if cont s (osCurrentTask s) = None
    then (\<forall>c. allowed A s c \<longrightarrow> (\<exists>s'. step fire A (Call c) s s')) \<and>
      (\<forall>is. handler_ok A s is \<longrightarrow> (\<exists>s'. step fire A (Interrupt is) s s')) \<and> (\<exists>s'. step fire A Tick s s') \<and>
      (\<forall>p bs. harmless A s (region p (length bs)) \<longrightarrow> (\<exists>s'. step fire A (Write p bs) s s'))
    else \<exists>s'. step fire A Back s s'"
  using steps_exist [of A s] reachable_ok [OF assms] assms(2) by auto

theorem never_stuck_witness:
  "\<exists>s a s'. reachable giver (\<lambda>_ _. True) {first_task, 0x100} s \<and> step giver {first_task, 0x100} a s s'"
proof -
  obtain s where s: "reachable giver (\<lambda>_ _. True) {first_task, 0x100} s" using run_starts .
  from never_stuck [OF s giver_keeps_kernel] s show ?thesis by (auto split: if_splits)
qed

section \<open>Mutual exclusion\<close>

text \<open>
  C3. Mutual exclusion, from power on: of all tasks that have been told by \<open>osMutexTryLock\<close> that
  they have locked a mutex, at once or after a wait, and that have neither unlocked it since nor
  been deleted, there is never more than one, and it is the owner of the mutex. The
  application must not delete a task that is waiting in \<open>osMutexTryLock\<close>, and the functions of
  timers may do what interrupt handlers may.
\<close>

theorem mutual_exclusion:
  assumes "holding fire P A s H" and "\<And>A. keeps_kernel A fire" and "keeps_locks fire"
    and "\<And>a s. P a s \<Longrightarrow> \<not> ends_wait a s"
  shows "(\<forall>t m. (t, m) \<in> H \<longrightarrow> owner (mutexes s m) = Some t) \<and>
    (\<forall>t u m. (t, m) \<in> H \<and> (u, m) \<in> H \<longrightarrow> t = u)"
proof -
  have "grants UNIV A s \<and> (\<forall>(t, m) \<in> H. owner (mutexes s m) = Some t)"
    by (rule holding_owner [OF assms(1-3)]) (simp add: assms(4))
  then have "owner (mutexes s m) = Some t" if "(t, m) \<in> H" for t m using that by blast
  then show ?thesis by (metis option.inject)
qed

theorem mutual_exclusion_witness:
  "\<exists>s t. holding giver (\<lambda>a s. \<not> ends_wait a s) {first_task, 0x100} s {(t, 0x10)} \<and> owner (mutexes s 0x10) = Some t"
proof -
  obtain s t where s: "holding giver (\<lambda>a s. \<not> ends_wait a s) {first_task, 0x100} s {(t, 0x10)}"
    by (rule run_locks [where fire = giver and P = "\<lambda>a s. \<not> ends_wait a s"]) auto
  have "owner (mutexes s 0x10) = Some t"
    using mutual_exclusion [OF s giver_keeps_kernel giver_keeps_locks] by blast
  then show ?thesis using s by blast
qed

text \<open>
  C4. Nobody else can take a mutex away: with every step of the system its owner stays the owner,
  but for the owner's own \<open>osMutexUnlock\<close> of it and for the end of the owner.
\<close>

theorem owner_stays:
  assumes "reachable fire P A s" and "\<And>A. keeps_kernel A fire" and "keeps_locks fire"
    and "step fire A a s s'" and "owner (mutexes s m) = Some t" and "\<not> gives_up a s t m"
  shows "owner (mutexes s' m) = Some t"
  using step_owner [OF assms(4) reachable_ok [OF assms(1,2)] assms(2,3,5,6)] .

theorem owner_stays_witness:
  "\<exists>s s' t. step giver {first_task, 0x100} Tick s s' \<and> owner (mutexes s' 0x10) = Some t"
proof -
  let ?A = "{first_task, 0x100}"
  obtain s t where s: "holding giver (\<lambda>_ _. True) ?A s {(t, 0x10)}" "cont s (osCurrentTask s) = None"
      "owner (mutexes s 0x10) = Some t"
    by (rule run_locks [where fire = giver and P = "\<lambda>_ _. True"]) auto
  note reach = holding_reachable [OF s(1)]
  obtain s' where s': "step giver ?A Tick s s'"
    using steps_exist(4) [OF reachable_ok [OF reach giver_keeps_kernel] s(2) giver_keeps_kernel] ..
  from owner_stays [OF reach giver_keeps_kernel giver_keeps_locks s' s(3)] s' show ?thesis by auto
qed

end
