(* ===== verification/Application_Properties.thy ===== *)
theory Application_Properties
  imports Application_Inv System_Properties
begin

text \<open>
  What the application of \<^verbatim>\<open>main.c\<close> relies on the kernel for, proved for every run of it, and
  an arrangement of the memory for which all of it holds.
\<close>

section \<open>An arrangement of the memory\<close>

definition board :: layout where
  "board = \<lparr>idle_at = 0x730, heap_start = 0x800, spr = 0x21f0, linker = (1, 2),
     entry_of = (\<lambda>i. 0x100 + of_nat i), memory_of = (\<lambda>i. 0x200 + of_nat i * 0x100), mutex_at = 0x710,
     queue_at = 0x720, queueMemory_at = 0x700, message_at = (\<lambda>i. 0x250 + of_nat i * 0x100)\<rparr>"

lemma board_ok: "layout_ok main_shape board"
proof -
  have size: "unat sizeof_memory = 149" by (simp add: OS_TASK_MEMORY_def)
  have members: "members main_shape = {1, 2, 3, 4}" "rooms main_shape = {3, 4}" by (simp_all add: main_shape_def)
  have memory: "memory_of board i = 0x200 + of_nat i * 0x100" for i by (simp add: board_def)
  have ends: "ends main_shape board = {0x2100, 0x300, 0x400, 0x500, 0x600}"
    by (simp add: ends_def members memory main_stack_def board_def)
  have "main_stack board \<notin> region (memory_of board i) 149 \<and>
      region (memory_of board i) 149 \<inter> ends main_shape board \<subseteq> {memory_of board i}" if "i \<in> members main_shape" for i
    using that unfolding members ends by (auto simp: memory region_iff main_stack_def board_def)
  moreover have "buffer_of main_shape board = {0x700, 0x701, 0x702, 0x703, 0x704, 0x705}"
  proof -
    have "buffer_of main_shape board = region 0x700 6" by (simp add: buffer_of_def main_shape_def board_def)
    then show ?thesis by (simp add: region_Suc numeral_eq_Suc)
  qed
  moreover have "room_of main_shape board 3 = {0x550, 0x551}" "room_of main_shape board 4 = {0x650, 0x651}"
    by (simp_all add: room_of_def main_shape_def board_def region_2)
  moreover have "main_stack board < spr board - 16" "inj_on (task board) {1, 2, 3, 4}" "idle_at board \<notin> task board ` {1, 2, 3, 4}"
    by (simp_all add: main_stack_def board_def task_def task_place_def OS_TASK_MEMORY_def)
  ultimately show ?thesis by (simp add: layout_ok_def size ends members del: One_nat_def)
qed

text \<open>A run on it, from the first instruction of \<^verbatim>\<open>main\<close> to the first task.\<close>

lemma board_starts:
  obtains st where "app_reachable board st" and "pc st = starting" and "var_a st = 0" and "turns st = 0"
proof -
  let ?s = "switched_on\<lparr>osIdleTask := idle_at board\<rparr>"
  have on: "power_on ?s" "osIdleTask ?s = idle_at board" by (simp_all add: power_on_def switched_on_def)
  obtain r k where m: "main board ?s = Some (r, k)"
    by (rule main_starts [OF board_ok on, where fire = no_timer and Q = careful])
  have "app_reachable board (started k)" by (rule app_main [OF on m])
  then show ?thesis by (rule that) (simp_all add: started_def)
qed

section \<open>The numbers\<close>

text \<open>
  C5. No increment of the application is lost, whatever the tick interrupts: whenever the mutex is
  free, both numbers are the number of turns the tasks have had at them (modulo the width of the
  numbers), so they are equal; and the task that owns the mutex sees them equal when it has come
  out of \<open>osMutexLock\<close> and again when it has changed both, one turn further.
\<close>

theorem numbers_agree:
  assumes "layout_ok main_shape L" and "app_reachable L st"
  shows "(owner (mutexes (kern st) (mutex_at L)) = None \<longrightarrow> var_a st = of_nat (turns st) \<and> var_b st = of_nat (turns st)) \<and>
    (\<forall>i \<in> members main_shape. owner (mutexes (kern st) (mutex_at L)) = Some (task L i) \<longrightarrow>
       (pc st i = LoadA \<longrightarrow> var_a st = of_nat (turns st) \<and> var_b st = of_nat (turns st)) \<and>
       (pc st i \<in> {LoadNumber, StoreNumber, Unlock} \<longrightarrow>
          var_a st = of_nat (turns st + 1) \<and> var_b st = of_nat (turns st + 1)))"
proof -
  have "numbers_inv L st" using app_reachable_inv [OF assms] by (simp add: app_inv_def)
  note inv = this [unfolded numbers_inv_def]
  have "halfway (pc st i) (of_nat (turns st)) (reg st i) (var_a st) (var_b st)"
    if "i \<in> members main_shape" "owner (mutexes (kern st) (mutex_at L)) = Some (task L i)" for i
    using inv that by simp
  then have "(pc st i = LoadA \<longrightarrow> var_a st = of_nat (turns st) \<and> var_b st = of_nat (turns st)) \<and>
      (pc st i \<in> {LoadNumber, StoreNumber, Unlock} \<longrightarrow>
        var_a st = of_nat (turns st + 1) \<and> var_b st = of_nat (turns st + 1))"
    if "i \<in> members main_shape" "owner (mutexes (kern st) (mutex_at L)) = Some (task L i)" for i
    using that by (cases "pc st i") (fastforce simp: add.commute)+
  then show ?thesis using inv by (cases "owner (mutexes (kern st) (mutex_at L))") simp_all
qed

theorem numbers_agree_witness:
  "\<exists>st. app_reachable board st \<and> (owner (mutexes (kern st) (mutex_at board)) = None \<longrightarrow> var_b st = 0)"
proof -
  obtain st where st: "app_reachable board st" "turns st = 0" by (rule board_starts)
  from numbers_agree [OF board_ok st(1)] st show ?thesis by auto
qed

text \<open>
  C6. At most one task is between \<open>osMutexLock\<close> and \<open>osMutexUnlock\<close>: a task there that is not
  still waiting in \<open>osMutexLock\<close> is the owner of the mutex.
\<close>

theorem one_inside:
  assumes "layout_ok main_shape L" and "app_reachable L st"
    and "X = {i \<in> members main_shape. inside (pc st i) \<and> cont (kern st) (task L i) \<noteq> Some (KMutexTryLock (mutex_at L))}"
  shows "card X \<le> 1 \<and> (\<forall>i \<in> X. owner (mutexes (kern st) (mutex_at L)) = Some (task L i))"
proof -
  have pi: "program_inv main_shape inside LoadA L (kern st) (pc st)"
    using app_reachable_inv [OF assms(1,2)] by (simp add: app_inv_def)
  have own: "owner (mutexes (kern st) (mutex_at L)) = Some (task L i)" if "i \<in> X" for i
    using main.inside_owner [OF pi, of i] that unfolding assms(3) by blast
  have "i = j" if "i \<in> X" "j \<in> X" for i j
  proof -
    have "i \<in> members main_shape" "j \<in> members main_shape" using that unfolding assms(3) by blast+
    then show ?thesis using layout_okD(2) [OF assms(1)] own [OF that(1)] own [OF that(2)] by simp
  qed
  moreover have "finite X" by (simp add: assms(3) main_shape_def)
  ultimately have "card X \<le> Suc 0" by (simp add: card_le_Suc0_iff_eq)
  then show ?thesis using own by simp
qed

theorem one_inside_witness:
  "\<exists>st. app_reachable board st \<and>
     card {i \<in> members main_shape. inside (pc st i) \<and> cont (kern st) (task board i) \<noteq> Some (KMutexTryLock (mutex_at board))} \<le> 1"
proof -
  obtain st where st: "app_reachable board st" by (rule board_starts)
  from one_inside [OF board_ok st refl] st show ?thesis by blast
qed

section \<open>Points, memory, progress\<close>

text \<open>
  C7. Every task stays in its own function and in its own memory: its point is one of its
  function, its stack begins where its memory does, the queue keeps its buffer, the size and the
  number of its messages, and a task waits for nothing but the mutex (only \<open>task02\<close> and
  \<open>task03\<close>) or the queue (only \<open>task03\<close> and \<open>task04\<close>, each with the address of its own \<open>number\<close>).
\<close>

theorem tasks_well_formed:
  assumes "layout_ok main_shape L" and "app_reachable L st"
  shows "(\<forall>i \<in> members main_shape. pc st i \<in> program i \<and> stack (tasks (kern st) (task L i)) = memory_of L i) \<and>
    (let q = queues (kern st) (queue_at L) in buffer q = queueMemory_at L \<and> itemSize q = 2 \<and> q_length q = 3) \<and>
    (\<forall>t m. waitList (tasks (kern st) t) = Some (MutexHead m) \<longrightarrow> m = mutex_at L \<and> (\<exists>i \<in> {2, 3}. t = task L i)) \<and>
    (\<forall>t q. waitList (tasks (kern st) t) = Some (QueueHead q) \<longrightarrow>
       (\<exists>i \<in> {3, 4}. t = task L i \<and> wait (tasks (kern st) t) = message_at L i))"
proof -
  note inv = app_reachable_inv [OF assms, unfolded app_inv_def]
  note pi = main.invD [OF conjunct1 [OF inv]]
  have "\<exists>i \<in> {2, 3}. t = task L i" if w: "waitList (tasks (kern st) t) = Some (MutexHead m)" for t m
  proof -
    obtain i where i: "i \<in> members main_shape" "t = task L i" "pc st i = LoadA" using locks_invD(1) [OF pi(5) w] by blast
    have "pc st i \<in> program i" using inv i(1) by blast
    then have "i = 2 \<or> i = 3" unfolding i(3) by (simp add: program_def split: if_split_asm)
    then show ?thesis using i(2) by blast
  qed
  then have "waitList (tasks (kern st) t) = Some (MutexHead m) \<longrightarrow> m = mutex_at L \<and> (\<exists>i \<in> {2, 3}. t = task L i)" for t m
    using locks_invD(1) [OF pi(5)] by blast
  moreover have "members main_shape \<inter> rooms main_shape = {3, 4}" by (auto simp: main_shape_def)
  then have "waitList (tasks (kern st) t) = Some (QueueHead q) \<longrightarrow>
      (\<exists>i \<in> {3, 4}. t = task L i \<and> wait (tasks (kern st) t) = message_at L i)" for t q
    using pi(4) unfolding queue_waits_def by simp
  moreover have "let q = queues (kern st) (queue_at L) in buffer q = queueMemory_at L \<and> itemSize q = 2 \<and> q_length q = 3"
    using pi(3) by (simp add: arranged_def main_shape_def)
  moreover have "\<forall>i \<in> members main_shape. pc st i \<in> program i \<and> stack (tasks (kern st) (task L i)) = memory_of L i"
    using inv pi(3) by (simp add: arranged_def)
  ultimately show ?thesis by blast
qed

theorem tasks_well_formed_witness:
  "\<exists>st. app_reachable board st \<and> pc st 3 \<in> program 3 \<and> stack (tasks (kern st) (task board 3)) = 0x500"
proof -
  obtain st where st: "app_reachable board st" by (rule board_starts)
  moreover have "memory_of board 3 = 0x500" "3 \<in> members main_shape" by (simp_all add: board_def main_shape_def)
  ultimately show ?thesis using tasks_well_formed [OF board_ok st] by auto
qed

text \<open>
  C8. The application never gets stuck: the kernel's invariant holds, no task that is ready is
  more important than the running one, and the running task, if it is in its own code, goes on to
  the next point of its function (its kernel call returns or switches), otherwise comes back from
  the call it is in; the idle task can be interrupted by the tick.
\<close>

theorem application_goes_on:
  assumes "layout_ok main_shape L" and "app_reachable L st"
  shows "system_ok (tasks_of main_shape L) (kern st) \<and> top_runs (tasks_of main_shape L) (kern st) \<and>
    (\<exists>k. app_step L st (st\<lparr>kern := k\<rparr>)) \<and>
    (\<forall>i. runs main_shape L (kern st) i \<longrightarrow> (\<exists>st'. app_step L st st' \<and> pc st' i = flow i (pc st i)))"
proof -
  note inv = app_reachable_inv [OF assms]
  then have pi: "program_inv main_shape inside LoadA L (kern st) (pc st)" by (simp add: app_inv_def)
  then show ?thesis using app_goes_on [OF inv] main.invD(6) [OF pi] main.top [OF pi] by blast
qed

theorem application_goes_on_witness:
  "\<exists>st st'. app_reachable board st \<and> system_ok (tasks_of main_shape board) (kern st) \<and> app_step board st st'"
proof -
  obtain st where st: "app_reachable board st" by (rule board_starts)
  from application_goes_on [OF board_ok st] st show ?thesis
    by (auto simp: Let_def split: if_split_asm)
qed

end
