(* ===== verification/Uart.thy ===== *)
theory Uart
  imports Lock_Client
begin

text \<open>
  \<^verbatim>\<open>examples/uart.c\<close>: an interrupt handler passes the bytes of the serial port to a task that sends
  them back line by line, another task prints the time, and a mutex keeps the lines in one piece.
\<close>

section \<open>Lines\<close>

abbreviation bytes :: "string \<Rightarrow> u8 list" where
  "bytes \<equiv> map of_char"

abbreviation (input) CR :: u8 where
  "CR \<equiv> 13"

abbreviation (input) LF :: u8 where
  "LF \<equiv> 10"

text \<open>An access outside of an array is \<open>None\<close>.\<close>

definition put_at :: "u8 \<Rightarrow> u8 \<Rightarrow> u8 list \<Rightarrow> u8 list option" where
  "put_at n b xs = (if unat n < length xs then Some (xs[unat n := b]) else None)"

definition get_at :: "nat \<Rightarrow> u8 list \<Rightarrow> u8 option" where
  "get_at n xs = (if n < length xs then Some (xs ! n) else None)"

text \<open>The array and \<open>length\<close> of \<open>echo\<close> when it starts.\<close>

definition echo_line :: "u8 list" where
  "echo_line = bytes ''echo: '' @ replicate 42 0"

definition sizeof_line :: nat where
  "sizeof_line = 48"

text \<open>What \<open>echo\<close> makes of a byte: the array, \<open>length\<close>, and whether the line is to be printed.\<close>

definition echo_byte :: "u8 \<Rightarrow> u8 list \<Rightarrow> u8 \<Rightarrow> (u8 list \<times> u8 \<times> bool) option" where
  "echo_byte byte line len =
     (if byte \<noteq> CR \<and> byte \<noteq> LF \<and> unat len < sizeof_line - 3 then do {
        line \<leftarrow> put_at len byte line;
        Some (line, len + 1, False)
      } else do {
        line \<leftarrow> put_at len CR line;
        let len = len + 1;
        line \<leftarrow> put_at len LF line;
        let len = len + 1;
        line \<leftarrow> put_at len 0 line;
        Some (line, len, True)
      })"

text \<open>The loop of \<open>clock\<close> that writes the digits, and the whole line.\<close>

fun clock_loop :: "nat \<Rightarrow> u16 \<Rightarrow> u8 list \<Rightarrow> u8 list" where
  "clock_loop i val line =
     (if 8 \<le> i then clock_loop (i - 1) (val div 10) (line[i := 0x30 + ucast (val mod 10)]) else line)"

declare clock_loop.simps [simp del]

definition clock_line :: "u16 \<Rightarrow> u8 list" where
  "clock_line seconds = clock_loop 12 seconds (bytes ''uptime: 00000 s'' @ [CR, LF, 0])"

section \<open>The tasks\<close>

text \<open>
  The points of \<open>echo\<close> (1) and \<open>clock\<close> (2) where something else may come in between: kernel calls
  and what \<open>print\<close> does with the port.
\<close>

datatype upoint =
    GetByte | TakeByte | NewLine
  | ReadWake | NextSecond | Count
  | LockOutput | NextByte | Poll | PutByte | UnlockOutput

text \<open>The registers of the port.\<close>

record uart_regs =
  UBRR0H :: u8
  UBRR0L :: u8
  UCSR0A :: u8
  UCSR0B :: u8
  UCSR0C :: u8

text \<open>\<open>UBRRH_VALUE\<close>, \<open>UBRRL_VALUE\<close> and \<open>USE_2X\<close> are those of \<^verbatim>\<open>util/setbaud.h\<close>.\<close>

definition uartInit :: "u8 \<Rightarrow> u8 \<Rightarrow> bool \<Rightarrow> uart_regs \<Rightarrow> uart_regs" where
  "uartInit ubrrh ubrrl use_2x r =
     (let r = r\<lparr>UBRR0H := ubrrh\<rparr>; r = r\<lparr>UBRR0L := ubrrl\<rparr>;
          r = (if use_2x then r\<lparr>UCSR0A := UCSR0A r OR 0x02\<rparr> else r);
          r = r\<lparr>UCSR0C := 0x04 OR 0x02\<rparr>
      in r\<lparr>UCSR0B := 0x10 OR 0x08 OR 0x80\<rparr>)"

text \<open>
  The state: the kernel, the registers, the variables of the tasks, for each task how far \<open>print\<close>
  has got with its line, what has been written to \<open>UDR0\<close>, and the points.
\<close>

record uart =
  ukern :: kernel
  regs :: uart_regs
  lines :: "nat \<Rightarrow> u8 list"
  ulength :: u8
  uwake :: u16
  seconds :: u16
  chars :: "nat \<Rightarrow> nat"
  sent :: "u8 list"
  upc :: "nat \<Rightarrow> upoint"

definition goto :: "nat \<Rightarrow> upoint \<Rightarrow> uart \<Rightarrow> uart" where
  "goto i p st = st\<lparr>upc := (upc st)(i := p)\<rparr>"

text \<open>\<open>print\<close> begins with its argument, the line of the task.\<close>

definition print :: "nat \<Rightarrow> uart \<Rightarrow> uart" where
  "print i st = goto i LockOutput (st\<lparr>chars := (chars st)(i := 0)\<rparr>)"

fun ukernel_action :: "layout \<Rightarrow> nat \<Rightarrow> uart \<Rightarrow> upoint \<Rightarrow> action option" where
  "ukernel_action L i st GetByte = Some (Call (CReceive (queue_at L) (message_at L i) OS_WAIT_FOREVER))"
| "ukernel_action L i st NextSecond = Some (Call (CDelayUntil (uwake st) (OS_MS 1000)))"
| "ukernel_action L i st LockOutput = Some (Call (CTryLock (mutex_at L) OS_WAIT_FOREVER))"
| "ukernel_action L i st UnlockOutput = Some (Call (CUnlock (mutex_at L)))"
| "ukernel_action L i st p = None"

text \<open>
  What a task does to the variables at a point, and where it goes on; \<open>ready\<close> is what it finds in
  \<open>UDRE0\<close>.
\<close>

fun echo :: "layout \<Rightarrow> upoint \<Rightarrow> uart \<Rightarrow> uart option" where
  "echo L GetByte st = Some (goto 1 TakeByte st)"
| "echo L TakeByte st = do {
     (line, len, full) \<leftarrow> echo_byte (ram (ukern st) (message_at L 1)) (lines st 1) (ulength st);
     let st = st\<lparr>lines := (lines st)(1 := line), ulength := len\<rparr>;
     Some (if full then print 1 st else goto 1 GetByte st)
   }"
| "echo L p st = Some (goto 1 GetByte (st\<lparr>ulength := 6\<rparr>))"

fun clock :: "layout \<Rightarrow> upoint \<Rightarrow> uart \<Rightarrow> uart option" where
  "clock L ReadWake st = Some (goto 2 NextSecond (st\<lparr>uwake := osTickCount (ukern st)\<rparr>))"
| "clock L NextSecond st = Some (goto 2 Count (st\<lparr>uwake := fst (osDelayUntil (uwake st) (OS_MS 1000) (ukern st))\<rparr>))"
| "clock L p st =
     (let st = st\<lparr>seconds := seconds st + 1\<rparr>
      in Some (print 2 (st\<lparr>lines := (lines st)(2 := clock_line (seconds st))\<rparr>)))"

fun printing :: "upoint \<Rightarrow> bool" where
  "printing LockOutput = True"
| "printing NextByte = True"
| "printing Poll = True"
| "printing PutByte = True"
| "printing UnlockOutput = True"
| "printing p = False"

fun uartWrite :: "bool \<Rightarrow> nat \<Rightarrow> upoint \<Rightarrow> uart \<Rightarrow> uart option" where
  "uartWrite ready i PutByte st = do {
     byte \<leftarrow> get_at (chars st i) (lines st i);
     Some (goto i NextByte (st\<lparr>sent := sent st @ [byte], chars := (chars st)(i := chars st i + 1)\<rparr>))
   }"
| "uartWrite ready i p st = Some (goto i (if ready then PutByte else Poll) st)"

fun print_step :: "bool \<Rightarrow> nat \<Rightarrow> upoint \<Rightarrow> uart \<Rightarrow> uart option" where
  "print_step ready i LockOutput st = Some (goto i NextByte st)"
| "print_step ready i NextByte st = do {
     byte \<leftarrow> get_at (chars st i) (lines st i);
     Some (goto i (if byte \<noteq> 0 then Poll else UnlockOutput) st)
   }"
| "print_step ready i UnlockOutput st = Some (goto i (if i = 1 then NewLine else NextSecond) st)"
| "print_step ready i p st = uartWrite ready i p st"

definition uvariables :: "layout \<Rightarrow> bool \<Rightarrow> nat \<Rightarrow> uart \<Rightarrow> uart option" where
  "uvariables L ready i st =
     (if printing (upc st i) then print_step ready i (upc st i) st
      else if i = 1 then echo L (upc st i) st else clock L (upc st i) st)"

section \<open>Every step\<close>

text \<open>
  The byte of \<open>echo\<close> is message 1. The handler has its \<open>byte\<close> on the stack it finds: on that of the
  idle task it is message 10, on that of task \<open>i\<close> message \<open>10 + i\<close>.
\<close>

definition uart_shape :: shape where
  "uart_shape = \<lparr>members = {1, 2}, rooms = {1, 10, 11, 12}, item_size = 1, item_count = 32\<rparr>"

definition handler_message :: "layout \<Rightarrow> kernel \<Rightarrow> nat" where
  "handler_message L k =
     (if osCurrentTask k = task L 1 then 11 else if osCurrentTask k = task L 2 then 12 else 10)"

definition uart_main :: "layout \<Rightarrow> kernel \<Rightarrow> res" where
  "uart_main L s = do {
     let s = osInit (heap_start L) (spr L) s;
     let s = osQueueInit (queue_at L) (queueMemory_at L) 1 32 s;
     (_, s) \<leftarrow> osTaskCreate (linker L) (entry_of L 1) 0 (Some (memory_of L 1)) sizeof_memory 2 s;
     (_, s) \<leftarrow> osTaskCreate (linker L) (entry_of L 2) 0 (Some (memory_of L 2)) sizeof_memory 1 s;
     osRun s
   }"

definition ustarted :: "uart_regs \<Rightarrow> kernel \<Rightarrow> uart" where
  "ustarted r k = \<lparr>ukern = k, regs = r, lines = (\<lambda>_. [])(1 := echo_line), ulength = 6, uwake = 0, seconds = 0,
     chars = (\<lambda>_. 0), sent = [], upc = (\<lambda>i. if i = 1 then GetByte else ReadWake)\<rparr>"

text \<open>
  The task that has the processor does what is at its point, a task goes on with a call, the tick
  comes, or the port has received a byte, once its interrupt is enabled.
\<close>

inductive uart_step :: "layout \<Rightarrow> uart \<Rightarrow> uart \<Rightarrow> bool" for L where
  uart_task: "runs uart_shape L (ukern st) i \<Longrightarrow>
    (case ukernel_action L i st (upc st i) of
       None \<Rightarrow> k = ukern st | Some a \<Rightarrow> step no_timer (tasks_of uart_shape L) a (ukern st) k) \<Longrightarrow>
    uvariables L ready i st = Some st' \<Longrightarrow>
    uart_step L st (st'\<lparr>ukern := k\<rparr>)"
| uart_kernel: "a = Back \<or> a = Tick \<Longrightarrow> step no_timer (tasks_of uart_shape L) a (ukern st) k \<Longrightarrow>
    uart_step L st (st\<lparr>ukern := k\<rparr>)"
| USART0_RX: "UCSR0B (regs st) AND 0x80 \<noteq> 0 \<Longrightarrow> item = message_at L (handler_message L (ukern st)) \<Longrightarrow>
    step no_timer (tasks_of uart_shape L) (Write item [byte]) (ukern st) k1 \<Longrightarrow>
    step no_timer (tasks_of uart_shape L) (Interrupt [IQueueSend (queue_at L) item]) k1 k2 \<Longrightarrow>
    uart_step L st (st\<lparr>ukern := k2\<rparr>)"

inductive uart_reachable :: "layout \<Rightarrow> uart \<Rightarrow> bool" for L where
  uart_start: "power_on s \<Longrightarrow> osIdleTask s = idle_at L \<Longrightarrow> uart_main L s = Some (r, k) \<Longrightarrow>
    uart_reachable L (ustarted (uartInit ubrrh ubrrl use_2x regs0) k)"
| uart_next: "uart_reachable L st \<Longrightarrow> uart_step L st st' \<Longrightarrow> uart_reachable L st'"

section \<open>Up to \<open>osRun\<close>\<close>

lemma uart_starts:
  assumes L: "layout_ok uart_shape L" and on: "power_on s" "osIdleTask s = idle_at L"
  obtains r k where "uart_main L s = Some (r, k)" and "reachable fire Q (tasks_of uart_shape L) k"
    and "arranged uart_shape L (members uart_shape) k" and "no_waits k" and "plain k"
proof -
  note [simp] = uart_shape_def
  let ?s1 = "osQueueInit (queue_at L) (queueMemory_at L) 1 32 (osInit (heap_start L) (spr L) s)"
  have s1: "built uart_shape L {} ?s1" using built_init [OF L on] by simp
  obtain r2 s2 where s2: "osTaskCreate (linker L) (entry_of L 1) 0 (Some (memory_of L 1)) sizeof_memory 2 ?s1 = Some (r2, s2)"
      "built uart_shape L {1} s2"
    by (rule built_create [OF L s1, where i = 1 and p = 2]) auto
  obtain r3 s3 where s3: "osTaskCreate (linker L) (entry_of L 2) 0 (Some (memory_of L 2)) sizeof_memory 1 s2 = Some (r3, s3)"
      "built uart_shape L {2, 1} s3"
    by (rule built_create [OF L s2(2), where i = 2 and p = 1]) auto
  have "{2, 1} = members uart_shape" by auto
  then have b: "built uart_shape L (members uart_shape) s3" using s3(2) by simp
  obtain r k where k: "osRun s3 = Some (r, k)" "reachable fire Q (tasks_of uart_shape L) k"
      "arranged uart_shape L (members uart_shape) k" "no_waits k" "plain k"
    by (rule built_run [OF b])
  have "uart_main L s = Some (r, k)" by (simp add: uart_main_def s2(1) s3(1) k(1) Let_def del: One_nat_def)
  then show ?thesis using that k(2-5) by blast
qed

end
