(* ===== verification/Uart_Lines.thy ===== *)
theory Uart_Lines
  imports Uart
begin

text \<open>
  What \<open>echo\<close> and \<open>clock\<close> print, and what has been printed at any time: the data of \<^verbatim>\<open>uart.c\<close>, for
  any task that has the mutex.
\<close>

section \<open>The lines of \<open>echo\<close>\<close>

text \<open>What \<open>print\<close> makes of an array: it stops at the first zero.\<close>

definition body :: "u8 list \<Rightarrow> u8 list" where
  "body line = takeWhile (\<lambda>b. b \<noteq> 0) line"

text \<open>The bytes of the line so far.\<close>

definition collected :: "u8 list \<Rightarrow> u8 \<Rightarrow> u8 list" where
  "collected line len = drop 6 (take (unat len) line)"

text \<open>The array between two bytes.\<close>

definition collecting :: "u8 list \<Rightarrow> u8 \<Rightarrow> bool" where
  "collecting line len \<longleftrightarrow>
     length line = sizeof_line \<and> take 6 line = bytes ''echo: '' \<and> 6 \<le> unat len \<and> unat len \<le> 45 \<and>
     CR \<notin> set (collected line len) \<and> LF \<notin> set (collected line len)"

lemma echo_start: "collecting echo_line 6"
  by (simp add: collecting_def echo_line_def sizeof_line_def collected_def)

lemma collected_length: "collecting line len \<Longrightarrow> length (collected line len) = unat len - 6"
  by (simp add: collecting_def collected_def sizeof_line_def)

lemma collected_line:
  assumes "collecting line len"
  shows "take (unat len) line = bytes ''echo: '' @ collected line len"
proof -
  have "take (unat len) line = take 6 (take (unat len) line) @ drop 6 (take (unat len) line)" by (rule append_take_drop_id [symmetric])
  also have "take 6 (take (unat len) line) = take 6 line" using assms by (simp add: collecting_def min_def)
  finally show ?thesis using assms by (simp add: collecting_def collected_def)
qed

text \<open>A byte of a line is stored behind the others; a line end, or a byte there is no room for, ends the line.\<close>

lemma echo_byte_store:
  assumes c: "collecting line len" and b: "byte \<noteq> CR" "byte \<noteq> LF" "length (collected line len) < 39"
  shows "\<exists>line'. echo_byte byte line len = Some (line', len + 1, False) \<and> collecting line' (len + 1) \<and>
    collected line' (len + 1) = collected line len @ [byte]"
proof -
  have n: "6 \<le> unat len" "unat len < 45" "length line = 48" "take 6 line = bytes ''echo: ''"
    using c b(3) collected_length [OF c] by (simp_all add: collecting_def sizeof_line_def)
  have len': "unat (len + 1) = Suc (unat len)" using n(2) by (simp add: unat_word_ariths)
  let ?l = "line[unat len := byte]"
  have "take (Suc (unat len)) ?l = take (unat len) line @ [byte]"
    using n by (simp add: take_Suc_conv_app_nth)
  then have col: "collected ?l (len + 1) = collected line len @ [byte]"
    using n(1,3) unfolding collected_def len' by simp
  moreover have "take 6 ?l = take 6 line" using n(1) by (simp add: take_update_cancel)
  ultimately have "collecting ?l (len + 1)"
    using c n b(1,2) unfolding collecting_def len' by (simp add: sizeof_line_def)
  moreover have "echo_byte byte line len = Some (?l, len + 1, False)"
    using b n by (simp add: echo_byte_def put_at_def sizeof_line_def)
  ultimately show ?thesis using col by blast
qed

lemma echo_byte_end:
  assumes c: "collecting line len" and b: "byte = CR \<or> byte = LF \<or> length (collected line len) = 39"
  shows "\<exists>line' len'. echo_byte byte line len = Some (line', len', True) \<and> length line' = sizeof_line \<and>
    take 6 line' = bytes ''echo: '' \<and> 0 \<in> set line' \<and>
    body line' = body (bytes ''echo: '' @ collected line len @ [CR, LF])"
proof -
  have n: "6 \<le> unat len" "unat len \<le> 45" "length line = 48" "take 6 line = bytes ''echo: ''"
    using c by (simp_all add: collecting_def sizeof_line_def)
  have len': "unat (len + 1) = Suc (unat len)" "unat (len + 1 + 1) = Suc (Suc (unat len))"
    using n(2) by (simp_all add: unat_word_ariths)
  let ?n = "unat len"
  let ?l = "line[?n := CR, Suc ?n := LF, Suc (Suc ?n) := 0]"
  have "take (Suc (Suc (Suc ?n))) ?l = take ?n line @ [CR, LF, 0]"
    using n by (simp add: take_Suc_conv_app_nth nth_list_update)
  then have l: "?l = (bytes ''echo: '' @ collected line len @ [CR, LF]) @ 0 # drop (Suc (Suc (Suc ?n))) ?l"
    using append_take_drop_id [of "Suc (Suc (Suc ?n))" ?l] unfolding collected_line [OF c] by simp
  have "body ?l = body (bytes ''echo: '' @ collected line len @ [CR, LF])"
    unfolding body_def by (subst l) (rule takeWhile_tail, simp)
  moreover have "0 \<in> set ?l" by (subst l) simp
  moreover have "take 6 ?l = take 6 line" using n(1) by (simp add: take_update_cancel)
  moreover have "echo_byte byte line len = Some (?l, len + 1 + 1, True)"
  proof -
    have "\<not> (byte \<noteq> CR \<and> byte \<noteq> LF \<and> ?n < sizeof_line - 3)"
      using b collected_length [OF c] by (auto simp: sizeof_line_def)
    then show ?thesis using n len' by (simp add: echo_byte_def put_at_def Let_def)
  qed
  ultimately show ?thesis using n(3,4) by (auto simp: sizeof_line_def)
qed

text \<open>What may be sent back for a line.\<close>

definition is_echo :: "u8 list \<Rightarrow> bool" where
  "is_echo l \<longleftrightarrow> (\<exists>bs. length bs \<le> 39 \<and> CR \<notin> set bs \<and> LF \<notin> set bs \<and> l = body (bytes ''echo: '' @ bs @ [CR, LF]))"

lemma echo_byte_ok:
  assumes c: "collecting line len"
  shows "\<exists>line' len' full. echo_byte byte line len = Some (line', len', full) \<and>
    (if full then length line' = sizeof_line \<and> take 6 line' = bytes ''echo: '' \<and> 0 \<in> set line' \<and> is_echo (body line')
     else collecting line' len')"
proof (cases "byte = CR \<or> byte = LF \<or> length (collected line len) = 39")
  case True
  obtain line' len' where l: "echo_byte byte line len = Some (line', len', True)" "length line' = sizeof_line"
      "take 6 line' = bytes ''echo: ''" "0 \<in> set line'" "body line' = body (bytes ''echo: '' @ collected line len @ [CR, LF])"
    using echo_byte_end [OF c True] by blast
  have "length (collected line len) \<le> 39" "CR \<notin> set (collected line len)" "LF \<notin> set (collected line len)"
    using c collected_length [OF c] by (auto simp: collecting_def)
  then have "is_echo (body line')" unfolding is_echo_def l(5) by blast
  then show ?thesis using l by auto
next
  case False
  then have "length (collected line len) < 39" using c collected_length [OF c] by (auto simp: collecting_def)
  then show ?thesis using echo_byte_store [OF c, of byte] False by auto
qed

section \<open>The lines of \<open>clock\<close>\<close>

lemma clock_line_digits:
  "clock_line n = bytes ''uptime: '' @ map (\<lambda>i. 0x30 + ucast (n div 10 ^ i mod 10)) [4, 3, 2, 1, 0] @ bytes '' s'' @ [CR, LF, 0]"
  (is "_ = ?r")
proof -
  have div: "n div 10 div 10 = n div 100" "n div 100 div 10 = n div 1000" "n div 1000 div 10 = n div 10000"
    by (simp_all add: word_uint_eq_iff uint_div_distrib zdiv_zmult2_eq [symmetric])
  have "clock_line n = bytes ''uptime: '' @
      [0x30 + ucast (n div 10000 mod 10), 0x30 + ucast (n div 1000 mod 10), 0x30 + ucast (n div 100 mod 10),
       0x30 + ucast (n div 10 mod 10), 0x30 + ucast (n mod 10)] @ bytes '' s'' @ [CR, LF, 0]"
    unfolding clock_line_def
    by (simp add: clock_loop.simps [of 12] clock_loop.simps [of 11] clock_loop.simps [of 10] clock_loop.simps [of 9]
        clock_loop.simps [of 8] clock_loop.simps [of 7] div)
  then show ?thesis by simp
qed

lemma digit_unat: "unat (0x30 + ucast (n mod 10) :: u8) = 48 + unat n mod 10" for n :: u16
proof -
  have m: "unat (n mod 10) = unat n mod 10" by (simp add: unat_mod_distrib)
  then have "unat (n mod 10) < 10" by simp
  then have "unat (ucast (n mod 10) :: u8) = unat n mod 10"
    using m by (simp add: unsigned_ucast_eq take_bit_nat_eq_self)
  then show ?thesis by (simp add: unat_word_ariths)
qed

lemma digit_not_zero: "(0x30 + ucast (n mod 10) :: u8) \<noteq> 0" for n :: u16
  using digit_unat [of n] by (metis add_is_0 unsigned_0 zero_neq_numeral)

lemma body_clock_line: "body (clock_line n) = take 17 (clock_line n)" and clock_line_zero: "0 \<in> set (clock_line n)"
  by (simp_all add: clock_line_digits body_def digit_not_zero)

section \<open>What has been printed\<close>

text \<open>
  The lines with the tasks that have printed them: those of \<open>clock\<close> are the seconds from 1 to \<open>n\<close>,
  none left out, in order.
\<close>

definition printed :: "(nat \<times> u8 list) list \<Rightarrow> nat \<Rightarrow> bool" where
  "printed ls n \<longleftrightarrow>
     (\<forall>(i, l) \<in> set ls. i = 1 \<and> is_echo l \<or> i = 2) \<and>
     map snd (filter (\<lambda>(i, l). i = 2) ls) = map (\<lambda>k. take 17 (clock_line (of_nat k))) [1..<Suc n]"

lemma printed_echo: "printed ls n \<Longrightarrow> is_echo l \<Longrightarrow> printed (ls @ [(1, l)]) n"
  by (auto simp: printed_def)

lemma printed_clock: "printed ls n \<Longrightarrow> printed (ls @ [(2, take 17 (clock_line (of_nat (Suc n))))]) (Suc n)"
  by (auto simp: printed_def simp del: of_nat_Suc)

text \<open>How far the line of the task that has the mutex has been sent; \<open>h\<close> is the number of the task.\<close>

definition part :: "nat option \<Rightarrow> uart \<Rightarrow> u8 list" where
  "part h st = (case h of None \<Rightarrow> [] | Some i \<Rightarrow> take (chars st i) (lines st i))"

definition text_ok :: "bool \<Rightarrow> u8 list \<Rightarrow> nat \<Rightarrow> upoint \<Rightarrow> bool" where
  "text_ok own line n p \<longleftrightarrow> (printing p \<longrightarrow>
     0 \<in> set line \<and> n \<le> length (body line) \<and> (p = LockOutput \<or> p = NextByte \<and> \<not> own \<longrightarrow> n = 0) \<and>
     (p = Poll \<or> p = PutByte \<longrightarrow> n < length (body line)) \<and> (p = UnlockOutput \<longrightarrow> n = length (body line)))"

definition echo_ok :: "u8 list \<Rightarrow> u8 \<Rightarrow> upoint \<Rightarrow> bool" where
  "echo_ok line len p \<longleftrightarrow> length line = sizeof_line \<and> take 6 line = bytes ''echo: '' \<and>
     (p = GetByte \<or> p = TakeByte \<longrightarrow> collecting line len) \<and> (printing p \<longrightarrow> is_echo (body line)) \<and>
     (printing p \<or> p \<in> {GetByte, TakeByte, NewLine})"

definition clock_ok :: "nat \<Rightarrow> u16 \<Rightarrow> u8 list \<Rightarrow> upoint \<Rightarrow> bool" where
  "clock_ok n secs line p \<longleftrightarrow>
     (if printing p then secs = of_nat (Suc n) \<and> line = clock_line secs
      else secs = of_nat n \<and> p \<in> {ReadWake, NextSecond, Count})"

definition data_ok :: "nat option \<Rightarrow> uart \<Rightarrow> bool" where
  "data_ok h st \<longleftrightarrow>
     echo_ok (lines st 1) (ulength st) (upc st 1) \<and>
     (\<forall>i \<in> {1, 2}. text_ok (h = Some i) (lines st i) (chars st i) (upc st i)) \<and>
     (\<exists>ls n. sent st = concat (map snd ls) @ part h st \<and> printed ls n \<and> clock_ok n (seconds st) (lines st 2) (upc st 2))"

text \<open>The byte at which \<open>print\<close> is.\<close>

lemma body_nth: "n < length (body line) \<Longrightarrow> line ! n = body line ! n \<and> line ! n \<noteq> 0"
proof -
  assume n: "n < length (body line)"
  then have "body line ! n = line ! n" unfolding body_def by (rule takeWhile_nth)
  moreover have "body line ! n \<in> set (body line)" by (rule nth_mem [OF n])
  moreover have "0 \<notin> set (body line)" by (auto simp: body_def dest: set_takeWhileD)
  ultimately show ?thesis by metis
qed

lemma body_at_end: "0 \<in> set line \<Longrightarrow> length (body line) < length line \<and> line ! length (body line) = 0"
proof -
  assume "0 \<in> set line"
  then have "length (body line) < length line"
    unfolding body_def by (induction line) auto
  moreover from this have "line ! length (body line) = 0"
    unfolding body_def using nth_length_takeWhile [of "\<lambda>b. b \<noteq> 0" line] by simp
  ultimately show ?thesis ..
qed

lemma get_at_text:
  assumes "0 \<in> set line" and "n \<le> length (body line)"
  shows "get_at n line = Some (line ! n)" and "line ! n = 0 \<longleftrightarrow> n = length (body line)"
  using body_at_end [OF assms(1)] body_nth [of n line] assms(2) by (auto simp: get_at_def le_less)

text \<open>\<open>print\<close> between lock and unlock, and not.\<close>

fun uinside :: "upoint \<Rightarrow> bool" where
  "uinside NextByte = True"
| "uinside Poll = True"
| "uinside PutByte = True"
| "uinside UnlockOutput = True"
| "uinside p = False"

lemma inside_printing: "uinside p \<Longrightarrow> printing p"
  by (cases p) simp_all

end
