(* ===== verification/Uart_Inv.thy ===== *)
theory Uart_Inv
  imports Uart_Lines
begin

text \<open>
  The invariant of \<^verbatim>\<open>uart.c\<close>: the lines come out in one piece, whatever interrupts the tasks.
\<close>

section \<open>The variables\<close>

lemma data_okD:
  assumes "data_ok h st"
  shows "echo_ok (lines st 1) (ulength st) (upc st 1)"
    and "i = 1 \<or> i = 2 \<Longrightarrow> text_ok (h = Some i) (lines st i) (chars st i) (upc st i)"
    and "\<exists>ls n. sent st = concat (map snd ls) @ part h st \<and> printed ls n \<and> clock_ok n (seconds st) (lines st 2) (upc st 2)"
  using assms unfolding data_ok_def by auto

text \<open>While a task is in \<open>print\<close> it only counts that it is there.\<close>

lemma echo_ok_printing: "printing p \<Longrightarrow> printing q \<Longrightarrow> echo_ok line len q = echo_ok line len p"
  by (cases p; cases q) (simp_all add: echo_ok_def)

lemma clock_ok_printing: "printing p \<Longrightarrow> printing q \<Longrightarrow> clock_ok n secs line q = clock_ok n secs line p"
  by (simp add: clock_ok_def)

text \<open>A task goes on with its line.\<close>

lemma data_send:
  assumes d: "data_ok (Some i) st" and i: "i = 1 \<or> i = 2" and p: "printing (upc st i)" "printing q"
    and t: "text_ok True (lines st i) n q" and bs: "take n (lines st i) = take (chars st i) (lines st i) @ bs"
  shows "data_ok (Some i) (goto i q (st\<lparr>sent := sent st @ bs, chars := (chars st)(i := n)\<rparr>))"
proof -
  let ?st = "goto i q (st\<lparr>sent := sent st @ bs, chars := (chars st)(i := n)\<rparr>)"
  note d = data_okD [OF d]
  have st: "lines ?st = lines st" "ulength ?st = ulength st" "seconds ?st = seconds st" "upc ?st = (upc st)(i := q)"
      "chars ?st = (chars st)(i := n)" "sent ?st = sent st @ bs"
    by (simp_all add: goto_def)
  have "echo_ok (lines ?st 1) (ulength ?st) (upc ?st 1)"
    using d(1) echo_ok_printing [OF p] unfolding st by (cases "i = 1") auto
  moreover have "\<forall>j \<in> {1, 2}. text_ok (Some i = Some j) (lines ?st j) (chars ?st j) (upc ?st j)"
  proof
    fix j :: nat assume j: "j \<in> {1, 2}"
    show "text_ok (Some i = Some j) (lines ?st j) (chars ?st j) (upc ?st j)"
      using d(2) [of j] t j unfolding st by (cases "j = i") auto
  qed
  moreover obtain ls k where ls: "sent st = concat (map snd ls) @ part (Some i) st" "printed ls k"
      "clock_ok k (seconds st) (lines st 2) (upc st 2)"
    using d(3) by blast
  have "part (Some i) ?st = part (Some i) st @ bs" using bs unfolding part_def st by simp
  then have "sent ?st = concat (map snd ls) @ part (Some i) ?st" unfolding st using ls(1) by simp
  moreover have "clock_ok k (seconds ?st) (lines ?st 2) (upc ?st 2)"
    using ls(3) clock_ok_printing [OF p] unfolding st by (cases "i = 2") auto
  ultimately show ?thesis using ls(2) unfolding data_ok_def by blast
qed

lemma data_print:
  assumes d: "data_ok (Some i) st" and i: "i = 1 \<or> i = 2" and p: "uinside (upc st i)" "upc st i \<noteq> UnlockOutput"
  obtains q n bs where "uvariables L ready i st = Some (goto i q (st\<lparr>sent := sent st @ bs, chars := (chars st)(i := n)\<rparr>))"
    and "uinside q" and "data_ok (Some i) (goto i q (st\<lparr>sent := sent st @ bs, chars := (chars st)(i := n)\<rparr>))"
proof -
  let ?l = "lines st i" and ?n = "chars st i"
  have t: "text_ok True ?l ?n (upc st i)" using data_okD(2) [OF d i] by simp
  note pr = inside_printing [OF p(1)]
  have zero: "0 \<in> set ?l" "?n \<le> length (body ?l)" using t pr by (simp_all add: text_ok_def)
  note at = get_at_text [OF zero]
  consider "upc st i = NextByte" | "upc st i = Poll" | "upc st i = PutByte" using p by (cases "upc st i") auto
  then show ?thesis
  proof cases
    case 1
    let ?q = "if ?l ! ?n \<noteq> 0 then Poll else UnlockOutput"
    have "uvariables L ready i st = Some (goto i ?q st)" by (simp add: uvariables_def 1 at(1))
    moreover have "text_ok True ?l ?n ?q" using zero at(2) by (auto simp: text_ok_def)
    then have "data_ok (Some i) (goto i ?q (st\<lparr>sent := sent st @ [], chars := (chars st)(i := ?n)\<rparr>))"
      by (intro data_send [OF d i pr]) simp_all
    ultimately show ?thesis by (intro that [of ?q ?n "[]"]) simp_all
  next
    case 2
    let ?q = "if ready then PutByte else Poll"
    have "uvariables L ready i st = Some (goto i ?q st)" by (simp add: uvariables_def 2)
    moreover have "text_ok True ?l ?n ?q" using t 2 by (simp add: text_ok_def)
    then have "data_ok (Some i) (goto i ?q (st\<lparr>sent := sent st @ [], chars := (chars st)(i := ?n)\<rparr>))"
      by (intro data_send [OF d i pr]) simp_all
    ultimately show ?thesis by (intro that [of ?q ?n "[]"]) simp_all
  next
    case 3
    have lt: "?n < length (body ?l)" using t 3 by (simp add: text_ok_def)
    have "uvariables L ready i st = Some (goto i NextByte (st\<lparr>sent := sent st @ [?l ! ?n], chars := (chars st)(i := Suc ?n)\<rparr>))"
      by (simp add: uvariables_def 3 at(1))
    moreover have "take (Suc ?n) ?l = take ?n ?l @ [?l ! ?n]"
      using lt body_at_end [OF zero(1)] by (intro take_Suc_conv_app_nth) simp
    then have "data_ok (Some i) (goto i NextByte (st\<lparr>sent := sent st @ [?l ! ?n], chars := (chars st)(i := Suc ?n)\<rparr>))"
      using zero lt by (intro data_send [OF d i pr]) (simp_all add: text_ok_def)
    ultimately show ?thesis by (intro that [of NextByte "Suc ?n" "[?l ! ?n]"]) simp_all
  qed
qed

text \<open>\<open>osMutexLock\<close>: the task has the mutex, with nothing of its line sent, or waits for it.\<close>

lemma data_lock:
  assumes d: "data_ok h st" and i: "i = 1 \<or> i = 2" and p: "upc st i = LockOutput"
    and h: "h' = (if h = None then Some i else h)" "h \<noteq> Some i"
  shows "data_ok h' (goto i NextByte st)"
proof -
  let ?st = "goto i NextByte st"
  note d = data_okD [OF d]
  have st: "lines ?st = lines st" "ulength ?st = ulength st" "seconds ?st = seconds st" "upc ?st = (upc st)(i := NextByte)"
      "chars ?st = chars st" "sent ?st = sent st"
    by (simp_all add: goto_def)
  have pr: "printing (upc st i)" "printing NextByte" using p by simp_all
  have t: "text_ok (h = Some i) (lines st i) (chars st i) LockOutput" using d(2) [OF i] p by simp
  have "echo_ok (lines ?st 1) (ulength ?st) (upc ?st 1)"
    using d(1) echo_ok_printing [OF pr] unfolding st by (cases "i = 1") auto
  moreover have "\<forall>j \<in> {1, 2}. text_ok (h' = Some j) (lines ?st j) (chars ?st j) (upc ?st j)"
  proof
    fix j :: nat assume j: "j \<in> {1, 2}"
    show "text_ok (h' = Some j) (lines ?st j) (chars ?st j) (upc ?st j)"
    proof (cases "j = i")
      case False
      then have "h' = Some j \<longleftrightarrow> h = Some j" using h by auto
      then show ?thesis using d(2) [of j] j False unfolding st by auto
    qed (use t in \<open>simp add: st text_ok_def\<close>)
  qed
  moreover obtain ls k where ls: "sent st = concat (map snd ls) @ part h st" "printed ls k"
      "clock_ok k (seconds st) (lines st 2) (upc st 2)"
    using d(3) by blast
  have "part h' ?st = part h st" using t h unfolding part_def st by (cases h) (simp_all add: text_ok_def)
  then have "sent ?st = concat (map snd ls) @ part h' ?st" unfolding st using ls(1) by simp
  moreover have "clock_ok k (seconds ?st) (lines ?st 2) (upc ?st 2)"
    using ls(3) clock_ok_printing [OF pr] unfolding st by (cases "i = 2") auto
  ultimately show ?thesis using ls(2) unfolding data_ok_def by blast
qed

text \<open>\<open>osMutexUnlock\<close>: the line is complete, and who has the mutex next has sent nothing of its own.\<close>

lemma data_unlock:
  assumes d: "data_ok (Some i) st" and i: "i = 1 \<or> i = 2" and p: "upc st i = UnlockOutput"
    and h: "h' \<noteq> Some i" "\<And>j. h' = Some j \<Longrightarrow> (j = 1 \<or> j = 2) \<and> upc st j = NextByte"
    and q: "q = (if i = 1 then NewLine else NextSecond)"
  shows "data_ok h' (goto i q st)"
proof -
  let ?st = "goto i q st"
  note d = data_okD [OF d]
  have st: "lines ?st = lines st" "ulength ?st = ulength st" "seconds ?st = seconds st" "upc ?st = (upc st)(i := q)"
      "chars ?st = chars st" "sent ?st = sent st"
    by (simp_all add: goto_def)
  have t: "text_ok True (lines st i) (chars st i) UnlockOutput" using d(2) [OF i] p by simp
  have e: "echo_ok (lines ?st 1) (ulength ?st) (upc ?st 1)"
    using d(1) q p unfolding st by (cases "i = 1") (auto simp: echo_ok_def)
  have texts: "\<forall>j \<in> {1, 2}. text_ok (h' = Some j) (lines ?st j) (chars ?st j) (upc ?st j)"
  proof
    fix j :: nat assume j: "j \<in> {1, 2}"
    show "text_ok (h' = Some j) (lines ?st j) (chars ?st j) (upc ?st j)"
    proof (cases "j = i")
      case False
      then have "text_ok False (lines st j) (chars st j) (upc st j)" using d(2) [of j] j by auto
      then have "text_ok b (lines st j) (chars st j) (upc st j)" for b by (auto simp: text_ok_def)
      then show ?thesis using False unfolding st by simp
    next
      case True
      then show ?thesis using q unfolding st by (auto simp: text_ok_def)
    qed
  qed
  obtain ls k where ls: "sent st = concat (map snd ls) @ part (Some i) st" "printed ls k"
      "clock_ok k (seconds st) (lines st 2) (upc st 2)"
    using d(3) by blast
  have "part (Some i) st = body (lines st i)"
    using t by (simp add: part_def text_ok_def body_def takeWhile_eq_take [symmetric])
  moreover have "part h' ?st = []"
  proof (cases h')
    case (Some j)
    then have "j = 1 \<or> j = 2" "upc st j = NextByte" "i \<noteq> j" using h by auto
    then have "text_ok False (lines st j) (chars st j) NextByte" using d(2) [of j] by simp
    then show ?thesis using Some unfolding part_def st by (simp add: text_ok_def)
  qed (simp add: part_def)
  ultimately have sent: "sent ?st = concat (map snd (ls @ [(i, body (lines st i))])) @ part h' ?st"
    using ls(1) unfolding st by simp
  have "\<exists>k'. printed (ls @ [(i, body (lines st i))]) k' \<and> clock_ok k' (seconds ?st) (lines ?st 2) (upc ?st 2)"
  proof (cases "i = 1")
    case True
    then have "is_echo (body (lines st i))" using d(1) p by (simp add: echo_ok_def)
    then have "printed (ls @ [(i, body (lines st i))]) k" using printed_echo [OF ls(2)] True by simp
    then show ?thesis using ls(3) True unfolding st by auto
  next
    case False
    then have i2: "i = 2" using i by simp
    then have c: "seconds st = of_nat (Suc k)" "lines st 2 = clock_line (seconds st)" using ls(3) p by (simp_all add: clock_ok_def)
    then have "body (lines st i) = take 17 (clock_line (of_nat (Suc k)))" by (simp add: i2 body_clock_line del: of_nat_Suc)
    then have "printed (ls @ [(i, body (lines st i))]) (Suc k)" using printed_clock [OF ls(2)] i2 by simp
    moreover have "clock_ok (Suc k) (seconds ?st) (lines ?st 2) (upc ?st 2)"
      using c(1) q i2 unfolding st by (simp add: clock_ok_def)
    ultimately show ?thesis by blast
  qed
  then show ?thesis using e texts sent unfolding data_ok_def by blast
qed

text \<open>A task that is not in \<open>print\<close> prepares its next line and begins to print it.\<close>

lemma data_prepare:
  assumes d: "data_ok h st" and h: "h \<noteq> Some i"
    and st': "sent st' = sent st" "\<And>j. j \<noteq> i \<Longrightarrow> lines st' j = lines st j \<and> chars st' j = chars st j \<and> upc st' j = upc st j"
    and i': "text_ok False (lines st' i) (chars st' i) (upc st' i)"
    and e: "echo_ok (lines st' 1) (ulength st') (upc st' 1)"
    and c: "\<And>n. clock_ok n (seconds st) (lines st 2) (upc st 2) \<Longrightarrow> clock_ok n (seconds st') (lines st' 2) (upc st' 2)"
  shows "data_ok h st'"
proof -
  note d = data_okD [OF d]
  have "\<forall>j \<in> {1, 2}. text_ok (h = Some j) (lines st' j) (chars st' j) (upc st' j)"
  proof
    fix j :: nat assume j: "j \<in> {1, 2}"
    show "text_ok (h = Some j) (lines st' j) (chars st' j) (upc st' j)"
      using d(2) [of j] i' h j st'(2) [of j] by (cases "j = i") auto
  qed
  moreover have "part h st' = part h st"
  proof (cases h)
    case (Some j)
    then show ?thesis using st'(2) [of j] h by (simp add: part_def)
  qed (simp add: part_def)
  ultimately show ?thesis using d(3) e c st'(1) unfolding data_ok_def by auto
qed

lemma text_ok_start: "0 \<in> set line \<Longrightarrow> text_ok False line 0 LockOutput"
  by (simp add: text_ok_def)

lemma text_ok_outside: "\<not> printing p \<Longrightarrow> text_ok own line n p"
  by (simp add: text_ok_def)

lemma data_echo:
  assumes d: "data_ok h st" and h: "h \<noteq> Some 1" and p: "\<not> printing (upc st 1)"
  obtains st' where "echo L (upc st 1) st = Some st'" and "data_ok h st'" and "\<not> uinside (upc st' 1)"
    and "\<And>j. j \<noteq> 1 \<Longrightarrow> upc st' j = upc st j" and "ukern st' = ukern st" and "regs st' = regs st"
proof -
  have e: "echo_ok (lines st 1) (ulength st) (upc st 1)" by (rule data_okD(1) [OF d])
  then consider "upc st 1 = GetByte" | "upc st 1 = TakeByte" | "upc st 1 = NewLine" using p by (auto simp: echo_ok_def)
  then show ?thesis
  proof cases
    case 1
    let ?st = "goto 1 TakeByte st"
    have "data_ok h ?st"
      by (rule data_prepare [OF d h]) (use e 1 in \<open>auto simp: goto_def text_ok_outside echo_ok_def\<close>)
    then show ?thesis using that [of ?st] 1 by (simp add: goto_def)
  next
    case 3
    let ?st = "goto 1 GetByte (st\<lparr>ulength := 6\<rparr>)"
    have "collecting (lines st 1) 6" using e by (simp add: echo_ok_def collecting_def collected_def sizeof_line_def)
    then have "data_ok h ?st"
      by (intro data_prepare [OF d h]) (use e in \<open>auto simp: goto_def text_ok_outside echo_ok_def\<close>)
    then show ?thesis using that [of ?st] 3 by (simp add: goto_def)
  next
    case 2
    then have "collecting (lines st 1) (ulength st)" using e by (simp add: echo_ok_def)
    from echo_byte_ok [OF this] obtain line len full
      where b: "echo_byte (ram (ukern st) (message_at L 1)) (lines st 1) (ulength st) = Some (line, len, full)"
        "if full then length line = sizeof_line \<and> take 6 line = bytes ''echo: '' \<and> 0 \<in> set line \<and> is_echo (body line)
         else collecting line len"
      by blast
    let ?s = "st\<lparr>lines := (lines st)(1 := line), ulength := len\<rparr>"
    let ?st = "if full then print 1 ?s else goto 1 GetByte ?s"
    have "data_ok h ?st"
      by (rule data_prepare [OF d h])
        (use b(2) in \<open>auto simp: goto_def print_def text_ok_outside text_ok_start echo_ok_def collecting_def split: if_splits\<close>)
    then show ?thesis using that [of ?st] 2 b(1) by (auto simp: goto_def print_def)
  qed
qed

lemma data_clock:
  assumes d: "data_ok h st" and h: "h \<noteq> Some 2" and p: "\<not> printing (upc st 2)"
  obtains st' where "clock L (upc st 2) st = Some st'" and "data_ok h st'" and "\<not> uinside (upc st' 2)"
    and "\<And>j. j \<noteq> 2 \<Longrightarrow> upc st' j = upc st j" and "ukern st' = ukern st" and "regs st' = regs st"
proof -
  have e: "echo_ok (lines st 1) (ulength st) (upc st 1)" by (rule data_okD(1) [OF d])
  obtain n where "clock_ok n (seconds st) (lines st 2) (upc st 2)" using data_okD(3) [OF d] by blast
  then consider "upc st 2 = ReadWake" | "upc st 2 = NextSecond" | "upc st 2 = Count" using p by (auto simp: clock_ok_def)
  then show ?thesis
  proof cases
    case 1
    let ?st = "goto 2 NextSecond (st\<lparr>uwake := osTickCount (ukern st)\<rparr>)"
    have "data_ok h ?st"
      by (rule data_prepare [OF d h]) (use e 1 in \<open>auto simp: goto_def text_ok_outside clock_ok_def\<close>)
    then show ?thesis using that [of ?st] 1 by (simp add: goto_def)
  next
    case 2
    let ?st = "goto 2 Count (st\<lparr>uwake := fst (osDelayUntil (uwake st) (OS_MS 1000) (ukern st))\<rparr>)"
    have "data_ok h ?st"
      by (rule data_prepare [OF d h]) (use e 2 in \<open>auto simp: goto_def text_ok_outside clock_ok_def\<close>)
    then show ?thesis using that [of ?st] 2 by (simp add: goto_def)
  next
    case 3
    let ?st = "print 2 (st\<lparr>seconds := seconds st + 1, lines := (lines st)(2 := clock_line (seconds st + 1))\<rparr>)"
    have "data_ok h ?st"
      by (rule data_prepare [OF d h])
        (use e 3 clock_line_zero in \<open>auto simp: goto_def print_def text_ok_start clock_ok_def\<close>)
    then show ?thesis using that [of ?st] 3 by (simp add: goto_def print_def)
  qed
qed

section \<open>The program\<close>

text \<open>The number of the task that has the mutex.\<close>

definition holder :: "layout \<Rightarrow> kernel \<Rightarrow> nat option" where
  "holder L k = map_option (\<lambda>t. if t = task L 1 then 1 else 2) (owner (mutexes k (mutex_at L)))"

definition uart_inv :: "layout \<Rightarrow> uart \<Rightarrow> bool" where
  "uart_inv L st \<longleftrightarrow> program_inv uart_shape uinside NextByte L (ukern st) (upc st) \<and>
     data_ok (holder L (ukern st)) st \<and> UCSR0B (regs st) = 0x98"

interpretation uart: lock_client uart_shape uinside LockOutput NextByte
  by unfold_locales simp_all

lemma uart_members: "i \<in> members uart_shape \<longleftrightarrow> i = 1 \<or> i = 2"
  by (auto simp: uart_shape_def)

lemma holder_task:
  assumes "layout_ok uart_shape L" and "i = 1 \<or> i = 2"
  shows "owner (mutexes k (mutex_at L)) = Some (task L i) \<Longrightarrow> holder L k = Some i"
    and "program_inv uart_shape uinside NextByte L k p \<Longrightarrow> holder L k = Some i \<longleftrightarrow> owner (mutexes k (mutex_at L)) = Some (task L i)"
proof -
  have ne: "task L 1 \<noteq> task L 2" using layout_okD(2) [OF assms(1), of 1 2] by (simp add: uart_members)
  then show "owner (mutexes k (mutex_at L)) = Some (task L i) \<Longrightarrow> holder L k = Some i"
    using assms(2) by (auto simp: holder_def)
  assume pi: "program_inv uart_shape uinside NextByte L k p"
  have owners: "t = task L 1 \<or> t = task L 2" if "owner (mutexes k (mutex_at L)) = Some t" for t
    using locks_invD(3) [OF uart.invD(5) [OF pi] that] by (auto simp: uart_members)
  then show "holder L k = Some i \<longleftrightarrow> owner (mutexes k (mutex_at L)) = Some (task L i)"
  proof (cases "owner (mutexes k (mutex_at L))")
    case (Some t)
    then have "t = task L 1 \<or> t = task L 2" using owners by blast
    then show ?thesis
      using assms(2) ne by (elim disjE) (simp_all add: holder_def Some ne [symmetric] del: One_nat_def)
  qed (simp add: holder_def)
qed

lemma holder_quiet: "quiet c k k' \<Longrightarrow> holder L k' = holder L k"
  by (simp add: holder_def quiet_def)

lemma part_kern: "part h (st\<lparr>ukern := k\<rparr>) = part h st"
  by (cases h) (simp_all add: part_def)

lemma data_kern: "data_ok h (st\<lparr>ukern := k\<rparr>) = data_ok h st"
  by (simp add: data_ok_def part_kern)

lemma uart_inv_start:
  assumes L: "layout_ok uart_shape L" and on: "power_on s" "osIdleTask s = idle_at L" and m: "uart_main L s = Some (r, k)"
  shows "uart_inv L (ustarted (uartInit ubrrh ubrrl use_2x regs0) k)"
proof -
  let ?st = "ustarted (uartInit ubrrh ubrrl use_2x regs0) k"
  obtain r' k' where k': "uart_main L s = Some (r', k')" "reachable no_timer careful (tasks_of uart_shape L) k'"
      "arranged uart_shape L (members uart_shape) k'" "no_waits k'" "plain k'"
    by (rule uart_starts [OF L on])
  then have k: "k' = k" using m by simp
  have "program_inv uart_shape uinside NextByte L k (upc ?st)"
    using uart.inv_start [OF L k'(2-5), of "upc ?st"] by (auto simp: k ustarted_def)
  moreover have "owner (mutexes k x) = None" for x using k'(5) by (simp add: k plain_def)
  then have "holder L k = None" by (simp add: holder_def)
  moreover have "printed [] 0" by (simp add: printed_def)
  then have "data_ok None ?st"
    using echo_start
    by (auto simp: data_ok_def ustarted_def echo_ok_def text_ok_def part_def clock_ok_def collecting_def intro!: exI [of _ "[]"] exI [of _ "0 :: nat"])
  ultimately show ?thesis by (simp add: uart_inv_def ustarted_def uartInit_def Let_def)
qed

text \<open>A point of a task that is not \<open>osMutexLock\<close> or \<open>osMutexUnlock\<close>.\<close>

lemma uart_variables:
  assumes d: "data_ok h st" and i: "i = 1 \<or> i = 2" and p: "upc st i \<noteq> LockOutput" "upc st i \<noteq> UnlockOutput"
    and h: "uinside (upc st i) \<longleftrightarrow> h = Some i"
  obtains st' where "uvariables L ready i st = Some st'" and "data_ok h st'" and "uinside (upc st' i) = uinside (upc st i)"
    and "upc st' = (upc st)(i := upc st' i)" and "ukern st' = ukern st" and "regs st' = regs st"
proof (cases "uinside (upc st i)")
  case True
  then have d': "data_ok (Some i) st" using d h by simp
  obtain q n bs where q: "uvariables L ready i st = Some (goto i q (st\<lparr>sent := sent st @ bs, chars := (chars st)(i := n)\<rparr>))"
    "uinside q" "data_ok (Some i) (goto i q (st\<lparr>sent := sent st @ bs, chars := (chars st)(i := n)\<rparr>))"
    by (rule data_print [OF d' i True p(2)])
  show ?thesis by (rule that [OF q(1)]) (use q(2,3) True h in \<open>simp_all add: goto_def\<close>)
next
  case False
  then have pr: "\<not> printing (upc st i)" using p by (cases "upc st i") simp_all
  from i show ?thesis
  proof
    assume i1: "i = 1"
    obtain st' where st': "echo L (upc st 1) st = Some st'" "data_ok h st'" "\<not> uinside (upc st' 1)"
        "\<And>j. j \<noteq> 1 \<Longrightarrow> upc st' j = upc st j" "ukern st' = ukern st" "regs st' = regs st"
      by (rule data_echo [OF d]) (use False h pr i1 in auto)
    then show ?thesis using pr False i1 by (intro that [of st']) (auto simp: uvariables_def)
  next
    assume i2: "i = 2"
    obtain st' where st': "clock L (upc st 2) st = Some st'" "data_ok h st'" "\<not> uinside (upc st' 2)"
        "\<And>j. j \<noteq> 2 \<Longrightarrow> upc st' j = upc st j" "ukern st' = ukern st" "regs st' = regs st"
      by (rule data_clock [OF d]) (use False h pr i2 in auto)
    then show ?thesis using pr False i2 by (intro that [of st']) (auto simp: uvariables_def)
  qed
qed

lemma uart_plain:
  assumes "ukernel_action L i st p = Some a" and "p \<noteq> LockOutput" and "p \<noteq> UnlockOutput" and "p = GetByte \<Longrightarrow> i = 1"
  shows "plain_action uart_shape L i a"
  using assms by (cases p) (auto simp: uart_shape_def)

lemma get_byte_echo:
  assumes "data_ok h st" and "i = 1 \<or> i = 2" and "upc st i = GetByte"
  shows "i = 1"
  using data_okD(3) [OF assms(1)] assms(2,3) by (auto simp: clock_ok_def)

lemma uart_task_inv:
  assumes inv: "uart_inv L st" and i: "runs uart_shape L (ukern st) i"
    and k: "case ukernel_action L i st (upc st i) of
       None \<Rightarrow> k = ukern st | Some a \<Rightarrow> step no_timer (tasks_of uart_shape L) a (ukern st) k"
  shows "\<exists>st'. uvariables L ready i st = Some st' \<and> uart_inv L (st'\<lparr>ukern := k\<rparr>)"
proof -
  let ?k = "ukern st"
  have pi: "program_inv uart_shape uinside NextByte L ?k (upc st)" and d: "data_ok (holder L ?k) st"
    and rx: "UCSR0B (regs st) = 0x98"
    using inv by (simp_all add: uart_inv_def)
  note L = uart.invD(1) [OF pi] and run = uart.runsD [OF pi i]
  have i12: "i = 1 \<or> i = 2" using run(1) by (simp add: uart_members)
  note hold = holder_task(2) [OF L _ pi]
  have h: "uinside (upc st i) \<longleftrightarrow> holder L ?k = Some i" using run(6) hold [OF i12] by simp
  consider "upc st i = LockOutput" | "upc st i = UnlockOutput" | "upc st i \<noteq> LockOutput" "upc st i \<noteq> UnlockOutput" by blast
  then show ?thesis
  proof cases
    case 1
    then have "step no_timer (tasks_of uart_shape L) (Call (CTryLock (mutex_at L) OS_WAIT_FOREVER)) ?k k" using k by simp
    note lock = uart.inv_lock [OF pi i 1 this]
    have "holder L k = (if holder L ?k = None then Some i else holder L ?k)"
    proof (cases "owner (mutexes ?k (mutex_at L))")
      case None
      then have "owner (mutexes k (mutex_at L)) = Some (task L i)" using lock(2) by simp
      then show ?thesis using holder_task(1) [OF L i12, of k] None by (simp add: holder_def)
    qed (use lock(2) in \<open>simp add: holder_def\<close>)
    then have "data_ok (holder L k) (goto i NextByte st)" using data_lock [OF d i12 1] h 1 by simp
    then show ?thesis using lock(1) rx by (simp add: uvariables_def 1 uart_inv_def data_kern) (simp add: goto_def)
  next
    case 2
    define q where "q = (if i = 1 then NewLine else NextSecond)"
    have "step no_timer (tasks_of uart_shape L) (Call (CUnlock (mutex_at L))) ?k k" using k 2 by simp
    then have unlock: "program_inv uart_shape uinside NextByte L k ((upc st)(i := q))"
        "\<And>w. owner (mutexes k (mutex_at L)) = Some w \<Longrightarrow>
          \<exists>j \<in> members uart_shape. w = task L j \<and> j \<noteq> i \<and> upc st j = NextByte"
      using uart.inv_unlock [OF pi i, of q] 2 by (auto simp: q_def)
    have next_holder: "\<exists>j. (j = 1 \<or> j = 2) \<and> h' = j \<and> j \<noteq> i \<and> upc st j = NextByte" if holder': "holder L k = Some h'" for h'
    proof -
      obtain w where w: "owner (mutexes k (mutex_at L)) = Some w" using holder' by (auto simp: holder_def)
      then obtain j where j: "j = 1 \<or> j = 2" "w = task L j" "j \<noteq> i" "upc st j = NextByte"
        using unlock(2) by (auto simp: uart_members)
      then have "holder L k = Some j" using holder_task(1) [OF L j(1), of k] w by simp
      then show ?thesis using j holder' by simp
    qed
    have "data_ok (Some i) st" using d h 2 by simp
    then have "data_ok (holder L k) (goto i q st)"
      by (rule data_unlock [OF _ i12 2]) (use next_holder q_def in blast)+
    moreover have "uvariables L ready i st = Some (goto i q st)" by (simp add: uvariables_def 2 q_def)
    ultimately show ?thesis using unlock(1) rx by (simp add: uart_inv_def data_kern) (simp add: goto_def)
  next
    case 3
    obtain st' where st': "uvariables L ready i st = Some st'" "data_ok (holder L ?k) st'"
        "uinside (upc st' i) = uinside (upc st i)" "upc st' = (upc st)(i := upc st' i)" "ukern st' = ukern st" "regs st' = regs st"
      by (rule uart_variables [OF d i12 3 h])
    have "program_inv uart_shape uinside NextByte L k ((upc st)(i := upc st' i)) \<and> quiet (task L i) ?k k"
    proof (cases "ukernel_action L i st (upc st i)")
      case None
      then show ?thesis using k uart.inv_stay [OF pi i st'(3)] quiet_refl run(3) by simp
    next
      case (Some a)
      have "plain_action uart_shape L i a" by (rule uart_plain [OF Some 3]) (rule get_byte_echo [OF d i12])
      then show ?thesis using uart.inv_plain [OF pi i st'(3)] k Some by simp
    qed
    then show ?thesis using st'(1,2,4,6) holder_quiet rx by (auto simp: uart_inv_def data_kern)
  qed
qed

lemma uart_rooms: "handler_message L k \<in> rooms uart_shape" "handler_message L k \<notin> members uart_shape"
  by (auto simp: handler_message_def uart_shape_def)

lemma uart_inv_step:
  assumes inv: "uart_inv L st" and st: "uart_step L st st'"
  shows "uart_inv L st'"
  using st
proof (cases rule: uart_step.cases)
  case (uart_task i k ready st1)
  then show ?thesis using uart_task_inv [OF inv uart_task(2,3), of ready] by auto
next
  case (uart_kernel a k)
  have pi: "program_inv uart_shape uinside NextByte L (ukern st) (upc st)" using inv by (simp add: uart_inv_def)
  have a: "a = Back \<or> a = Tick \<or> (\<exists>x bs. a = Write x bs)" using uart_kernel(2) by blast
  from uart.inv_kernel [OF pi a uart_kernel(3)] show ?thesis
    using inv by (simp add: uart_inv_def uart_kernel(1) holder_quiet data_kern)
next
  case (USART0_RX item byte k1 k2)
  have pi: "program_inv uart_shape uinside NextByte L (ukern st) (upc st)" using inv by (simp add: uart_inv_def)
  have "Write item [byte] = Back \<or> Write item [byte] = Tick \<or> (\<exists>x bs. Write item [byte] = Write x bs)" by simp
  note byte_in = uart.inv_kernel [OF pi this USART0_RX(4)]
  note send = uart.inv_handler [OF byte_in(1) USART0_RX(5)]
  show ?thesis
    using inv send(1) holder_quiet [OF send(2)] holder_quiet [OF byte_in(2)] by (simp add: uart_inv_def USART0_RX(1) data_kern)
qed

lemma uart_reachable_inv:
  assumes "layout_ok uart_shape L" and "uart_reachable L st"
  shows "uart_inv L st"
  using assms(2) by induction (use uart_inv_start uart_inv_step assms(1) in blast)+

text \<open>
  The program goes on: a task with what is at its point, whether the port is ready or not, or with
  what is left of its call, and a byte may come whenever a task is in its own code.
\<close>

lemma uart_goes_on:
  assumes inv: "uart_inv L st"
  shows "\<exists>k. uart_step L st (st\<lparr>ukern := k\<rparr>)"
    and "cont (ukern st) (osCurrentTask (ukern st)) = None \<Longrightarrow>
      \<exists>k1 k2. step no_timer (tasks_of uart_shape L) (Write (message_at L (handler_message L (ukern st))) [byte]) (ukern st) k1 \<and>
        step no_timer (tasks_of uart_shape L)
          (Interrupt [IQueueSend (queue_at L) (message_at L (handler_message L (ukern st)))]) k1 k2 \<and>
        uart_step L st (st\<lparr>ukern := k2\<rparr>)"
    and "runs uart_shape L (ukern st) i \<Longrightarrow> \<exists>st' k. uvariables L ready i st = Some st' \<and> uart_step L st (st'\<lparr>ukern := k\<rparr>)"
proof -
  let ?k = "ukern st"
  have pi: "program_inv uart_shape uinside NextByte L ?k (upc st)" and d: "data_ok (holder L ?k) st"
    and rx: "UCSR0B (regs st) = 0x98"
    using inv by (simp_all add: uart_inv_def)
  note pi' = uart.invD [OF pi]
  show "\<exists>k. uart_step L st (st\<lparr>ukern := k\<rparr>)"
  proof -
    obtain k where "step no_timer (tasks_of uart_shape L) (if cont ?k (osCurrentTask ?k) = None then Tick else Back) ?k k"
      using uart.kernel_exists [OF pi] by blast
    then have "uart_step L st (st\<lparr>ukern := k\<rparr>)" by (rule uart_kernel [rotated]) simp
    then show ?thesis ..
  qed
  show "\<exists>k1 k2. step no_timer (tasks_of uart_shape L) (Write (message_at L (handler_message L ?k)) [byte]) ?k k1 \<and>
        step no_timer (tasks_of uart_shape L) (Interrupt [IQueueSend (queue_at L) (message_at L (handler_message L ?k))]) k1 k2 \<and>
        uart_step L st (st\<lparr>ukern := k2\<rparr>)" if c: "cont ?k (osCurrentTask ?k) = None"
  proof -
    let ?item = "message_at L (handler_message L ?k)"
    have "harmless (tasks_of uart_shape L) ?k (region ?item (length [byte]))"
      using arranged_harmless [OF pi'(3) layout_okD(8) [OF pi'(1) uart_rooms(1)]] by (simp add: room_of_def uart_shape_def)
    then obtain k1 where k1: "step no_timer (tasks_of uart_shape L) (Write ?item [byte]) ?k k1"
      using steps_exist(5) [OF pi'(6) c] by blast
    have "Write ?item [byte] = Back \<or> Write ?item [byte] = Tick \<or> (\<exists>x bs. Write ?item [byte] = Write x bs)" by simp
    note byte_in = uart.inv_kernel [OF pi this k1]
    have "k1 = ram_upd (poke ?item [byte]) ?k" using k1 by (simp add: step_Write)
    then have "cont k1 (osCurrentTask k1) = None" using c by simp
    from uart.handler_exists [OF byte_in(1) this uart_rooms]
    obtain k2 where k2: "step no_timer (tasks_of uart_shape L) (Interrupt [IQueueSend (queue_at L) ?item]) k1 k2" by blast
    have "uart_step L st (st\<lparr>ukern := k2\<rparr>)" by (rule USART0_RX [OF _ refl k1 k2]) (simp add: rx)
    then show ?thesis using k1 k2 by blast
  qed
  assume i: "runs uart_shape L ?k i"
  note run = uart.runsD [OF pi i]
  have i12: "i = 1 \<or> i = 2" using run(1) by (simp add: uart_members)
  have "\<exists>k. case ukernel_action L i st (upc st i) of
      None \<Rightarrow> k = ?k | Some a \<Rightarrow> step no_timer (tasks_of uart_shape L) a ?k k"
  proof (cases "upc st i = LockOutput \<or> upc st i = UnlockOutput")
    case True
    then show ?thesis using uart.mutex_exists [OF pi i] by auto
  next
    case False
    show ?thesis
    proof (cases "ukernel_action L i st (upc st i)")
      case (Some a)
      have "plain_action uart_shape L i a" by (rule uart_plain [OF Some]) (use False get_byte_echo [OF d i12] in blast)+
      then show ?thesis using uart.plain_exists [OF pi i] Some by simp
    qed simp
  qed
  then obtain k where k: "case ukernel_action L i st (upc st i) of
      None \<Rightarrow> k = ?k | Some a \<Rightarrow> step no_timer (tasks_of uart_shape L) a ?k k" ..
  obtain st' where "uvariables L ready i st = Some st'" using uart_task_inv [OF inv i k] by blast
  then show "\<exists>st' k. uvariables L ready i st = Some st' \<and> uart_step L st (st'\<lparr>ukern := k\<rparr>)"
    using uart_task [OF i k] by blast
qed

end
