(* ===== verification/Uart_Properties.thy ===== *)
theory Uart_Properties
  imports Uart_Inv System_Properties
begin

text \<open>
  What \<^verbatim>\<open>examples/uart.c\<close> promises, in every run of it, and what its tasks make of single bytes and
  numbers.
\<close>

section \<open>An arrangement of the memory\<close>

definition uart_board :: layout where
  "uart_board = \<lparr>idle_at = 0x730, heap_start = 0x800, spr = 0x21f0, linker = (1, 2),
     entry_of = (\<lambda>i. 0x100 + of_nat i), memory_of = (\<lambda>i. 0x200 + of_nat i * 0x100), mutex_at = 0x710,
     queue_at = 0x720, queueMemory_at = 0x600,
     message_at = (\<lambda>i. if i = 1 then 0x340 else if i = 11 then 0x350 else if i = 12 then 0x450 else 0x2180)\<rparr>"

lemma uart_board_ok: "layout_ok uart_shape uart_board"
proof -
  have size: "unat sizeof_memory = 149" by (simp add: OS_TASK_MEMORY_def)
  have members: "members uart_shape = {1, 2}" "rooms uart_shape = {1, 10, 11, 12}" by (simp_all add: uart_shape_def)
  have memory: "memory_of uart_board i = 0x200 + of_nat i * 0x100" for i by (simp add: uart_board_def)
  have ends: "ends uart_shape uart_board = {0x2100, 0x300, 0x400}"
    by (simp add: ends_def members memory main_stack_def uart_board_def)
  have "main_stack uart_board \<notin> region (memory_of uart_board i) 149 \<and>
      region (memory_of uart_board i) 149 \<inter> ends uart_shape uart_board \<subseteq> {memory_of uart_board i}" if "i \<in> members uart_shape" for i
    using that unfolding members ends by (auto simp: memory region_iff main_stack_def uart_board_def)
  moreover have buffer: "buffer_of uart_shape uart_board = region 0x600 32"
    by (simp add: buffer_of_def uart_shape_def uart_board_def)
  have "buffer_of uart_shape uart_board \<inter> ends uart_shape uart_board = {}"
    unfolding ends buffer by (auto simp: region_iff)
  moreover have room: "room_of uart_shape uart_board 1 = {0x340}" "room_of uart_shape uart_board 10 = {0x2180}"
    "room_of uart_shape uart_board 11 = {0x350}" "room_of uart_shape uart_board 12 = {0x450}"
    by (simp_all add: room_of_def uart_shape_def uart_board_def region_Suc)
  moreover have "room_of uart_shape uart_board i \<inter> buffer_of uart_shape uart_board = {}" if "i \<in> rooms uart_shape" for i
    using that unfolding members buffer by (auto simp: room region_iff simp del: One_nat_def)
  moreover have "main_stack uart_board < spr uart_board - 16" "inj_on (task uart_board) {1, 2}" "idle_at uart_board \<notin> task uart_board ` {1, 2}"
    by (simp_all add: main_stack_def uart_board_def task_def task_place_def OS_TASK_MEMORY_def)
  ultimately show ?thesis by (simp add: layout_ok_def size ends members del: One_nat_def)
qed

lemma uart_board_starts:
  obtains st where "uart_reachable uart_board st" and "sent st = []" and "seconds st = 0"
proof -
  let ?s = "switched_on\<lparr>osIdleTask := idle_at uart_board\<rparr>"
  have on: "power_on ?s" "osIdleTask ?s = idle_at uart_board" by (simp_all add: power_on_def switched_on_def)
  obtain r k where m: "uart_main uart_board ?s = Some (r, k)"
    by (rule uart_starts [OF uart_board_ok on, where fire = no_timer and Q = careful])
  let ?st = "ustarted (uartInit 0 16 False \<lparr>UBRR0H = 0, UBRR0L = 0, UCSR0A = 0x20, UCSR0B = 0, UCSR0C = 6\<rparr>) k"
  have "uart_reachable uart_board ?st" by (rule uart_start [OF on m])
  then show ?thesis by (rule that) (simp_all add: ustarted_def)
qed

section \<open>Lines in one piece\<close>

text \<open>
  C9. Lines are never mixed up, whatever interrupts the tasks: what has been written to the port is
  a sequence of complete lines, each of \<open>echo\<close> or of \<open>clock\<close>, followed by what the task that has the
  mutex has sent of its own line. The lines of \<open>clock\<close> are those of the seconds from 1 on, none
  left out.
\<close>

theorem lines_in_one_piece:
  assumes "layout_ok uart_shape L" and "uart_reachable L st"
  shows "\<exists>(ls :: (nat \<times> u8 list) list) n. sent st = concat (map snd ls) @ part (holder L (ukern st)) st \<and>
    (\<forall>(i, l) \<in> set ls. i = 1 \<and> is_echo l \<or> i = 2) \<and>
    map snd (filter (\<lambda>(i, l). i = 2) ls) = map (\<lambda>k. take 17 (clock_line (of_nat k))) [1..<Suc n] \<and>
    (seconds st = of_nat n \<or> seconds st = of_nat (Suc n))"
proof -
  have "data_ok (holder L (ukern st)) st" using uart_reachable_inv [OF assms] by (simp add: uart_inv_def)
  from data_okD(3) [OF this] obtain ls n where ls: "sent st = concat (map snd ls) @ part (holder L (ukern st)) st"
      "printed ls n" "clock_ok n (seconds st) (lines st 2) (upc st 2)"
    by blast
  then have "seconds st = of_nat n \<or> seconds st = of_nat (Suc n)" by (auto simp: clock_ok_def split: if_splits)
  then show ?thesis using ls(1,2) unfolding printed_def by blast
qed

theorem lines_in_one_piece_witness:
  "\<exists>st (ls :: (nat \<times> u8 list) list). uart_reachable uart_board st \<and> sent st = concat (map snd ls) @ part (holder uart_board (ukern st)) st"
proof -
  obtain st where st: "uart_reachable uart_board st" by (rule uart_board_starts)
  from lines_in_one_piece [OF uart_board_ok st] st show ?thesis by blast
qed

text \<open>
  C10. The program never gets stuck and never accesses its arrays out of bounds: a task in its own
  code finishes what is at its point (its kernel call returns or switches), whether the port is
  ready or not; a call a task has been in goes on, or the tick comes; and a byte can be received
  whenever a task is in its own code.
\<close>

theorem uart_never_stuck:
  assumes "layout_ok uart_shape L" and "uart_reachable L st"
  shows "system_ok (tasks_of uart_shape L) (ukern st) \<and> (\<exists>k. uart_step L st (st\<lparr>ukern := k\<rparr>)) \<and>
    (\<forall>ready i. runs uart_shape L (ukern st) i \<longrightarrow>
      (\<exists>st' k. uvariables L ready i st = Some st' \<and> uart_step L st (st'\<lparr>ukern := k\<rparr>))) \<and>
    (let c = osCurrentTask (ukern st); item = message_at L (handler_message L (ukern st)) in
     cont (ukern st) c = None \<longrightarrow>
      (\<forall>byte. \<exists>k1 k2. step no_timer (tasks_of uart_shape L) (Write item [byte]) (ukern st) k1 \<and>
        step no_timer (tasks_of uart_shape L) (Interrupt [IQueueSend (queue_at L) item]) k1 k2 \<and>
        uart_step L st (st\<lparr>ukern := k2\<rparr>)))"
proof -
  note inv = uart_reachable_inv [OF assms]
  then have "program_inv uart_shape uinside NextByte L (ukern st) (upc st)" by (simp add: uart_inv_def)
  from uart.invD(6) [OF this] show ?thesis using uart_goes_on [OF inv] by (simp add: Let_def)
qed

theorem uart_never_stuck_witness:
  "\<exists>st st'. uart_reachable uart_board st \<and> uart_step uart_board st st'"
proof -
  obtain st where st: "uart_reachable uart_board st" by (rule uart_board_starts)
  from uart_never_stuck [OF uart_board_ok st] st show ?thesis by blast
qed

section \<open>Echo\<close>

text \<open>The loop of \<open>echo\<close>, with the bytes it receives, and the lines it prints.\<close>

fun echo_run :: "u8 list \<Rightarrow> u8 \<Rightarrow> u8 list \<Rightarrow> u8 list list option" where
  "echo_run line len [] = Some []"
| "echo_run line len (byte # bs) = do {
     (line, len, full) \<leftarrow> echo_byte byte line len;
     if full then do {
       ls \<leftarrow> echo_run line 6 bs;
       Some (body line # ls)
     } else echo_run line len bs
   }"

text \<open>What is to be expected: the input is split at line ends, and at every byte that finds 39 before it.\<close>

fun split_lines :: "u8 list \<Rightarrow> u8 list \<Rightarrow> u8 list list" where
  "split_lines acc [] = []"
| "split_lines acc (b # bs) =
     (if b = CR \<or> b = LF \<or> length acc = 39 then acc # split_lines [] bs else split_lines (acc @ [b]) bs)"

lemma echo_run_lines:
  "collecting line len \<Longrightarrow>
   echo_run line len bs = Some (map (\<lambda>l. body (bytes ''echo: '' @ l @ [CR, LF])) (split_lines (collected line len) bs))"
proof (induction bs arbitrary: line len)
  case (Cons b bs)
  have most: "length (collected line len) \<le> 39" using Cons.prems collected_length [OF Cons.prems] unfolding collecting_def by linarith
  show ?case
  proof (cases "b = CR \<or> b = LF \<or> length (collected line len) = 39")
    case True
    obtain line' len' where b: "echo_byte b line len = Some (line', len', True)" "length line' = sizeof_line"
        "take 6 line' = bytes ''echo: ''" "body line' = body (bytes ''echo: '' @ collected line len @ [CR, LF])"
      using echo_byte_end [OF Cons.prems True] by blast
    have c: "collecting line' 6" "collected line' 6 = []" using b(2,3) by (simp_all add: collecting_def collected_def sizeof_line_def)
    show ?thesis using True by (simp add: b(1,4) Cons.IH [OF c(1)] c(2))
  next
    case False
    then obtain line' where b: "echo_byte b line len = Some (line', len + 1, False)" "collecting line' (len + 1)"
        "collected line' (len + 1) = collected line len @ [b]"
      using echo_byte_store [OF Cons.prems, of b] most by auto
    show ?thesis using False by (simp add: b(1,3) Cons.IH [OF b(2)])
  qed
qed simp

text \<open>
  C11. \<open>echo\<close> with its array and its index does what splitting the input does: each line is printed
  behind \<open>echo: \<close> and followed by a line end, up to its first zero.
\<close>

theorem echo_splits:
  "echo_run echo_line 6 bs = Some (map (\<lambda>l. body (bytes ''echo: '' @ l @ [CR, LF])) (split_lines [] bs))"
  using echo_run_lines [OF echo_start, of bs] by (simp add: collected_def echo_line_def)

lemma split_lines_short: "length acc + length bs \<le> 39 \<Longrightarrow> CR \<notin> set bs \<Longrightarrow> LF \<notin> set bs \<Longrightarrow>
    split_lines acc (bs @ b # cs) = split_lines (acc @ bs) (b # cs)"
  by (induction bs arbitrary: acc) auto

text \<open>
  A byte that finds the line full is not echoed: it ends the line and is dropped.
\<close>

theorem echo_drops_byte:
  assumes "length bs = 39" and "CR \<notin> set bs" and "LF \<notin> set bs" and "0 \<notin> set bs"
  shows "echo_run echo_line 6 (bs @ [b]) = Some [bytes ''echo: '' @ bs @ [CR, LF]]"
proof -
  have "split_lines [] (bs @ [b]) = [bs]" using split_lines_short [of "[]" bs b "[]"] assms by simp
  moreover have "body (bytes ''echo: '' @ bs @ [CR, LF]) = bytes ''echo: '' @ bs @ [CR, LF]"
    using assms(4) unfolding body_def by (subst takeWhile_eq_all_conv) auto
  ultimately show ?thesis by (simp add: echo_splits)
qed

theorem echo_drops_byte_witness:
  "echo_run echo_line 6 (replicate 39 0x61 @ [0x62]) = Some [bytes ''echo: '' @ replicate 39 0x61 @ [CR, LF]]"
  by (rule echo_drops_byte) simp_all

section \<open>Clock\<close>

definition decimal :: "u8 list \<Rightarrow> nat" where
  "decimal ds = foldl (\<lambda>n d. 10 * n + (unat d - 48)) 0 ds"

lemma five_digits:
  fixes m :: nat
  assumes "m < 10 ^ 5"
  shows "10 * (10 * (10 * (10 * (m div 10 ^ 4 mod 10) + m div 10 ^ 3 mod 10) + m div 10 ^ 2 mod 10) + m div 10 ^ 1 mod 10) +
    m div 10 ^ 0 mod 10 = m"
proof -
  have step: "10 * (m div 10 ^ Suc i) + m div 10 ^ i mod 10 = m div 10 ^ i" for i
    using mult_div_mod_eq [of 10 "m div 10 ^ i"] by (simp add: div_mult2_eq [symmetric] mult.commute)
  have "m div 10 ^ 4 mod 10 = m div 10 ^ 4" using assms by simp
  then show ?thesis using step [of 3] step [of 2] step [of 1] step [of 0] by simp
qed

text \<open>
  C12. The line of \<open>clock\<close> has the seconds in decimal, in five digits between \<open>uptime: \<close> and \<open>s\<close>:
  reading them gives the number back.
\<close>

theorem clock_line_decimal:
  "decimal (take 5 (drop 8 (clock_line n))) = unat n \<and> take 8 (clock_line n) = bytes ''uptime: '' \<and>
   drop 13 (clock_line n) = bytes '' s'' @ [CR, LF, 0] \<and> (\<forall>d \<in> set (take 5 (drop 8 (clock_line n))). 48 \<le> d \<and> d \<le> 57)"
proof -
  let ?d = "\<lambda>k. unat n div k mod 10"
  have div: "unat (n div 10 ^ i) = unat n div 10 ^ i" if "i \<in> {0, 1, 2, 3, 4}" for i :: nat
    using that by (auto simp: unat_div_distrib)
  have digit: "unat (0x30 + ucast (n div 10 ^ i mod 10) :: u8) = 48 + ?d (10 ^ i)" if "i \<in> {0, 1, 2, 3, 4}" for i :: nat
    using digit_unat [of "n div 10 ^ i"] div [OF that] by simp
  have digits: "take 5 (drop 8 (clock_line n)) = map (\<lambda>i. 0x30 + ucast (n div 10 ^ i mod 10)) [4, 3, 2, 1, 0]"
    by (simp add: clock_line_digits)
  have "decimal (take 5 (drop 8 (clock_line n))) =
      10 * (10 * (10 * (10 * ?d (10 ^ 4) + ?d (10 ^ 3)) + ?d (10 ^ 2)) + ?d (10 ^ 1)) + ?d (10 ^ 0)"
    by (simp only: digits decimal_def list.map foldl_Cons foldl_Nil digit insert_iff simp_thms mult_0_right add_0 diff_add_inverse)
  also have "\<dots> = unat n"
  proof (rule five_digits)
    have "unat n < 2 ^ 16" using unsigned_less [of n] by simp
    then show "unat n < 10 ^ 5" by simp
  qed
  finally have "decimal (take 5 (drop 8 (clock_line n))) = unat n" .
  moreover have "\<forall>d \<in> set (take 5 (drop 8 (clock_line n))). 48 \<le> d \<and> d \<le> 57"
  proof
    fix d assume "d \<in> set (take 5 (drop 8 (clock_line n)))"
    then obtain i where i: "d = 0x30 + ucast (n div 10 ^ i mod 10)" "i \<in> set [4, 3, 2, 1, 0]"
      unfolding digits set_map by (rule imageE)
    have "i \<in> {0, 1, 2, 3, 4}" using i(2) by (simp del: One_nat_def) blast
    then have "unat d = 48 + ?d (10 ^ i)" unfolding i(1) by (rule digit)
    moreover have "?d (10 ^ i) < 10" by simp
    ultimately have "48 \<le> unat d" "unat d \<le> 57" by linarith+
    then show "48 \<le> d \<and> d \<le> 57" by (simp add: word_le_nat_alt)
  qed
  ultimately show ?thesis by (simp add: clock_line_digits)
qed

theorem clock_line_decimal_witness:
  "decimal (take 5 (drop 8 (clock_line 65535))) = 65535 \<and> 0x36 \<in> set (take 5 (drop 8 (clock_line 65535))) \<and> (0x36 :: u8) \<le> 57"
proof -
  have "take 5 (drop 8 (clock_line 65535)) = [0x36, 0x35, 0x35, 0x33, 0x35]" by (simp add: clock_line_digits)
  then have "0x36 \<in> set (take 5 (drop 8 (clock_line 65535)))" by simp
  then show ?thesis using clock_line_decimal [of 65535] by simp
qed

end
