(* ===== verification/Task_Properties.thy ===== *)
theory Task_Properties
  imports Sample_State
begin

text \<open>
  Properties of the life of tasks (\<^verbatim>\<open>system/tasks.c\<close>) and of memory (\<^verbatim>\<open>system/memory.c\<close>),
  applied at the sample state.
\<close>

section \<open>Suspending and resuming\<close>

text \<open>
  C35. \<open>osTaskSuspend\<close> of a task which is neither dead nor suspended nor the idle task: the task
  is suspended and is told that it has not got what it has been waiting for, no mutex changes
  its owner, and if it is the current task, the most important ready task gets the processor.
\<close>

theorem task_suspend:
  assumes "rest A s" and "objects_ok A s" and "t = task_or_current target s" and "t \<in> A"
    and "t \<noteq> osIdleTask s" and "state (tasks s t) \<noteq> OS_TASK_SUSPENDED" and "state (tasks s t) \<noteq> OS_TASK_DEAD"
  shows "returns (osTaskSuspend target s)
    (\<lambda>(r, s'). rest A s' \<and> objects_ok A s' \<and> state (tasks s' t) = OS_TASK_SUSPENDED \<and>
       result (tasks s' t) = 0 \<and> same_owners s s' \<and>
       (if t = osCurrentTask s then r = Switched \<and> top_runs A s' \<and> cont s' t = Some (KReturn VVoid)
        else r = Returned VVoid))"
  using osTaskSuspend_rest [OF assms] by (auto elim!: returns_mono split: if_splits)

theorem task_suspend_witness:
  "returns (osTaskSuspend None sample)
    (\<lambda>(r, s'). r = Switched \<and> rest sample_ids s' \<and> state (tasks s' 0x200) = OS_TASK_SUSPENDED)"
  using task_suspend [OF sample_rest sample_objects refl, of None]
  by (auto simp: task_or_current_def sample_ids_def sample_tasks_def sample_task_def elim!: returns_mono)

text \<open>
  C36. A task that has been given a semaphore and is suspended before it gets the processor: the
  semaphore counts as taken, but the call that waits for it is going to return false (the
  saved result is zero), so nobody has it.
\<close>

theorem suspend_loses_semaphore:
  assumes "rest A s" and "objects_ok A s" and "s_waiters (semaphores s m) = Some w"
  shows "returns (do { s \<leftarrow> osSemaphoreGiveFromISR m s; osTaskSuspend (Some w) s })
    (\<lambda>(r, s'). rest A s' \<and> state (tasks s' w) = OS_TASK_SUSPENDED \<and> result (tasks s' w) = 0 \<and>
       cont s' w = cont s w \<and> s_count (semaphores s' m) = s_count (semaphores s m))"
proof -
  have head: "rd s (Head (SemHead m)) = Some w" using assms(3) by simp
  note w = sem.most_important [OF assms(1) head]
  have "osIdleTask s \<noteq> w"
    using waiting_head(6) [OF assms(1) _ _ head] by simp
  then have susp: "returns (osTaskSuspend (Some w) s1)
      (\<lambda>(r, s'). rest A s' \<and> state (tasks s' w) = OS_TASK_SUSPENDED \<and> result (tasks s' w) = 0 \<and>
         cont s' w = cont s w \<and> s_count (semaphores s' m) = s_count (semaphores s m))"
    if "rest A s1" "objects_ok A s1" "data_eq (woken w 1 s) s1" for s1
    using osTaskSuspend_rest [OF that(1,2) _ w(1), of "Some w"] data_eqD [OF that(3)] w(3)
    by (auto simp: task_or_current_def data_eqD suspended_def woken_def elim!: returns_mono)
  show ?thesis
    using osSemaphoreGiveFromISR_rest [OF assms(1,2), of m] assms(3) susp
    by (auto elim!: returns_mono)
qed

theorem suspend_loses_semaphore_witness:
  "returns (do { s \<leftarrow> osSemaphoreGiveFromISR 0x20 sample; osTaskSuspend (Some 0x400) s })
    (\<lambda>(r, s'). result (tasks s' 0x400) = 0 \<and> cont s' 0x400 = Some KResult \<and> s_count (semaphores s' 0x20) = 0)"
  using suspend_loses_semaphore [OF sample_rest sample_objects, of "0x20" "0x400"]
  by (auto simp: sample_semaphores_def sample_cont_def elim!: returns_mono)

text \<open>
  \<open>osTaskResumeFromISR\<close> makes a suspended task ready and does nothing to any other; the
  running task keeps the processor.
\<close>

theorem task_resume_isr:
  assumes "rest A s" and "objects_ok A s" and "t \<in> A"
  shows "returns (osTaskResumeFromISR t s)
    (\<lambda>s'. rest A s' \<and> objects_ok A s' \<and> osCurrentTask s' = osCurrentTask s \<and> same_owners s s' \<and>
       (if state (tasks s t) = OS_TASK_SUSPENDED then state (tasks s' t) = OS_TASK_READY else s' = s))"
  using osTaskResumeFromISR_rest [OF assms]
proof (rule returns_mono)
  fix s'
  have "state (tasks s' t) = OS_TASK_READY" if "data_eq (set_state t OS_TASK_READY s) s'"
    using data_eqD(6) [OF that, of t] by simp
  then show "rest A s' \<and> objects_ok A s' \<and> osCurrentTask s' = osCurrentTask s \<and> same_owners s s' \<and>
       (if state (tasks s t) = OS_TASK_SUSPENDED then state (tasks s' t) = OS_TASK_READY else s' = s)"
    if "rest A s' \<and> objects_ok A s' \<and> osCurrentTask s' = osCurrentTask s \<and> same_owners s s' \<and>
       (if state (tasks s t) = OS_TASK_SUSPENDED then data_eq (set_state t OS_TASK_READY s) s' else s' = s)"
    using that by presburger
qed

theorem task_resume_isr_witness:
  "returns (osTaskResumeFromISR 0x700 sample)
    (\<lambda>s'. rest sample_ids s' \<and> state (tasks s' 0x700) = OS_TASK_READY)"
proof -
  have "0x700 \<in> sample_ids" "state (tasks sample 0x700) = OS_TASK_SUSPENDED"
    by (simp_all add: sample_ids_def sample_tasks_def sample_task_def)
  then show ?thesis
    using task_resume_isr [OF sample_rest sample_objects, of "0x700"] by (auto elim!: returns_mono)
qed

section \<open>The end of a task\<close>

text \<open>
  C33. \<open>osTaskDelete\<close> of a task which is not dead and not the idle task: it is dead afterwards and
  owns no mutex, the invariant of the kernel holds, nobody who is ready is more important than
  the running task, and a task that deletes itself does not come back.
\<close>

theorem task_delete:
  assumes "rest A s" and "objects_ok A s" and "t = task_or_current target s" and "t \<in> A"
    and "t \<noteq> osIdleTask s" and "state (tasks s t) \<noteq> OS_TASK_DEAD"
  shows "returns (osTaskDelete target s)
    (\<lambda>(r, s'). rest A s' \<and> objects_ok A s' \<and> top_runs A s' \<and> state (tasks s' t) = OS_TASK_DEAD \<and>
       (\<forall>m. owner (mutexes s' m) \<noteq> Some t) \<and> (t = osCurrentTask s \<longrightarrow> r = Switched))"
  using osTaskDelete_rest [OF assms] by (simp add: dead_def)

theorem task_delete_witness:
  "returns (osTaskDelete None sample)
    (\<lambda>(r, s'). r = Switched \<and> rest sample_ids s' \<and> (\<forall>m. owner (mutexes s' m) \<noteq> Some 0x200))"
  using task_delete [OF sample_rest sample_objects refl, of None]
  by (auto simp: task_or_current_def sample_ids_def sample_tasks_def sample_task_def elim!: returns_mono)

text \<open>
  C37. \<open>osTaskReap\<close> frees the memory of every task on the list of dead tasks and of no other, and
  empties the list; the invariant of the kernel holds for the tasks that are left.
\<close>

theorem task_reap:
  assumes "dead_list s D" and "from_heap D s"
  shows "osTaskReap s = Some (freed D s) \<and> osDeadList (freed D s) = None \<and>
    dom (heap (freed D s)) = dom (heap s) - (\<lambda>t. stack (tasks s t)) ` set D \<and>
    (\<forall>A. rest A s \<longrightarrow> rest (A - set D) (freed D s))"
proof (intro conjI allI impI)
  show "osTaskReap s = Some (freed D s)" using assms by (rule osTaskReap_freed)
  show "osDeadList (freed D s) = None" by (simp add: freed_def)
  show "dom (heap (freed D s)) = dom (heap s) - (\<lambda>t. stack (tasks s t)) ` set D" by (auto simp: freed_def)
  show "rest (A - set D) (freed D s)" if "rest A s" for A using that assms(1) by (rule freed_rest)
qed

definition graveyard :: kernel where
  "graveyard = (set_tnext 0xb00 None (set_tnext 0xa00 (Some 0xb00)
     (task_upd 0xa00 (stack_update (\<lambda>_. 0xa00)) (task_upd 0xb00 (stack_update (\<lambda>_. 0xb00)) sample))))
     \<lparr>osDeadList := Some 0xa00, heap := [0x900 \<mapsto> 50, 0xa00 \<mapsto> 100, 0xb00 \<mapsto> 200]\<rparr>"

theorem task_reap_witness:
  "osTaskReap graveyard = Some (freed [0xa00, 0xb00] graveyard) \<and>
   dom (heap (freed [0xa00, 0xb00] graveyard)) = {0x900}"
proof -
  have "dead_list graveyard [0xa00, 0xb00]" "from_heap [0xa00, 0xb00] graveyard"
    by (simp_all add: dead_list_def from_heap_def graveyard_def)
  from task_reap [OF this] show ?thesis by (auto simp: graveyard_def)
qed

section \<open>New tasks\<close>

text \<open>
  C34. \<open>osTaskCreate\<close> refuses to create a task without memory or with too little of it; otherwise
  the new task, which is at the top of its memory, is one of the tasks for which the invariant
  of the kernel holds afterwards, and it gets the processor at once if it is more important
  than the running task.
\<close>

theorem task_create:
  assumes "rest A s" and "objects_ok A s" and "fresh A s mem len" and "t = task_place mem len"
  shows "osTaskCreate link fn param None len prio s = Some (Returned (VTask None), s) \<and>
    returns (osTaskCreate link fn param (Some mem) len prio s)
      (\<lambda>(r, s'). if len < OS_TASK_MEMORY OS_STACK_MIN then r = Returned (VTask None) \<and> s' = s
         else rest (insert t A) s' \<and> objects_ok (insert t A) s' \<and> top_runs (insert t A) s' \<and>
           (r = Switched \<or> r = Returned (VTask (Some t))))"
proof (intro conjI)
  note create = osTaskSetup_rest [OF assms(1,2), where link = link and fn = fn and param = param and len = len
      and prio = prio and dyn = "0"]
  show "osTaskCreate link fn param None len prio s = Some (Returned (VTask None), s)"
    unfolding osTaskCreate_def by (rule create(1)) simp
  show "returns (osTaskCreate link fn param (Some mem) len prio s)
      (\<lambda>(r, s'). if len < OS_TASK_MEMORY OS_STACK_MIN then r = Returned (VTask None) \<and> s' = s
         else rest (insert t A) s' \<and> objects_ok (insert t A) s' \<and> top_runs (insert t A) s' \<and>
           (r = Switched \<or> r = Returned (VTask (Some t))))"
  proof (cases "len < OS_TASK_MEMORY OS_STACK_MIN")
    case True
    then show ?thesis using create(1) [of "Some mem"] by (simp add: osTaskCreate_def)
  next
    case False
    then show ?thesis using create(2) [OF refl False assms(3,4)] by (simp add: osTaskCreate_def)
  qed
qed

lemma region_bounds:
  assumes "unat a + n \<le> 65536" and "x \<in> region a n"
  shows "unat a \<le> unat x" and "unat x < unat a + n"
proof -
  obtain i where i: "x = a + of_nat i" "i < n" using assms(2) by (auto simp: region_def)
  then have "unat x = unat a + i" using assms(1) by (simp add: unat_word_ariths unat_of_nat)
  then show "unat a \<le> unat x" "unat x < unat a + n" using i(2) by simp_all
qed

lemma sample_fresh: "fresh sample_ids sample 0xc00 100"
proof -
  have "x \<notin> sample_ids" if "x \<in> region 0xc00 100" for x
    using region_bounds(1) [OF _ that] by (auto simp: sample_ids_def)
  then have "region 0xc00 (unat (100 :: u16)) \<subseteq> - sample_ids" by auto
  then show ?thesis by (simp add: fresh_def sample_harmless) (simp add: task_place_def sample_ids_def)
qed

theorem task_create_witness:
  "returns (osTaskCreate (1, 2) 0x4000 0 (Some 0xc00) 100 20 sample)
    (\<lambda>(r, s'). rest (insert 0xc4f sample_ids) s' \<and> top_runs (insert 0xc4f sample_ids) s')"
proof -
  have "(0xc4f :: addr) = task_place 0xc00 100" by (simp add: task_place_def)
  moreover have "\<not> (100 :: u16) < OS_TASK_MEMORY OS_STACK_MIN" by (simp add: stack_min)
  ultimately show ?thesis
    using task_create [OF sample_rest sample_objects sample_fresh, of "0xc4f" "(1, 2)" "0x4000" 0 20]
    by (auto elim!: returns_mono)
qed

text \<open>
  \<open>osTaskStackFree\<close> returns the number of bytes at the end of the stack of a task that still
  hold the pattern: they all do, and the next one does not, unless it is the end of the memory.
\<close>

theorem stack_free:
  assumes "base = stack (tasks s (task_or_current target s))" and "base \<le> RAMEND"
    and "n = osTaskStackFree target s"
  shows "(\<forall>x. base \<le> x \<longrightarrow> x < base + n \<longrightarrow> ram s x = OS_STACK_FILL) \<and>
    (base + n = RAMEND \<or> ram s (base + n) \<noteq> OS_STACK_FILL)"
  using osTaskStackFree_loop_spec(3,4) [OF assms(2), where s = s] assms(1,3) by (auto simp: osTaskStackFree_def Let_def)

theorem stack_free_witness:
  "osTaskStackFree None (ram_upd (\<lambda>r. r(0x203 := 7)) sample) = 3 \<and>
   ram (ram_upd (\<lambda>r. r(0x203 := 7)) sample) 0x202 = OS_STACK_FILL"
proof -
  define s where "s = ram_upd (\<lambda>r. r(0x203 := 7)) sample"
  have base: "stack (tasks s (task_or_current None s)) = 0x200"
    by (simp add: s_def task_or_current_def sample_tasks_def sample_task_def)
  have "osTaskStackFree None s = 3"
    unfolding osTaskStackFree_def Let_def base by (simp add: s_def osTaskStackFree_loop.simps)
  then show ?thesis
    using stack_free [OF base [symmetric] _ refl] unfolding s_def by simp
qed

section \<open>Memory\<close>

text \<open>
  After \<open>osPoolInit\<close> the free blocks of the pool are those the memory consists of, the last
  one first; their links do not overlap.
\<close>

theorem pool_init:
  assumes "memory \<noteq> 0" and "unat memory + unat blocks * unat blockSize \<le> 65536" and "2 \<le> unat blockSize"
  shows "pool_blocks (osPoolInit pool memory blockSize blocks s) pool
    (rev (map (\<lambda>i. memory + of_nat i * ucast blockSize) [0..<unat blocks]))"
  using osPoolInit_blocks [OF assms] by (simp add: blocks_of_def)

theorem pool_init_witness: "pool_blocks (osPoolInit 0x60 0x1c00 4 3 sample) 0x60 [0x1c08, 0x1c04, 0x1c00]"
proof -
  have "[0..<3] = [0, 1, 2]" by (simp add: upt_rec)
  then show ?thesis using pool_init [of "0x1c00" 3 4 "0x60" sample] by simp
qed

text \<open>
  C38. \<open>osPoolAlloc\<close> returns the first of the free blocks and takes it off the pool, whatever
  is written into the block; \<open>osPoolFree\<close> puts it back, so that it is the first one again. A
  pool without free blocks returns no block and stays as it is.
\<close>

theorem pool_round_trip:
  assumes "pool_blocks s pool bs"
  shows "case bs of
      [] \<Rightarrow> osPoolAlloc pool s = (None, s)
    | b # bs' \<Rightarrow> fst (osPoolAlloc pool s) = Some b \<and> pool_blocks (snd (osPoolAlloc pool s)) pool bs' \<and>
        (\<forall>v. pool_blocks (osPoolFree pool b (ram_upd (store16 b v) (snd (osPoolAlloc pool s)))) pool bs)"
proof (cases bs)
  case Nil
  then show ?thesis using osPoolAlloc_blocks [OF assms] by simp
next
  case (Cons b bs')
  let ?s = "\<lambda>v. ram_upd (store16 b v) (snd (osPoolAlloc pool s))"
  have bs: "pool_blocks s pool (b # bs')" using assms Cons by simp
  have free: "pool_blocks (snd (osPoolAlloc pool s)) pool bs'" by (rule pool_blocks_alloc [OF bs])
  have apart: "b \<noteq> 0" "\<And>b'. b' \<in> set bs' \<Longrightarrow> region b 2 \<inter> region b' 2 = {}"
    using bs by (auto simp: pool_blocks_def links_apart_def)
  have "pool_blocks (?s v) pool bs'" for v
    using free apart(2) by (simp add: pool_blocks_def free_list_store16)
  from osPoolFree_blocks [OF this apart] show ?thesis
    using osPoolAlloc_blocks [OF bs] free by (simp add: Cons)
qed

theorem pool_round_trip_witness:
  "fst (osPoolAlloc 0x60 (osPoolInit 0x60 0x1c00 4 3 sample)) = Some 0x1c08 \<and>
   pool_blocks (osPoolFree 0x60 0x1c08 (ram_upd (store16 0x1c08 7)
     (snd (osPoolAlloc 0x60 (osPoolInit 0x60 0x1c00 4 3 sample))))) 0x60 [0x1c08, 0x1c04, 0x1c00]"
proof -
  have "[0..<3] = [0, 1, 2]" by (simp add: upt_rec)
  then have "pool_blocks (osPoolInit 0x60 0x1c00 4 3 sample) 0x60 [0x1c08, 0x1c04, 0x1c00]"
    using osPoolInit_blocks [of "0x1c00" 3 4 "0x60" sample] by (simp add: blocks_of_def)
  from pool_round_trip [OF this] show ?thesis by simp
qed




end
