(* ===== verification/Time_Properties.thy ===== *)
theory Time_Properties
  imports Sample_State
begin

text \<open>
  Properties of software timers (\<^verbatim>\<open>system/timer.c\<close>) and of the tick (\<open>osTickHandler\<close> of
  \<^verbatim>\<open>system/scheduler.c\<close>), applied at the sample state.
\<close>

section \<open>Software timers\<close>

lemma sample_timer_chain: "timer_chain [0x50, 0x51] sample"
  by (simp add: timer_chain_def sample_timers_def) (simp add: sample_at_def)

lemma sample_timers_sorted: "timers_sorted (osTicks sample) [0x50, 0x51] sample" "timers_sorted 95 [0x50, 0x51] sample"
  by (simp_all add: timers_sorted_def expires_def sample_timers_def)


text \<open>
  \<open>osTimerStart\<close> puts the timer into the list of timers, in order of the ticks left across
  an overflow of the tick counter and behind those that expire with the same tick; a timer
  that runs already is on the list once only. A delay of zero is one tick. No other timer
  changes.
\<close>

theorem timer_start:
  assumes "timer_chain X s" and "timers_sorted (osTicks s) X s" and "d = (if delay = 0 then 1 else delay)"
    and "X1 = remove1 t X" and "early = (\<lambda>x. tm_when (timers s x) - osTicks s \<le> d)"
  shows "returns (osTimerStart t delay period fn param s)
    (\<lambda>s'. timer_chain (takeWhile early X1 @ t # dropWhile early X1) s' \<and>
       timers_sorted (osTicks s) (takeWhile early X1 @ t # dropWhile early X1) s' \<and>
       started t d period fn param s s')"
proof -
  have "tins (expires (osTicks s) s) d t X1 = takeWhile early X1 @ t # dropWhile early X1"
    by (simp add: tins_def expires_def assms(5))
  then show ?thesis
    using osTimerStart_spec [OF assms(1-3), of t period fn param] by (simp add: assms(4))
qed

theorem timer_start_witness:
  "returns (osTimerStart 0x50 9 0 3 4 sample)
    (\<lambda>s'. timer_chain [0x51, 0x50] s' \<and> tm_when (timers s' 0x50) = 99)"
  using timer_start [OF sample_timer_chain sample_timers_sorted(1) refl refl refl,
      where t = "0x50" and delay = "9" and period = "0" and fn = "3" and param = "4"]
  by (auto simp: sample_timers_def started_def elim!: returns_mono)



section \<open>The tick\<close>

text \<open>
  C30. The part of \<open>osTickHandler\<close> that ends waits: exactly the tasks that wait with a timeout
  which is up with this tick are ready afterwards, with the result false and on no list of
  waiting tasks; no other task and no object has changed.
\<close>

theorem timeouts:
  assumes "rest A s" and "objects_ok A s" and "n = osTicks s + 1"
    and "up = (\<lambda>t. t \<in> A \<and> state (tasks s t) AND OS_TASK_TIMED \<noteq> 0 \<and> wake (tasks s t) = n)"
  shows "returns (osTimeouts n (s\<lparr>osTicks := n\<rparr>))
    (\<lambda>s'. rest A s' \<and> objects_ok A s' \<and> calm s s' \<and> same_owners s s' \<and>
       (\<forall>t. if up t then state (tasks s' t) = OS_TASK_READY \<and> result (tasks s' t) = 0 \<and> waitList (tasks s' t) = None
          else state (tasks s' t) = state (tasks s t) \<and> result (tasks s' t) = result (tasks s t) \<and>
            waitList (tasks s' t) = waitList (tasks s t)))"
proof -
  have up: "up t \<longleftrightarrow> t \<in> up_next A s" for t by (simp add: assms(3,4) up_next_def)
  show ?thesis
    unfolding assms(3) ticked_def [symmetric]
  proof (rule returns_mono [OF osTimeouts_rest [OF assms(1,2)]], elim conjE)
    fix s' assume s': "rest A s'" "objects_ok A s'" "data_eq (timed_out (up_next A s) (ticked s)) s'"
    note d = data_eqD [OF s'(3)]
    have "calm s s'" using timed_out_calm [OF s'(3)] calm_ticked [of s] calm_calm by blast
    moreover have "same_owners s s'" by (simp add: same_owners_def d timed_out_def)
    ultimately show "rest A s' \<and> objects_ok A s' \<and> calm s s' \<and> same_owners s s' \<and>
       (\<forall>t. if up t then state (tasks s' t) = OS_TASK_READY \<and> result (tasks s' t) = 0 \<and> waitList (tasks s' t) = None
          else state (tasks s' t) = state (tasks s t) \<and> result (tasks s' t) = result (tasks s t) \<and>
            waitList (tasks s' t) = waitList (tasks s t))"
      using s'(1,2) by (simp add: up d timed_out_def)
  qed
qed

text \<open>Time may be set to another tick with which nobody is due.\<close>

lemma set_clock:
  assumes "kernel_inv L [t] OL A s" and "wake (tasks s t) \<noteq> n"
  shows "kernel_inv L [t] OL A (s\<lparr>osTicks := n\<rparr>)"
proof -
  let ?s = "s\<lparr>osTicks := n\<rparr>"
  have "repr L [t] ?s = repr L [t] s" by (rule repr_cong) (auto intro!: rd_cong trd_cong)
  moreover have "ord ?s = ord s" by (rule ord_cong) simp_all
  moreover have "by_priority ?s = by_priority s" "task_placed L [t] ?s = task_placed L [t] s"
    by (simp_all add: by_priority_def task_placed_def fun_eq_iff)
  moreover have "running {osCurrentTask s} A ?s = running {osCurrentTask s} A s" by (simp add: running_def)
  ultimately show ?thesis
    using assms by (simp add: kernel_inv_def data_inv_def placed_def prio_sorted_def timed_sorted_def owners_def
        no_inversion_def bounded_def idle_ok_def canaries_def not_due_def left_def)
qed

definition late :: kernel where
  "late = sample\<lparr>osTicks := 99\<rparr>"

lemma late_rest: "rest sample_ids late" "objects_ok sample_ids late"
proof -
  have "kernel_inv sample_lists [0x400] sample_owned sample_ids late"
    unfolding late_def by (rule set_clock [OF sample_inv]) (simp_all add: sample_tasks_def sample_task_def)
  then show "rest sample_ids late" using sample_rest by (auto simp: rest_def late_def)
  show "objects_ok sample_ids late"
    using sample_objects [of 4] by (simp add: objects_ok_def late_def)
qed

theorem timeouts_witness:
  "returns (osTimeouts 100 (late\<lparr>osTicks := 100\<rparr>))
    (\<lambda>s'. state (tasks s' 0x400) = OS_TASK_READY \<and> result (tasks s' 0x400) = 0 \<and> waitList (tasks s' 0x400) = None)"
proof -
  have n: "100 = osTicks late + 1" by (simp add: late_def)
  have up: "0x400 \<in> sample_ids \<and> state (tasks late 0x400) AND OS_TASK_TIMED \<noteq> 0 \<and> wake (tasks late 0x400) = 100"
    by (simp add: late_def sample_ids_def sample_tasks_def sample_task_def)
  show ?thesis
    by (rule returns_mono [OF timeouts [OF late_rest n refl]]) (use up in presburger)
qed

text \<open>
  C31. The loop of \<open>osTickHandler\<close> that makes tasks more important: the ready tasks with a
  priority that is not zero, is less than the limit and less than that of the running task by
  at least one turn get one more. Nobody overtakes anybody, whoever was more important than
  another task still is at least as important, and the invariant of the kernel holds.
\<close>

theorem aging:
  assumes "rest A s" and "objects_ok A s" and "prio = priority (tasks s (osCurrentTask s))"
  shows "returns (osAging_loop prio (osReadyList s) s)
    (\<lambda>s'. rest A s' \<and> objects_ok A s' \<and>
       (\<forall>t. priority (tasks s' t) =
          (if t \<in> A \<and> state (tasks s t) = OS_TASK_READY \<and> ages prio (priority (tasks s t))
           then priority (tasks s t) + 1 else priority (tasks s t))) \<and>
       (\<forall>t \<in> A. \<forall>u \<in> A. state (tasks s t) = OS_TASK_READY \<longrightarrow> state (tasks s u) = OS_TASK_READY \<longrightarrow>
          priority (tasks s t) \<le> priority (tasks s u) \<longrightarrow> priority (tasks s' t) \<le> priority (tasks s' u)) \<and>
       (\<forall>t \<in> A. priority (tasks s t) \<le> prio \<longrightarrow> priority (tasks s' t) \<le> prio))"
proof -
  note aging = osAging_loop_rest [OF assms(1,2), of prio]
  have low: "older prio p \<le> prio" if "p \<le> prio" for p
    using that ages_unat [of prio p] by (auto simp: older_def ages_def word_le_nat_alt)
  show ?thesis
    unfolding aging(1) returns_Some using aging(2,3) older_mono low
    by (simp add: aged_def older_def)
qed

theorem aging_witness:
  "returns (osAging_loop 9 (osReadyList sample) sample)
    (\<lambda>s'. rest sample_ids s' \<and> priority (tasks s' 0x800) = 5 \<and> priority (tasks s' 0x100) = 0)"
  using aging [OF sample_rest sample_objects, of 9]
  by (auto simp: sample_ids_def sample_tasks_def sample_task_def ages_def elim!: returns_mono)



end
