(* ===== verification/Spec2Isabelle.thy ===== *)
theory Spec2Isabelle
  imports Application_Properties Uart_Properties Task_Properties Time_Properties
begin

text \<open>
  Verification of AVR-OS, a preemptive kernel for AVR microcontrollers (\<^verbatim>\<open>src/system\<close>), and of
  two programs that come with it: the application \<^verbatim>\<open>src/main.c\<close> and the example
  \<^verbatim>\<open>src/examples/uart.c\<close>.

  \<^bold>\<open>The program.\<close> Tasks are structures (\<open>OsTask\<close>) linked into lists which are ordered by
  priority: the list of ready tasks, and one list per mutex, semaphore, queue and event of the
  tasks waiting for it. A second link keeps the tasks that wait with a timeout in order of the
  ticks left. \<^verbatim>\<open>scheduler.c\<close> moves tasks between these lists and picks the task to run, the objects
  call it (\<open>osBlock\<close>, \<open>osWake\<close>, \<open>osSchedule\<close>), the tick ends waits, runs software timers, ages
  priorities and takes turns, and \<^verbatim>\<open>asm.c\<close> exchanges the registers and stacks of two tasks.

  \<^bold>\<open>Theories and sources.\<close>
  \<^item> \<open>Prelude\<close>: code that may fail to return (an option; \<open>returns m P\<close>: it returns, with \<open>P\<close>),
    linked lists as chains of cells, the walk with a pointer to a pointer.
  \<^item> \<open>Kernel_State\<close>: the structures of \<^verbatim>\<open>tasks.h\<close>, \<^verbatim>\<open>mutex.h\<close> and so on as records, with the
    variables of the kernel, memory byte by byte (\<open>ram\<close>) and, for every task that is not running,
    what is left of its kernel call (\<open>cont\<close>), all in one record \<open>kernel\<close>. Addresses, ticks and
    counts are words of 16 and 8 bits; null pointers are \<open>None\<close>.
  \<^item> \<open>Task_Lists\<close>, \<open>Scheduler\<close>, \<open>Tick\<close>: \<^verbatim>\<open>scheduler.c\<close>; \<open>Semaphores\<close>, \<open>Mutexes\<close>, \<open>Events\<close>, \<open>Queues\<close>,
    \<open>Memory\<close>, \<open>Soft_Timers\<close>, \<open>Tasks\<close>: the files of these names (\<^verbatim>\<open>timer.c\<close> for the timers);
    \<open>Port\<close>, \<open>Context_Switch\<close>: \<^verbatim>\<open>asm.c\<close> and \<^verbatim>\<open>asm.h\<close>; \<open>System\<close>: \<^verbatim>\<open>system.c\<close>. A function has one
    definition with the name it has in the source.
  \<^item> \<open>Scheduler_Specs\<close>, \<open>Kernel_Inv\<close>, \<open>Scheduler_Inv\<close>, \<open>Priorities\<close>, \<open>Rest\<close>: the invariant of the
    kernel and how the scheduler keeps it; \<open>Frames\<close>: what calls leave aside; \<open>Tick_Inv\<close>: the tick
    keeps the invariant.
  \<^item> \<open>Reachable\<close>, \<open>Preemption\<close>, \<open>Boot\<close>: the system as a step relation, from power on;
    \<open>Lock_Frames\<close>, \<open>Mutual_Exclusion\<close>: who waits for and who owns mutexes through its steps.
  \<^item> \<open>Programs\<close>: a program with tasks, one queue and one mutex: where the linker puts them
    (\<open>layout\<close>, \<open>layout_ok\<close>), and its way from power on to \<open>osRun\<close>; \<open>Program_Inv\<close>, \<open>Lock_Client\<close>:
    what such a program knows of the mutex and the queue in each of its states.
  \<^item> \<open>Application\<close>: \<^verbatim>\<open>main.c\<close>, its \<open>main\<close> and its four tasks, on top of that system;
    \<open>Application_Inv\<close>, \<open>Application_Properties\<close>: what it relies on the mutex and the queue for.
  \<^item> \<open>Uart\<close>: \<^verbatim>\<open>examples/uart.c\<close> in the same way, with the handler of the serial port and the bytes
    written to it; \<open>Uart_Lines\<close>: the lines of its tasks; \<open>Uart_Inv\<close>, \<open>Uart_Properties\<close>.
  \<^item> \<open>Sample_State\<close>: a state with waiting tasks of every kind, to which properties are applied;
    \<open>System_Properties\<close>, \<open>Task_Properties\<close>, \<open>Time_Properties\<close>, this theory, \<open>Context_Switch\<close> and
    \<open>Port\<close> hold the properties.

  \<^bold>\<open>How code is modelled.\<close> A function takes the kernel and returns the changed one, in an option:
  \<open>None\<close> is a null pointer followed, a loop that never ends, \<open>free\<close> of what is not allocated, or
  \<open>osStackOverflowHook\<close>, which stops the processor. A call that may lose the processor ends in
  \<open>Returned v\<close> or \<open>Switched\<close>; \<open>leave\<close> saves what is left of it as a continuation (\<open>kont\<close>) and
  \<open>run_kont\<close> goes on with it once the task is the current one again. Loops along lists are
  \<open>partial_function\<close>, so that each statement with \<open>returns\<close> includes that the loop ends (the chain of
  mutex owners of \<open>osPriorityRaise\<close> even if it is a circle, since every turn raises a priority);
  no fuel is used. At the level of the kernel \<open>osPortSwitch\<close> is the change of \<open>osCurrentTask\<close>; that
  the instructions save and restore every register, and start a new task in its function, is
  shown in \<open>Context_Switch\<close>.

  \<^bold>\<open>What is shown.\<close> \<open>rest A s\<close>: for the tasks \<open>A\<close> the pointers are lists without sharing, each task
  is on the lists its state says, the lists are sorted, mutexes and their owners agree, nobody
  waits for a mutex of a less important task, nobody has run over the end of the stack, and
  exactly the current task is running. Every call keeps it (the specification of a call says
  besides what has changed, on every branch), and so does the tick; \<open>objects_ok\<close> says that nobody
  waits for what is there, \<open>queues_apart\<close> that buffers are not where stacks end, \<open>timers_ok\<close> that
  timers are in order and none is due, \<open>top_runs\<close> that no ready task is more important than the
  running one. C1 has all of them for each state that is reachable from power on, C2 that nothing
  a task or an interrupt does there gets stuck. \<open>holding\<close> runs the system with a record of what
  \<open>osMutexTryLock\<close> has told the tasks: C3 is mutual exclusion, C4 that nobody but the owner itself
  gives a mutex up.

  The application is the step relation \<open>app_step\<close>: the running task does what is at its point, a
  kernel call or an access to what is shared (\<open>a++\<close> is a load and a store), goes on with a call it
  has been switched away from, or the tick comes. Its kernel takes only steps of the system above,
  so that all that is shown of \<open>reachable\<close> holds for it; \<open>app_inv\<close> adds who is between
  \<open>osMutexLock\<close> and \<open>osMutexUnlock\<close> and what the numbers are there. C5 is that no increment is
  lost, C6 that one task at most is between lock and unlock, C7 that tasks stay in their functions
  and their memory, C8 that the application never gets stuck.

  \<^verbatim>\<open>uart.c\<close> is the step relation \<open>uart_step\<close>, with every byte a step of its own and the handler of
  the port coming in between whenever interrupts are on; \<open>uart_inv\<close> says besides what each task has made of its
  line. C9 is that lines come out in one piece and that \<open>clock\<close> leaves no second out, C10 that the
  program never gets stuck, C11 that \<open>echo\<close> splits its input as the function \<open>split_lines\<close> does,
  C12 that the digits of \<open>clock\<close> are the seconds.

  \<^bold>\<open>Interfaces.\<close> The locale \<open>linked_cells\<close> of \<open>Prelude\<close> is the contract of the cells behind both kinds of
  task lists, the mutexes of an owner and the list of timers; \<open>waitable\<close> of \<open>Rest\<close> is that of an
  object tasks wait for; \<open>timer_functions\<close> of \<open>Tick_Inv\<close> is what \<open>osTimerTick\<close> needs of the
  functions of timers; \<open>relinking_frame\<close> of \<open>Frames\<close> is a property that does not depend on links
  and priorities, so that all changes of lists keep it, and \<open>scheduling_frame\<close>, which extends it,
  one that does not depend on the running task either, so that the scheduler keeps it;
  \<open>lock_client\<close> is a program whose tasks share a mutex and a queue: what its tasks call at each
  point, so that who is between lock and unlock is known through every step. Each is interpreted
  on the model, \<open>lock_client\<close> for both programs.

  \<^bold>\<open>What is relied on.\<close> A function of a timer keeps the invariant and leaves the timers alone
  (\<open>keeps_kernel\<close>) and takes no mutex away (\<open>keeps_locks\<close>); those that call functions for
  interrupt handlers do. For C3 no task may be deleted while it waits in \<open>osMutexTryLock\<close>. The room of a message
  is neither the end of a stack nor in the buffer of the queue (\<open>message_room\<close>), memory given to
  \<open>osTaskCreate\<close> is not in use (\<open>fits\<close>), objects are not made anew while they are in use
  (\<open>unused\<close>). \<open>malloc\<close> and the addresses of the linker are parameters; for the two
  programs the linker is relied on to give their variables and the stacks room of their own
  (\<open>layout_ok\<close>, which holds for \<open>board\<close> and \<open>uart_board\<close>). A load or store of one of the 16 bit numbers
  of \<^verbatim>\<open>main.c\<close> is one step; it takes two instructions, but only the owner of the mutex makes them.

  \<^bold>\<open>Not modelled.\<close> The examples \<^verbatim>\<open>blink.c\<close> and \<^verbatim>\<open>watchdog.c\<close> (its tasks are dynamic ones) and the
  tests; options other than the defaults of \<^verbatim>\<open>config.h\<close> (32 bit ticks, parts switched off),
  processors with two byte return addresses; sleep modes, the timer registers but for the
  prescaler and the compare value, \<open>__malloc_heap_end\<close>. The functions which are more than one
  critical section (\<open>osTaskCreateDynamic\<close>, \<open>osTaskReap\<close>) are modelled without an interrupt in between, and
  interrupts come only when the running task is not in a kernel call. Tasks made with
  \<open>osTaskCreateDynamic\<close> and \<open>osTaskReap\<close> have properties of their own but are not part of \<open>reachable\<close>.
\<close>

section \<open>Semaphores\<close>

text \<open>
  C21. \<open>osSemaphoreTake\<close> at rest: a count that is not zero is decremented and the call returns
  true; without a count it returns false if it may not wait (the idle task never does), and
  otherwise the current task waits for the semaphore, until the timeout if there is one, and
  the most important ready task gets the processor. The invariant of the kernel holds afterwards.
\<close>

theorem semaphore_take:
  assumes "rest A s" and "objects_ok A s" and "c = osCurrentTask s"
  shows "returns (osSemaphoreTake m timeout s)
    (\<lambda>(r, s'). rest A s' \<and> objects_ok A s' \<and>
      (if s_count (semaphores s m) \<noteq> 0
       then r = Returned (VBool True) \<and> s' = sem_upd m (s_count_update (\<lambda>n. n - 1)) s
       else if timeout = OS_NO_WAIT \<or> c = osIdleTask s
       then r = Returned (VBool False) \<and> s' = s
       else r = Switched \<and> blocked c (Some (SemHead m)) timeout s s' \<and> top_runs A s'))"
  using assms by (rule osSemaphoreTake_rest)

theorem semaphore_take_witness:
  "returns (osSemaphoreTake 0x20 7 sample)
    (\<lambda>(r, s'). r = Switched \<and> rest sample_ids s' \<and>
       blocked 0x200 (Some (SemHead 0x20)) 7 sample s' \<and> top_runs sample_ids s')"
  using semaphore_take [OF sample_rest sample_objects refl, of "0x20" 7]
  by (auto simp: sample_semaphores_def elim!: returns_mono)

text \<open>
  C22. \<open>osSemaphoreGiveFromISR\<close> at rest gives the semaphore to the most important of the tasks
  waiting for it, which becomes ready with the result true, and the count stays as it is; if
  nobody waits, the count goes up by one unless it has reached the limit. The running task
  keeps the processor and the invariant of the kernel holds afterwards.
\<close>

theorem semaphore_give_isr:
  assumes "rest A s" and "objects_ok A s"
  shows "returns (osSemaphoreGiveFromISR m s)
    (\<lambda>s'. rest A s' \<and> objects_ok A s' \<and> osCurrentTask s' = osCurrentTask s \<and>
      (case s_waiters (semaphores s m) of
         Some w \<Rightarrow>
           w \<in> A \<and> waitList (tasks s w) = Some (SemHead m) \<and>
           (\<forall>t \<in> A. waitList (tasks s t) = Some (SemHead m) \<longrightarrow> priority (tasks s t) \<le> priority (tasks s w)) \<and>
           state (tasks s' w) = OS_TASK_READY \<and> result (tasks s' w) = 1 \<and> waitList (tasks s' w) = None \<and>
           s_count (semaphores s' m) = s_count (semaphores s m)
       | None \<Rightarrow>
           (\<forall>t \<in> A. waitList (tasks s t) \<noteq> Some (SemHead m)) \<and>
           s' = (if s_count (semaphores s m) < s_limit (semaphores s m)
             then sem_upd m (s_count_update (\<lambda>n. n + 1)) s else s)))"
proof (cases "s_waiters (semaphores s m)")
  case None
  then show ?thesis
    using osSemaphoreGiveFromISR_rest [OF assms, of m] sem.nobody [OF assms(1), of m]
    by (auto elim!: returns_mono)
next
  case (Some w)
  then have "rd s (Head (SemHead m)) = Some w" by simp
  from waiting_head [OF assms(1) _ _ this] show ?thesis
    using osSemaphoreGiveFromISR_rest [OF assms, of m] Some
    by (auto simp: data_eqD woken_def elim!: returns_mono)
qed

theorem semaphore_give_isr_witness:
  "returns (osSemaphoreGiveFromISR 0x20 sample)
    (\<lambda>s'. rest sample_ids s' \<and> state (tasks s' 0x400) = OS_TASK_READY \<and> result (tasks s' 0x400) = 1)"
  using semaphore_give_isr [OF sample_rest sample_objects, of "0x20"]
  by (auto simp: sample_semaphores_def elim!: returns_mono)

text \<open>
  After \<open>osSemaphoreGive\<close> nobody who is ready is more important than the running task,
  and the invariant of the kernel holds.
\<close>

theorem semaphore_give:
  assumes "rest A s" and "objects_ok A s"
  shows "returns (osSemaphoreGive m s)
    (\<lambda>(r, s'). rest A s' \<and> objects_ok A s' \<and> top_runs A s')"
  using assms by (rule osSemaphoreGive_rest)

theorem semaphore_give_witness:
  "returns (osSemaphoreGive 0x20 sample) (\<lambda>(r, s'). rest sample_ids s' \<and> top_runs sample_ids s')"
  using semaphore_give [OF sample_rest sample_objects, of "0x20"]
  by (auto elim!: returns_mono)

section \<open>Mutexes\<close>



text \<open>
  C15. \<open>osMutexTryLock\<close> at rest: a free mutex belongs to the running task afterwards; a mutex
  that is taken makes the call return false if it may not wait, and otherwise no mutex changes
  its owner and the running task waits for it, with the rest of the call saved. In every case
  the invariant of the kernel, and with it the absence of priority inversion, holds afterwards.
\<close>

theorem mutex_try_lock:
  assumes "rest A s" and "objects_ok A s" and "c = osCurrentTask s"
  shows "returns (osMutexTryLock m timeout s)
    (\<lambda>(r, s'). rest A s' \<and> objects_ok A s' \<and>
      (case owner (mutexes s m) of
         None \<Rightarrow> r = Returned (VBool True) \<and> owner (mutexes s' m) = Some c \<and>
           (\<forall>x. x \<noteq> m \<longrightarrow> owner (mutexes s' x) = owner (mutexes s x))
       | Some t \<Rightarrow>
           if timeout = OS_NO_WAIT then r = Returned (VBool False) \<and> s' = s
           else same_owners s s' \<and>
             (if c = osIdleTask s then r = Returned (VBool False)
              else r = Switched \<and> waitList (tasks s' c) = Some (MutexHead m) \<and>
                cont s' c = Some (KMutexTryLock m) \<and> top_runs A s')))"
  using osMutexTryLock_rest [OF assms, of m timeout]
  by (auto elim!: returns_mono split: option.splits)

theorem mutex_try_lock_witness:
  "returns (osMutexTryLock 0x11 5 sample)
    (\<lambda>(r, s'). rest sample_ids s' \<and> r = Returned (VBool True) \<and> owner (mutexes s' 0x11) = Some 0x200)"
  using mutex_try_lock [OF sample_rest sample_objects refl, of "0x11" 5]
  by (auto simp: sample_mutexes_def elim!: returns_mono)

text \<open>
  C14. \<open>osMutexUnlock\<close> at rest does nothing unless the running task owns the mutex; if it does,
  the mutex belongs to the most important task waiting for it afterwards, or to nobody if
  nobody waits, the owners of the other mutexes are the same, and no ready task is more
  important than the running one.
\<close>

theorem mutex_unlock:
  assumes "rest A s" and "objects_ok A s"
  shows "returns (osMutexUnlock m s)
    (\<lambda>(r, s'). rest A s' \<and> objects_ok A s' \<and>
      (if owner (mutexes s m) = Some (osCurrentTask s)
       then top_runs A s' \<and> owner (mutexes s' m) = m_waiters (mutexes s m) \<and>
         (\<forall>w. m_waiters (mutexes s m) = Some w \<longrightarrow> (\<forall>t \<in> A. waitList (tasks s t) = Some (MutexHead m) \<longrightarrow>
            priority (tasks s t) \<le> priority (tasks s w))) \<and>
         (\<forall>x. x \<noteq> m \<longrightarrow> owner (mutexes s' x) = owner (mutexes s x))
       else r = Returned VVoid \<and> s' = s))"
proof -
  have "\<forall>w. m_waiters (mutexes s m) = Some w \<longrightarrow> (\<forall>t \<in> A. waitList (tasks s t) = Some (MutexHead m) \<longrightarrow>
      priority (tasks s t) \<le> priority (tasks s w))"
    using waiting_head(7) [OF assms(1), of "MutexHead m"] by auto
  then show ?thesis
    using osMutexUnlock_rest [OF assms, of m] by (auto elim!: returns_mono)
qed

theorem mutex_unlock_witness:
  "returns (osMutexUnlock 0x10 sample)
    (\<lambda>(r, s'). rest sample_ids s' \<and> top_runs sample_ids s' \<and> owner (mutexes s' 0x10) = Some 0x300)"
  using mutex_unlock [OF sample_rest sample_objects, of "0x10"]
  by (auto simp: sample_mutexes_def elim!: returns_mono)


section \<open>Priorities\<close>

text \<open>
  C24. \<open>osInheritedPriority\<close> at rest returns the greatest of the base priority of the task and
  the priorities of the tasks that wait for one of its mutexes, which is never more than the
  priority the task has.
\<close>

theorem inherited_priority:
  assumes "rest A s" and "t \<in> A"
  shows "returns (osInheritedPriority t s)
    (\<lambda>p. basePriority (tasks s t) \<le> p \<and> p \<le> priority (tasks s t) \<and>
       (\<forall>m. \<forall>w \<in> A. owner (mutexes s m) = Some t \<longrightarrow> waitList (tasks s w) = Some (MutexHead m) \<longrightarrow>
          priority (tasks s w) \<le> p) \<and>
       (p = basePriority (tasks s t) \<or>
        (\<exists>m. \<exists>w \<in> A. owner (mutexes s m) = Some t \<and> waitList (tasks s w) = Some (MutexHead m) \<and>
           p = priority (tasks s w))))"
  using assms by (rule inherited_rest)

theorem inherited_priority_witness:
  "returns (osInheritedPriority 0x200 sample) (\<lambda>p. 5 \<le> p \<and> p \<le> 9)"
  using inherited_priority [OF sample_rest, of "0x200"]
  by (simp add: sample_ids_def sample_tasks_def sample_task_def returns_iff) blast

text \<open>
  C13. \<open>osPriorityRaise\<close> returns, however long the chain of owners that wait for mutexes of
  other owners is, and even if it is a circle (a deadlock). The task has at least the priority
  asked for afterwards, every priority is the same as before or has been raised to the priority
  asked for, and the invariant of the kernel holds.
\<close>

theorem priority_raise:
  assumes "rest A s" and "t \<in> A" and "state (tasks s t) \<noteq> OS_TASK_DEAD" and "p \<le> OS_PRIORITY_MAX"
  shows "returns (osPriorityRaise t p s)
    (\<lambda>s'. rest A s' \<and> p \<le> priority (tasks s' t) \<and>
       (\<forall>x. priority (tasks s' x) = priority (tasks s x) \<or>
          priority (tasks s x) < p \<and> priority (tasks s' x) = p) \<and>
       osCurrentTask s' = osCurrentTask s)"
proof -
  from assms(1) obtain L TL OL where K: "kernel_inv L TL OL A s" by (auto simp: rest_def)
  then have R: "repr L TL s" and inv: "data_inv {} L TL OL A s"
    and K1: "not_due TL s" "running {osCurrentTask s} A s" by (simp_all add: kernel_inv_def)
  then have base: "base_inv L TL OL A s" and bp: "bounded A s" "no_inversion L s"
    by (simp_all add: data_inv_base)
  have cont: "\<forall>t \<in> A. t \<noteq> osCurrentTask s \<longrightarrow> cont s t \<noteq> None" using assms(1) by (simp add: rest_def)
  have "rest A s' \<and> osCurrentTask s' = osCurrentTask s"
    if s': "repr L' TL s'" "data_inv {} L' TL OL A s'" "raised t p L s L' s'" for s' L'
  proof -
    have d: "data_eq (with_priorities (\<lambda>x. priority (tasks s' x)) s) s'"
      using s'(3) by (simp add: raised_def)
    from rest_priorities [OF cont kernel_inv_priorities [OF K1 s'(1,2) d] d] show ?thesis by simp
  qed
  then show ?thesis
    using osPriorityRaise_inv [OF R base no_inversion_but [OF bp(2)] assms(2,3,4) bounded_bounded_but [OF bp(1)]]
    by (auto simp: raised_def elim!: returns_mono)
qed

theorem priority_raise_witness:
  "returns (osPriorityRaise 0x200 20 sample) (\<lambda>s'. rest sample_ids s' \<and> 20 \<le> priority (tasks s' 0x200))"
  using priority_raise [OF sample_rest, of "0x200" 20]
  by (auto simp: sample_ids_def sample_tasks_def sample_task_def elim!: returns_mono)



section \<open>Scheduling\<close>

text \<open>
  C20. \<open>osSchedule\<close>, when there is somebody to give the processor to: the first task of the
  ready list runs afterwards, and the task that ran before is ready. It is behind the tasks
  which are more important than itself, ahead of those as important as itself if it has been
  preempted (\<open>y = 0\<close>) and behind them if it gives up its turn (\<open>y = 1\<close>).
\<close>

theorem schedule_turns:
  assumes "kernel_inv L TL OL A s" and "y = 0 \<or> y = 1" and "osScheduleNeeded y s"
    and "c = osCurrentTask s" and "L ReadyHead = n # ns" and "p = settled L (OL c) s c"
    and "f = (\<lambda>x. p + 1 - y \<le> (if x = c then p else priority (tasks s x)))"
  shows "returns (osSchedule y s)
    (\<lambda>(r, s'). r = Switched \<and> osCurrentTask s' = n \<and> state (tasks s' c) = OS_TASK_READY \<and>
       kernel_inv (L(ReadyHead := takeWhile f ns @ c # dropWhile f ns)) TL OL A s')"
proof -
  define s1 where "s1 = preempted c p s"
  have c: "c \<notin> set (L ReadyHead)"
    using current_detached(2) [OF assms(1)] by (simp add: absent_def assms(4))
  have "priority (tasks s1 x) = (if x = c then p else priority (tasks s x))" for x
    by (simp add: s1_def preempted_def)
  then have "ins (\<lambda>x. priority (tasks s1 x)) (priority (tasks s1 c) + 1 - y) c ns =
      takeWhile f ns @ c # dropWhile f ns"
    by (simp add: ins_def assms(7))
  moreover have "n \<noteq> c" using c assms(5) by auto
  ultimately show ?thesis
    using osSchedule_inv [OF assms(1,2,3,4) s1_def [unfolded assms(6)] assms(5) refl]
    by (auto simp: data_eqD switched_to_def s1_def preempted_def assms(6) elim!: returns_mono)
qed

theorem schedule_turns_witness:
  "returns (osSchedule 1 (sample_at 9))
    (\<lambda>(r, s'). r = Switched \<and> osCurrentTask s' = 0x800 \<and>
       kernel_inv (sample_lists(ReadyHead := [0x200, 0x100])) [0x400] sample_owned sample_ids s')"
proof -
  have p: "9 = settled sample_lists (sample_owned 0x200) (sample_at 9) 0x200"
    by (simp add: settled_def inherited_def sample_owned_def sample_tasks_def sample_task_def)
  have needed: "osScheduleNeeded 1 (sample_at 9)"
    by (simp add: osScheduleNeeded_def sample_tasks_def sample_task_def)
  have list: "sample_lists ReadyHead = 0x800 # [0x100]" by simp
  have "(9 :: u8) \<le> 254" by simp
  note inv = sample_inv [OF this]
  show ?thesis
    using schedule_turns [OF inv _ needed sample_simps(1) [symmetric] list p refl]
    by (auto simp: sample_tasks_def sample_task_def elim!: returns_mono)
qed

text \<open>
  \<open>osDelay\<close> with a number of ticks at rest: the idle task returns at once; another task
  waits for nothing but the time, which is up as many ticks from now, and the most important
  ready task runs meanwhile.
\<close>

theorem delay:
  assumes "rest A s" and "objects_ok A s" and "ticks \<noteq> 0" and "c = osCurrentTask s"
  shows "returns (osDelay ticks s)
    (\<lambda>(r, s'). if c = osIdleTask s then r = Returned VVoid \<and> s' = s
       else r = Switched \<and> rest A s' \<and> objects_ok A s' \<and> top_runs A s' \<and> waitList (tasks s' c) = None \<and>
         (ticks \<noteq> OS_WAIT_FOREVER \<longrightarrow> wake (tasks s' c) = osTicks s + ticks) \<and> cont s' c = Some KDelay)"
proof -
  have "objects_ok A s'" if "blocked c None ticks s s'" for s'
    by (rule objects_ok_blocked [OF assms(2) that]) simp_all
  then show ?thesis
    using block_rest_simple [OF assms(1,4,3), of None KDelay] assms(3,4)
    by (auto simp: osDelay_def returns_leave blocked_def elim!: returns_mono split: if_splits)
qed

theorem delay_witness:
  "returns (osDelay 20 sample)
    (\<lambda>(r, s'). r = Switched \<and> rest sample_ids s' \<and> wake (tasks s' 0x200) = 110)"
  using delay [OF sample_rest sample_objects _ refl, of 20] by (auto elim!: returns_mono)

text \<open>
  C26. \<open>osDelayUntil\<close> at rest always moves \<open>*previous\<close> on by one period. The task waits
  exactly if the new time is at most one period ahead (so it does not if it is late), and then
  it is woken up at that very time, even if the tick counter wraps around in between (only a
  distance of 65535 ticks, \<open>OS_WAIT_FOREVER\<close>, is a wait without end).
\<close>

theorem delay_until:
  assumes "rest A s" and "objects_ok A s" and "c = osCurrentTask s" and "c \<noteq> osIdleTask s"
    and "ahead = previous + period - osTicks s"
  shows "fst (osDelayUntil previous period s) = previous + period \<and>
    returns (snd (osDelayUntil previous period s))
      (\<lambda>(r, s'). if 1 \<le> unat ahead \<and> unat ahead \<le> unat period
         then r = Switched \<and> rest A s' \<and> objects_ok A s' \<and> top_runs A s' \<and>
           (ahead \<noteq> OS_WAIT_FOREVER \<longrightarrow> wake (tasks s' c) = previous + period)
         else r = Returned VVoid \<and> s' = s)"
proof -
  have ok: "objects_ok A s'" if "blocked c None ahead s s'" for s'
    by (rule objects_ok_blocked [OF assms(2) that]) simp_all
  have cond: "ahead - 1 < period \<longleftrightarrow> 1 \<le> unat ahead \<and> unat ahead \<le> unat period"
  proof (cases "ahead = 0")
    case True
    have "\<not> - 1 < period" by (simp add: not_less)
    with True show ?thesis by simp
  next
    case False
    then have "unat ahead \<noteq> 0" by (simp add: unat_eq_0)
    with False show ?thesis by (simp add: word_less_nat_alt unat_minus_one) linarith
  qed
  have eq: "osTicks s + ahead = previous + period" by (simp add: assms(5))
  have "snd (osDelayUntil previous period s) = (if ahead - 1 < period
      then leave c KDelay (\<lambda>_ s. Some (Returned VVoid, s)) (osBlock None ahead s) else Some (Returned VVoid, s))"
    by (simp add: osDelayUntil_def Let_def assms(3,5))
  moreover have "ahead \<noteq> 0" if "ahead - 1 < period" using that cond by auto
  ultimately show ?thesis
    using block_rest_simple [OF assms(1,3), of ahead None KDelay] assms(1,2,4) ok cond eq
    by (auto simp: osDelayUntil_def Let_def returns_leave blocked_def elim!: returns_mono split: if_splits)
qed

theorem delay_until_witness:
  "fst (osDelayUntil 85 10 sample) = 95 \<and>
   returns (snd (osDelayUntil 85 10 sample)) (\<lambda>(r, s'). r = Switched \<and> wake (tasks s' 0x200) = 95)"
  using delay_until [OF sample_rest sample_objects refl _ refl, of 85 10] by (auto elim!: returns_mono)


section \<open>Events\<close>

text \<open>
  \<open>osEventMatch\<close> is what is wanted of the flags: some of the wanted flags that are set, all
  of them, and with \<open>OS_EVENT_ALL\<close> nothing unless all the wanted flags are set. It is zero
  exactly if the request is not satisfied.
\<close>

theorem event_matching:
  "osEventMatch flags wanted options =
     (if event_match flags wanted options then flags AND wanted else 0)"
  unfolding osEventMatch_def event_match_def Let_def by auto

text \<open>
  C23. \<open>osEventWait\<close> at rest: if the flags satisfy the request the call returns them at once, and
  they are cleared unless \<open>OS_EVENT_KEEP\<close> is given; otherwise it returns zero if it may not
  wait (the idle task never does), or the running task waits with its request noted.
\<close>

theorem event_wait:
  assumes "rest A s" and "objects_ok A s" and "c = osCurrentTask s"
    and "m = osEventMatch (e_flags (events s e)) flags options"
  shows "returns (osEventWait e flags options timeout s)
    (\<lambda>(r, s'). rest A s' \<and> objects_ok A s' \<and>
      (if m \<noteq> 0
       then r = Returned (VByte m) \<and> s' = (if options AND OS_EVENT_KEEP = 0
         then event_upd e (e_flags_update (\<lambda>f. f AND NOT m)) s else s)
       else if timeout = OS_NO_WAIT
       then r = Returned (VByte 0) \<and> s' = s
       else if c = osIdleTask s
       then r = Returned (VByte 0) \<and> events s' = events s
       else r = Switched \<and> waitList (tasks s' c) = Some (EventHead e) \<and>
         wait_flags (wait (tasks s' c)) = flags \<and> wait_options (wait (tasks s' c)) = options \<and>
         (timeout \<noteq> OS_WAIT_FOREVER \<longrightarrow> wake (tasks s' c) = osTicks s + timeout) \<and> top_runs A s'))"
  using assms by (rule osEventWait_rest)

theorem event_wait_witness:
  "returns (osEventWait 0x31 4 0 9 sample)
    (\<lambda>(r, s'). rest sample_ids s' \<and> r = Returned (VByte 4) \<and> e_flags (events s' 0x31) = 1)"
  using event_wait [OF sample_rest sample_objects refl refl, of "0x31" 4 0 9]
  by (auto simp: osEventMatch_def sample_events_def elim!: returns_mono)

text \<open>
  C17. \<open>osEventSetFromISR\<close> at rest serves the tasks waiting for the event one after the other,
  the most important first, as the reference function \<open>serve\<close> does: each gets the flags its
  request matches, is ready with the result true, and takes the flags away unless it keeps
  them. The flags left satisfy nobody who still waits (part of \<open>objects_ok\<close>).
\<close>

theorem event_set_isr:
  assumes "rest A s" and "objects_ok A s"
  shows "returns (osEventSetFromISR e flags s)
    (\<lambda>s'. rest A s' \<and> objects_ok A s' \<and> osCurrentTask s' = osCurrentTask s \<and>
      (\<exists>ws. distinct ws \<and> set ws = {t \<in> A. waitList (tasks s t) = Some (EventHead e)} \<and>
        sorted_wrt (\<lambda>x y. priority (tasks s y) \<le> priority (tasks s x)) ws \<and>
        served e s (serve s (e_flags (events s e) OR flags) ws) s'))"
  using assms by (rule osEventSetFromISR_rest)

theorem event_set_isr_witness:
  "returns (osEventSetFromISR 0x30 2 sample) (\<lambda>s'. rest sample_ids s' \<and> objects_ok sample_ids s')"
  using event_set_isr [OF sample_rest sample_objects, of "0x30" 2] by (auto elim!: returns_mono)

text \<open>
  After \<open>osEventSet\<close> nobody who is ready is more important than the running task, and
  nobody waits for flags that are set.
\<close>

theorem event_set:
  assumes "rest A s" and "objects_ok A s"
  shows "returns (osEventSet e flags s) (\<lambda>(r, s'). rest A s' \<and> top_runs A s' \<and>
    (\<forall>t \<in> A. \<forall>x. waitList (tasks s' t) = Some (EventHead x) \<longrightarrow>
       osEventMatch (e_flags (events s' x)) (wait_flags (wait (tasks s' t))) (wait_options (wait (tasks s' t))) = 0))"
  using osEventSet_rest [OF assms, of e flags]
  by (rule returns_mono) (auto simp: objects_ok_def osEventMatch_iff [of _ _ _, symmetric])

theorem event_set_witness:
  "returns (osEventSet 0x30 3 sample) (\<lambda>(r, s'). rest sample_ids s' \<and> top_runs sample_ids s')"
  using event_set [OF sample_rest sample_objects, of "0x30" 3] by (auto elim!: returns_mono)

section \<open>Queues\<close>

text \<open>
  C18. \<open>osQueuePut\<close> at rest: a message sent to an empty queue is copied to the most important
  receiver waiting, which becomes ready; with room in the queue it is appended to the messages
  of the queue (first in, first out, however the buffer wraps around); without room the call
  fails if it may not wait, and otherwise the running task waits with the address of its
  message. The message and the buffers must not overlap and must not be where the stacks end.
\<close>

theorem queue_put:
  assumes "rest A s" and "objects_ok A s" and "queues_apart A s" and "c = osCurrentTask s"
    and "Q = queues s q" and "n = unat (itemSize Q)"
    and "harmless A s (region item n)" and "region item n \<inter> buffer_region Q = {}"
    and "\<And>t. t \<in> A \<Longrightarrow> waitList (tasks s t) = Some (QueueHead q) \<Longrightarrow>
      region (wait (tasks s t)) n \<inter> region item n = {}"
  shows "returns (osQueuePut q item timeout s)
    (\<lambda>(r, s'). goes_on A c r s' \<and>
      (case (if q_count Q = 0 then q_waiters Q else None) of
         Some w \<Rightarrow> r = Returned (VBool True) \<and>
           msg (wait (tasks s w)) n (ram s') = msg item n (ram s) \<and>
           result (tasks s' w) = 1 \<and> state (tasks s' w) = OS_TASK_READY \<and> waitList (tasks s' w) = None \<and>
           q_count (queues s' q) = 0
       | None \<Rightarrow>
           if q_count Q < q_length Q
           then r = Returned (VBool True) \<and>
             messages (queues s' q) (ram s') = messages Q (ram s) @ [msg item n (ram s)]
           else if timeout = OS_NO_WAIT then r = Returned (VBool False) \<and> s' = s
           else if c = osIdleTask s then r = Returned (VBool False)
           else r = Switched \<and> waitList (tasks s' c) = Some (QueueHead q) \<and> wait (tasks s' c) = item \<and>
             (timeout \<noteq> OS_WAIT_FOREVER \<longrightarrow> wake (tasks s' c) = osTicks s + timeout)))"
  using assms by (rule osQueuePut_rest)

theorem queue_put_witness:
  "returns (osQueuePut 0x41 0x1800 0 sample)
    (\<lambda>(r, s'). r = Returned (VBool True) \<and>
       messages (queues s' 0x41) (ram s') = [[0xa5, 0xa5], [0xa5, 0xa5]])"
  using queue_put [OF sample_rest sample_objects sample_apart refl sample_room, of 0] sample_message
  by (auto simp: sample_queues_def elim!: returns_mono)

text \<open>
  C19. \<open>osQueueGet\<close> at rest delivers the oldest message and removes it; a sender that waits for
  room is the next in line, its message is appended and it becomes ready. From an empty queue
  the call fails if it may not wait, and otherwise the running task waits with the address its
  message goes to.
\<close>

theorem queue_get:
  assumes "rest A s" and "objects_ok A s" and "queues_apart A s" and "c = osCurrentTask s"
    and "Q = queues s q" and "n = unat (itemSize Q)"
    and "harmless A s (region item n)" and "region item n \<inter> buffer_region Q = {}"
    and "\<And>t. t \<in> A \<Longrightarrow> waitList (tasks s t) = Some (QueueHead q) \<Longrightarrow>
      region (wait (tasks s t)) n \<inter> region item n = {}"
  shows "returns (osQueueGet q item timeout s)
    (\<lambda>(r, s'). goes_on A c r s' \<and>
      (if q_count Q \<noteq> 0
       then r = Returned (VBool True) \<and> msg item n (ram s') = hd (messages Q (ram s)) \<and>
         (case q_waiters Q of
            None \<Rightarrow> messages (queues s' q) (ram s') = tl (messages Q (ram s))
          | Some w \<Rightarrow>
              messages (queues s' q) (ram s') =
                tl (messages Q (ram s)) @ [msg (wait (tasks s w)) n (ram s)] \<and>
              result (tasks s' w) = 1 \<and> state (tasks s' w) = OS_TASK_READY \<and> waitList (tasks s' w) = None)
       else if timeout = OS_NO_WAIT then r = Returned (VBool False) \<and> s' = s
       else if c = osIdleTask s then r = Returned (VBool False)
       else r = Switched \<and> waitList (tasks s' c) = Some (QueueHead q) \<and> wait (tasks s' c) = item \<and>
         (timeout \<noteq> OS_WAIT_FOREVER \<longrightarrow> wake (tasks s' c) = osTicks s + timeout)))"
  using assms by (rule osQueueGet_rest)

theorem queue_get_witness:
  "returns (osQueueGet 0x41 0x1800 0 sample)
    (\<lambda>(r, s'). r = Returned (VBool True) \<and> msg 0x1800 2 (ram s') = [0xa5, 0xa5] \<and>
       messages (queues s' 0x41) (ram s') = [])"
  using queue_get [OF sample_rest sample_objects sample_apart refl sample_room, of 0] sample_message
  by (auto simp: sample_queues_def elim!: returns_mono)

end
